(* ===== verification/Kernel_Prelude.thy ===== *)
theory Kernel_Prelude
  imports Main "HOL-Library.Word" "HOL-Library.Monad_Syntax"
begin

text \<open>
  Shared vocabulary of the development: the kernel's integer types as words, its error
  codes, byte-array copies with the bounds the C code must respect, and the list, option
  and word facts that several components use. A component that can execute undefined
  behaviour, a \<open>BUG_ON\<close> or an out-of-range access returns an \<open>option\<close>, whose
  \<open>None\<close> is that event; a function that returns a negative errno returns \<open>Inl\<close>.
\<close>

unbundle bit_operations_syntax

named_theorems unat_simps \<open>unsigned readings of word arithmetic\<close>
named_theorems mem_simps \<open>facts on bounded array reads and writes\<close>

section \<open>Integer types and error codes\<close>

type_synonym u8 = "8 word"
type_synonym u16 = "16 word"
type_synonym u32 = "32 word"
type_synonym u64 = "64 word"

text \<open>The error codes of \<^verbatim>\<open>include/asm-generic/errno-base.h\<close> and \<^verbatim>\<open>errno.h\<close> that the modelled
  functions return.\<close>

datatype errno =
    EPERM | ENOENT | ESRCH | EINTR | E2BIG | EAGAIN | ENOMEM | EACCES | EFAULT
  | EBUSY | EEXIST | EMSGSIZE | EINVAL | EFBIG | ENOSPC | ERANGE | EDEADLK | ENOLCK | EIDRM
  | EOVERFLOW | EOPNOTSUPP | EBADF | EIO | EROFS | ENOSYS | ENODATA
  | ENOTDIR | EISDIR | EDQUOT | ETXTBSY

type_synonym 'a result = "errno + 'a"

section \<open>Bounded array accesses\<close>

text \<open>
  \<open>memcpy\<close> into and out of an array of known length: \<open>None\<close> when a byte outside the
  array would be touched.
\<close>

definition mem_read :: "nat \<Rightarrow> nat \<Rightarrow> 'a list \<Rightarrow> 'a list option" where
  "mem_read off n src =
     (if off + n \<le> length src then Some (take n (drop off src)) else None)"

definition mem_write :: "nat \<Rightarrow> 'a list \<Rightarrow> 'a list \<Rightarrow> 'a list option" where
  "mem_write off src dst =
     (if off + length src \<le> length dst
      then Some (take off dst @ src @ drop (off + length src) dst) else None)"

lemma mem_read_Some [mem_simps]:
  "off + n \<le> length src \<Longrightarrow> mem_read off n src = Some (take n (drop off src))"
  by (simp add: mem_read_def)

lemma mem_write_Some [mem_simps]:
  "off + length src \<le> length dst \<Longrightarrow>
   mem_write off src dst = Some (take off dst @ src @ drop (off + length src) dst)"
  by (simp add: mem_write_def)

lemma length_mem_write [mem_simps]:
  "mem_write off src dst = Some dst' \<Longrightarrow> length dst' = length dst"
  by (auto simp: mem_write_def split: if_splits)

lemma nth_mem_write:
  assumes "mem_write off src dst = Some dst'" and "i < length dst"
  shows "dst' ! i =
    (if off \<le> i \<and> i < off + length src then src ! (i - off) else dst ! i)"
  using assms by (auto simp: mem_write_def nth_append split: if_splits)

lemma length_eq_addE:
  assumes "length xs = m + n"
  obtains ys zs where "xs = ys @ zs" "length ys = m" "length zs = n"
  using assms append_take_drop_id [of m xs] by (metis add_diff_cancel_left' length_drop length_take
      le_add1 min.absorb2)

section \<open>Words\<close>

lemma unat_and_mask:
  fixes x :: "'a::len word"
  shows "unat (x AND mask k) = unat x mod 2 ^ k"
  by (simp only: take_bit_eq_mask [symmetric] unsigned_take_bit_eq) (simp add: take_bit_eq_mod)

lemma unat_diff_le:
  fixes a b :: "'a::len word"
  assumes "unat b \<le> unat a"
  shows "unat (a - b) = unat a - unat b"
  using assms by (simp add: unat_sub word_le_nat_alt)

text \<open>Counters that are only ever advanced: their distance is additive modulo the width.\<close>

lemma mod_pow2_mod:
  fixes n :: nat
  assumes "k \<le> m"
  shows "n mod 2 ^ m mod 2 ^ k = n mod 2 ^ k"
  using assms by (simp add: mod_mod_cancel le_imp_power_dvd)

lemma unat_add_mod_pow2:
  fixes a b :: "'a::len word"
  assumes "k \<le> LENGTH('a)"
  shows "unat (a + b) mod 2 ^ k = (unat a + unat b) mod 2 ^ k"
  using assms by (simp add: unat_word_ariths mod_pow2_mod)

lemma unat_min: "unat (min a b) = min (unat a) (unat b)"
  by (simp add: min_def word_le_nat_alt)

lemma unat_ucast_up:
  assumes "LENGTH('a) \<le> LENGTH('b)"
  shows "unat (ucast (x :: 'a::len word) :: 'b::len word) = unat x"
proof -
  have "unat x < 2 ^ LENGTH('b)"
    using unsigned_less [of x, where 'a = nat] assms
    by (meson less_le_trans one_le_numeral power_increasing)
  then show ?thesis by (simp add: unsigned_ucast_eq take_bit_nat_eq_self)
qed

end
