(* ===== verification/Kfifo.thy ===== *)
theory Kfifo
  imports Kernel_Prelude
begin

text \<open>
  The byte ring buffer of \<^verbatim>\<open>kernel/kfifo.c\<close> and \<^verbatim>\<open>include/linux/kfifo.h\<close>. The indices
  \<open>in\<close> and \<open>out\<close> are free-running 32-bit counters; the code relies on their wrap-around
  and on the size being a power of two. The functions without locking carry the prefix
  \<open>raw_\<close> here (the source's leading underscores).
\<close>

section \<open>State and operations\<close>

record kfifo =
  kf_buffer :: "u8 list"
  kf_size :: u32
  kf_in :: u32
  kf_out :: u32

text \<open>\<open>is_power_of_2\<close> of \<^verbatim>\<open>include/linux/log2.h\<close>, on the 64-bit \<open>unsigned long\<close>.\<close>

definition is_power_of_2 :: "u64 \<Rightarrow> bool" where
  "is_power_of_2 n = (n \<noteq> 0 \<and> n AND (n - 1) = 0)"

text \<open>
  \<open>kfifo_init\<close>: \<open>None\<close> is the \<open>BUG_ON\<close>; \<open>kmalloc_ok\<close> says whether the
  descriptor could be allocated.
\<close>

definition kfifo_init :: "bool \<Rightarrow> u8 list \<Rightarrow> u32 \<Rightarrow> kfifo result option" where
  "kfifo_init kmalloc_ok buffer sz =
     (if \<not> is_power_of_2 (ucast sz) then None
      else if \<not> kmalloc_ok then Some (Inl ENOMEM)
      else Some (Inr \<lparr>kf_buffer = buffer, kf_size = sz, kf_in = 0, kf_out = 0\<rparr>))"

definition raw_kfifo_put :: "kfifo \<Rightarrow> u8 list \<Rightarrow> u32 \<Rightarrow> (kfifo \<times> u32) option" where
  "raw_kfifo_put fifo buffer len0 =
     (let len = min len0 (kf_size fifo - kf_in fifo + kf_out fifo);
          off = kf_in fifo AND (kf_size fifo - 1);
          l = min len (kf_size fifo - off)
      in do {
        src1 \<leftarrow> mem_read 0 (unat l) buffer;
        b1 \<leftarrow> mem_write (unat off) src1 (kf_buffer fifo);
        src2 \<leftarrow> mem_read (unat l) (unat (len - l)) buffer;
        b2 \<leftarrow> mem_write 0 src2 b1;
        Some (fifo\<lparr>kf_buffer := b2, kf_in := kf_in fifo + len\<rparr>, len)
      })"

definition raw_kfifo_get :: "kfifo \<Rightarrow> u8 list \<Rightarrow> u32 \<Rightarrow> (kfifo \<times> u8 list \<times> u32) option" where
  "raw_kfifo_get fifo buffer len0 =
     (let len = min len0 (kf_in fifo - kf_out fifo);
          off = kf_out fifo AND (kf_size fifo - 1);
          l = min len (kf_size fifo - off)
      in do {
        src1 \<leftarrow> mem_read (unat off) (unat l) (kf_buffer fifo);
        d1 \<leftarrow> mem_write 0 src1 buffer;
        src2 \<leftarrow> mem_read 0 (unat (len - l)) (kf_buffer fifo);
        d2 \<leftarrow> mem_write (unat l) src2 d1;
        Some (fifo\<lparr>kf_out := kf_out fifo + len\<rparr>, d2, len)
      })"

definition raw_kfifo_reset :: "kfifo \<Rightarrow> kfifo" where
  "raw_kfifo_reset fifo = fifo\<lparr>kf_in := 0, kf_out := 0\<rparr>"

definition raw_kfifo_len :: "kfifo \<Rightarrow> u32" where
  "raw_kfifo_len fifo = kf_in fifo - kf_out fifo"

text \<open>
  The locked versions run under \<open>fifo->lock\<close>, so each is one atomic operation.
  \<open>kfifo_get\<close> also rewinds the indices of an empty buffer.
\<close>

definition kfifo_put :: "kfifo \<Rightarrow> u8 list \<Rightarrow> u32 \<Rightarrow> (kfifo \<times> u32) option" where
  "kfifo_put fifo buffer len = raw_kfifo_put fifo buffer len"

definition kfifo_get :: "kfifo \<Rightarrow> u8 list \<Rightarrow> u32 \<Rightarrow> (kfifo \<times> u8 list \<times> u32) option" where
  "kfifo_get fifo buffer len =
     (case raw_kfifo_get fifo buffer len of
        None \<Rightarrow> None
      | Some (f, d, ret) \<Rightarrow>
          Some (if kf_in f = kf_out f then f\<lparr>kf_in := 0, kf_out := 0\<rparr> else f, d, ret))"

section \<open>Invariant and contents\<close>

definition kfifo_inv :: "kfifo \<Rightarrow> bool" where
  "kfifo_inv f \<longleftrightarrow>
     is_power_of_2 (ucast (kf_size f)) \<and> length (kf_buffer f) = unat (kf_size f) \<and>
     kf_in f - kf_out f \<le> kf_size f"

definition ring_slice :: "'a list \<Rightarrow> nat \<Rightarrow> nat \<Rightarrow> 'a list" where
  "ring_slice b off n = map (\<lambda>i. b ! ((off + i) mod length b)) [0..<n]"

definition kfifo_content :: "kfifo \<Rightarrow> u8 list" where
  "kfifo_content f =
     ring_slice (kf_buffer f) (unat (kf_out f)) (unat (kf_in f - kf_out f))"

subsection \<open>The two-part copies on a ring\<close>

lemma length_ring_slice [simp]: "length (ring_slice b off n) = n"
  by (simp add: ring_slice_def)

lemma ring_slice_mod: "ring_slice b (off mod length b) n = ring_slice b off n"
  by (simp add: ring_slice_def mod_add_left_eq)

lemma ring_slice_add:
  "ring_slice b off (m + n) = ring_slice b off m @ ring_slice b (off + m) n"
  by (rule nth_equalityI) (auto simp: ring_slice_def nth_append add.assoc)

lemma take_ring_slice: "n \<le> m \<Longrightarrow> take n (ring_slice b off m) = ring_slice b off n"
  by (simp add: ring_slice_def take_map)

lemma drop_ring_slice: "n \<le> m \<Longrightarrow> drop n (ring_slice b off m) = ring_slice b (off + n) (m - n)"
  by (rule nth_equalityI) (auto simp: ring_slice_def add.assoc)

lemma ring_slice_linear:
  assumes "off + n \<le> length b"
  shows "ring_slice b off n = take n (drop off b)"
  using assms by (intro nth_equalityI) (auto simp: ring_slice_def)

lemma ring_slice_wrap:
  assumes "off < length b" and "n \<le> length b" and "l = min n (length b - off)"
  shows "ring_slice b off n = take l (drop off b) @ take (n - l) b"
proof -
  have "ring_slice b off n = ring_slice b off l @ ring_slice b (off + l) (n - l)"
    using assms ring_slice_add [of b off l "n - l"] by simp
  moreover have "ring_slice b off l = take l (drop off b)"
    using assms by (intro ring_slice_linear) auto
  moreover have "ring_slice b (off + l) (n - l) = take (n - l) b"
  proof (cases "n \<le> length b - off")
    case True
    with assms show ?thesis by (simp add: ring_slice_def)
  next
    case False
    then have "(off + l) mod length b = 0"
      using assms by simp
    then have "ring_slice b (off + l) (n - l) = ring_slice b 0 (n - l)"
      using ring_slice_mod [of b "off + l" "n - l"] by simp
    with assms show ?thesis by (simp add: ring_slice_linear)
  qed
  ultimately show ?thesis by simp
qed

definition ring_write :: "nat \<Rightarrow> 'a list \<Rightarrow> 'a list \<Rightarrow> 'a list" where
  "ring_write off bs b =
     (let l = min (length bs) (length b - off);
          b1 = take off b @ take l bs @ drop (off + l) b
      in drop l bs @ drop (length bs - l) b1)"

lemma length_ring_write [simp]:
  "off < length b \<Longrightarrow> length bs \<le> length b \<Longrightarrow> length (ring_write off bs b) = length b"
  by (auto simp: ring_write_def Let_def min_def)

lemma ring_write_fit:
  "off + length bs \<le> length b \<Longrightarrow>
   ring_write off bs b = take off b @ bs @ drop (off + length bs) b"
  by (simp add: ring_write_def Let_def)

lemma ring_write_wrap:
  assumes "off < length b" and "length bs \<le> length b" and "length b < off + length bs"
  shows "ring_write off bs b =
    drop (length b - off) bs @ drop (off + length bs - length b) (take off b) @
    take (length b - off) bs"
  using assms by (simp add: ring_write_def Let_def add.commute)

lemma nth_ring_write_high:
  assumes "length bs \<le> length b" and "off + i < length b"
  shows "ring_write off bs b ! (off + i) = (if i < length bs then bs ! i else b ! (off + i))"
proof (cases "off + length bs \<le> length b")
  case True
  with assms show ?thesis by (simp add: ring_write_fit nth_append)
next
  case False
  with assms show ?thesis by (auto simp: ring_write_wrap nth_append)
qed

lemma nth_ring_write_low:
  assumes "off < length b" and "length bs \<le> length b" and "i < off"
  shows "ring_write off bs b ! i =
    (if i + length b - off < length bs then bs ! (i + length b - off) else b ! i)"
proof (cases "off + length bs \<le> length b")
  case True
  with assms show ?thesis by (auto simp: ring_write_fit nth_append)
next
  case False
  then have "i < off + length bs - length b \<longleftrightarrow> i + length b - off < length bs"
    using assms by arith
  with False assms show ?thesis by (auto simp: ring_write_wrap nth_append add.commute)
qed

lemma nth_ring_write:
  assumes "off < length b" and "length bs \<le> length b" and "i < length b"
  shows "ring_write off bs b ! ((off + i) mod length b) =
    (if i < length bs then bs ! i else b ! ((off + i) mod length b))"
proof (cases "off + i < length b")
  case True
  with assms show ?thesis by (simp add: nth_ring_write_high)
next
  case False
  then have "(off + i) mod length b = off + i - length b"
    using assms by (simp add: le_mod_geq)
  with False assms show ?thesis
    using nth_ring_write_low [of off b bs "off + i - length b"] by simp
qed

lemma ring_slice_write_new:
  assumes "off < length b" and "length bs \<le> length b"
  shows "ring_slice (ring_write off bs b) off (length bs) = bs"
  using assms by (intro nth_equalityI) (auto simp: ring_slice_def nth_ring_write)

lemma ring_slice_write_old:
  assumes "c + length bs \<le> length b" and "b \<noteq> []"
  shows "ring_slice (ring_write ((off + c) mod length b) bs b) off c = ring_slice b off c"
proof (rule nth_equalityI)
  fix i assume "i < length (ring_slice (ring_write ((off + c) mod length b) bs b) off c)"
  then have i: "i < c" by simp
  let ?w = "(off + c) mod length b" and ?d = "length b - c + i"
  have "(?w + ?d) mod length b = (off + c + ?d) mod length b"
    by (simp add: mod_add_left_eq)
  also have "off + c + ?d = off + i + length b"
    using assms i by simp
  finally have idx: "(off + i) mod length b = (?w + ?d) mod length b" by simp
  have "?d < length b" "\<not> ?d < length bs"
    using assms i by auto
  then have "ring_write ?w bs b ! ((?w + ?d) mod length b) = b ! ((?w + ?d) mod length b)"
    using assms by (subst nth_ring_write) auto
  then show "ring_slice (ring_write ?w bs b) off c ! i = ring_slice b off c ! i"
    using i assms by (simp add: ring_slice_def idx)
qed simp


subsection \<open>Reading the counters\<close>

lemma is_power_of_2_pow:
  assumes "k < 64"
  shows "is_power_of_2 (2 ^ k)"
proof -
  have "(2 ^ k :: u64) \<noteq> 0" using assms by simp
  moreover have "(2 ^ k :: u64) AND mask k = 0"
    by (rule bit_eqI) (simp add: bit_simps)
  ultimately show ?thesis
    by (simp add: is_power_of_2_def mask_eq_exp_minus_1)
qed

lemma and_div_2: "(a AND b) div 2 = (a div 2) AND (b div (2::nat))"
  using drop_bit_and [of 1 a b] by (simp add: drop_bit_eq_div)

text \<open>Clearing the lowest set bit: only a power of two has no other.\<close>

lemma and_dec_nat:
  fixes n :: nat
  assumes "0 < n" and "n AND (n - 1) = 0"
  shows "\<exists>k. n = 2 ^ k"
  using assms
proof (induction n rule: less_induct)
  case (less n)
  show ?case
  proof (cases "even n")
    case True
    then obtain m where m: "n = 2 * m" by (elim evenE)
    with less.prems have "0 < m" by simp
    have "(2 * m - 1) div 2 = m - 1" using \<open>0 < m\<close> by arith
    then have "(n AND (n - 1)) div 2 = m AND (m - 1)"
      using m by (simp add: and_div_2)
    then have "m AND (m - 1) = 0" using less.prems by simp
    then obtain k where "m = 2 ^ k" using less.IH [of m] m \<open>0 < m\<close> by auto
    then have "n = 2 ^ Suc k" by (simp add: m)
    then show ?thesis ..
  next
    case False
    then obtain m where m: "n = 2 * m + 1" by (elim oddE)
    have "(n AND (n - 1)) div 2 = m AND m"
      using m by (simp add: and_div_2)
    then have "m = 0" using less.prems by simp
    with m have "n = 2 ^ 0" by simp
    then show ?thesis ..
  qed
qed

lemma is_power_of_2_unat:
  assumes "is_power_of_2 n"
  obtains k where "k < 64" and "unat n = 2 ^ k"
proof -
  have "n \<noteq> 0" and and0: "n AND (n - 1) = 0"
    using assms by (auto simp: is_power_of_2_def)
  have "unat n AND (unat n - 1) = unat (n AND (n - 1))"
    using \<open>n \<noteq> 0\<close> by (simp add: unsigned_and_eq unat_minus_one)
  moreover have "0 < unat n" using \<open>n \<noteq> 0\<close> by (simp add: unat_gt_0)
  ultimately obtain k where k: "unat n = 2 ^ k" using and_dec_nat [of "unat n"] and0 by auto
  moreover have "k < 64"
  proof (rule ccontr)
    assume "\<not> k < 64"
    then have "(2::nat) ^ 64 \<le> 2 ^ k" by (intro power_increasing) auto
    with k unsigned_less [of n, where 'a = nat] show False by simp
  qed
  ultimately show ?thesis using that by blast
qed

lemma kfifo_invE:
  assumes "kfifo_inv f"
  obtains k where "k < 32" and "unat (kf_size f) = 2 ^ k" and "kf_size f - 1 = mask k"
    and "length (kf_buffer f) = 2 ^ k" and "unat (kf_in f - kf_out f) \<le> 2 ^ k"
proof -
  have "is_power_of_2 (ucast (kf_size f))" using assms by (simp add: kfifo_inv_def)
  then obtain k where k64: "k < 64" and "unat (ucast (kf_size f) :: u64) = 2 ^ k"
    by (rule is_power_of_2_unat)
  then have k: "unat (kf_size f) = 2 ^ k" by (simp add: unat_ucast_up)
  have "k < 32"
  proof (rule ccontr)
    assume "\<not> k < 32"
    then have "(2::nat) ^ 32 \<le> 2 ^ k" by (intro power_increasing) auto
    with k unsigned_less [of "kf_size f", where 'a = nat] show False by simp
  qed
  moreover have "kf_size f = 2 ^ k"
  proof -
    have "(of_nat (unat (kf_size f)) :: u32) = 2 ^ k" by (simp only: k of_nat_power of_nat_numeral)
    then show ?thesis by simp
  qed
  ultimately show ?thesis
    using that [of k] assms k
    by (auto simp: kfifo_inv_def mask_eq_exp_minus_1 word_le_nat_alt)
qed

lemma unat_index:
  assumes "kfifo_inv f"
  shows "unat (x AND (kf_size f - 1)) = unat x mod length (kf_buffer f)"
  using assms by (elim kfifo_invE) (simp add: unat_and_mask)

lemma unat_free:
  assumes "kfifo_inv f"
  shows "unat (kf_size f - kf_in f + kf_out f) =
    length (kf_buffer f) - length (kfifo_content f)"
proof -
  have "kf_size f - kf_in f + kf_out f = kf_size f - (kf_in f - kf_out f)" by simp
  then have "unat (kf_size f - kf_in f + kf_out f) = unat (kf_size f - (kf_in f - kf_out f))"
    by (rule arg_cong)
  with assms show ?thesis
    by (simp add: kfifo_inv_def kfifo_content_def unat_sub)
qed

lemma unat_to_end:
  assumes "kfifo_inv f"
  shows "unat (kf_size f - (x AND (kf_size f - 1))) =
    length (kf_buffer f) - unat x mod length (kf_buffer f)"
proof -
  have "unat x mod length (kf_buffer f) \<le> unat (kf_size f)"
    using assms by (elim kfifo_invE) (simp add: order.strict_implies_order)
  with assms show ?thesis
    using unat_diff_le [of "x AND (kf_size f - 1)" "kf_size f"]
    by (simp add: unat_index) (simp add: kfifo_inv_def)
qed

text \<open>The two \<open>memcpy\<close> calls of a put, and of a get, as one ring access.\<close>


lemma two_part_write:
  assumes "off < length b" and "n \<le> length b" and "n \<le> length src"
    and "l = min n (length b - off)"
  shows "do {
      src1 \<leftarrow> mem_read 0 l src; b1 \<leftarrow> mem_write off src1 b;
      src2 \<leftarrow> mem_read l (n - l) src; b2 \<leftarrow> mem_write 0 src2 b1; F b2
    } = F (ring_write off (take n src) b)"
proof -
  let ?b1 = "take off b @ take l src @ drop (off + l) b"
  have len: "l \<le> length src" "off + l \<le> length b" "l + (n - l) \<le> length src" "n - l \<le> length b"
    using assms by auto
  have "mem_read 0 l src = Some (take l src)"
    using len by (simp add: mem_read_def)
  moreover have "mem_write off (take l src) b = Some ?b1"
    using len by (simp add: mem_write_def)
  moreover have "mem_read l (n - l) src = Some (take (n - l) (drop l src))"
    using len by (simp add: mem_read_def)
  moreover have "mem_write 0 (take (n - l) (drop l src)) ?b1 =
      Some (take (n - l) (drop l src) @ drop (n - l) ?b1)"
    using len by (simp add: mem_write_def)
  moreover have "ring_write off (take n src) b = take (n - l) (drop l src) @ drop (n - l) ?b1"
    using assms unfolding ring_write_def Let_def
    by (simp only: length_take min_absorb2 take_take) (simp add: drop_take min_def)
  ultimately show ?thesis by (simp only: bind.bind_lunit)
qed

lemma two_part_read:
  assumes "off < length b" and "n \<le> length b" and "n \<le> length dst"
    and "l = min n (length b - off)"
  shows "do {
      src1 \<leftarrow> mem_read off l b; d1 \<leftarrow> mem_write 0 src1 dst;
      src2 \<leftarrow> mem_read 0 (n - l) b; d2 \<leftarrow> mem_write l src2 d1; F d2
    } = F (ring_slice b off n @ drop n dst)"
proof -
  have len: "off + l \<le> length b" "l \<le> length dst" "n - l \<le> length b" "l \<le> n"
    using assms by auto
  have "mem_read off l b = Some (take l (drop off b))"
    using len by (simp add: mem_read_def)
  moreover have "mem_write 0 (take l (drop off b)) dst = Some (take l (drop off b) @ drop l dst)"
    using len by (simp add: mem_write_def)
  moreover have "mem_read 0 (n - l) b = Some (take (n - l) b)"
    using len by (simp add: mem_read_def)
  moreover have "mem_write l (take (n - l) b) (take l (drop off b) @ drop l dst) =
      Some (take l (drop off b) @ take (n - l) b @ drop n dst)"
    using len assms(3) by (simp add: mem_write_def)
  ultimately show ?thesis
    using ring_slice_wrap [OF assms(1,2,4)] by simp
qed

lemma raw_kfifo_put_eq:
  assumes inv: "kfifo_inv f" and src: "unat len \<le> length src"
    and n: "n = min (unat len) (length (kf_buffer f) - length (kfifo_content f))"
  shows "raw_kfifo_put f src len =
    Some (f\<lparr>kf_buffer := ring_write (unat (kf_in f) mod length (kf_buffer f)) (take n src) (kf_buffer f),
            kf_in := kf_in f + of_nat n\<rparr>, of_nat n)"
proof -
  let ?b = "kf_buffer f"
  let ?off = "unat (kf_in f) mod length ?b"
  let ?len = "min len (kf_size f - kf_in f + kf_out f)"
  let ?o = "kf_in f AND (kf_size f - 1)"
  let ?l = "min ?len (kf_size f - ?o)"
  have len: "unat ?len = n"
    by (simp only: unat_min unat_free [OF inv] n)
  then have len_n: "of_nat n = ?len" by (metis of_nat_unat ucast_id)
  have o: "unat ?o = ?off" by (rule unat_index [OF inv])
  have l: "unat ?l = min n (length ?b - ?off)"
    by (subst unat_min) (simp only: len unat_to_end [OF inv])
  have rest: "unat (?len - ?l) = n - unat ?l"
    using len l by (subst unat_diff_le) simp_all
  have off: "?off < length ?b" using inv by (elim kfifo_invE) simp
  have nb: "n \<le> length ?b" and ns: "n \<le> length src" using n src by simp_all
  show ?thesis
    unfolding raw_kfifo_put_def Let_def len_n o rest len
    by (rule two_part_write [OF off nb ns l])
qed

lemma raw_kfifo_get_eq:
  assumes inv: "kfifo_inv f" and dst: "unat len \<le> length dst"
    and n: "n = min (unat len) (length (kfifo_content f))"
  shows "raw_kfifo_get f dst len =
    Some (f\<lparr>kf_out := kf_out f + of_nat n\<rparr>, take n (kfifo_content f) @ drop n dst, of_nat n)"
proof -
  let ?b = "kf_buffer f"
  let ?off = "unat (kf_out f) mod length ?b"
  let ?len = "min len (kf_in f - kf_out f)"
  let ?o = "kf_out f AND (kf_size f - 1)"
  let ?l = "min ?len (kf_size f - ?o)"
  have len: "unat ?len = n"
    by (simp add: unat_min kfifo_content_def n)
  then have len_n: "of_nat n = ?len" by (metis of_nat_unat ucast_id)
  have o: "unat ?o = ?off" by (rule unat_index [OF inv])
  have l: "unat ?l = min n (length ?b - ?off)"
    by (subst unat_min) (simp only: len unat_to_end [OF inv])
  have rest: "unat (?len - ?l) = n - unat ?l"
    using len l by (subst unat_diff_le) simp_all
  have off: "?off < length ?b" using inv by (elim kfifo_invE) simp
  have nb: "n \<le> length ?b"
    using inv n by (elim kfifo_invE) (simp add: kfifo_content_def)
  have slice: "take n (kfifo_content f) = ring_slice ?b ?off n"
    using n by (simp add: kfifo_content_def take_ring_slice ring_slice_mod)
  have nd: "n \<le> length dst" using n dst by simp
  show ?thesis
    unfolding raw_kfifo_get_def Let_def len_n o rest len slice
    by (rule two_part_read [OF off nb nd l])
qed


section \<open>What the queue promises\<close>

text \<open>
  The contract of a bounded byte queue: \<open>put\<close> appends what fits, \<open>get\<close> removes from the
  front into the caller's buffer, neither touches memory out of range, and the capacity
  never changes. \<open>run\<close> drives a queue through a sequence of requests and collects what the
  puts accepted and what the gets delivered.
\<close>

datatype fifo_op = Put "u8 list" | Get u32

locale byte_fifo =
  fixes put :: "'f \<Rightarrow> u8 list \<Rightarrow> u32 \<Rightarrow> ('f \<times> u32) option"
    and get :: "'f \<Rightarrow> u8 list \<Rightarrow> u32 \<Rightarrow> ('f \<times> u8 list \<times> u32) option"
    and content :: "'f \<Rightarrow> u8 list"
    and capacity :: "'f \<Rightarrow> nat"
    and invar :: "'f \<Rightarrow> bool"
  assumes bounded: "invar f \<Longrightarrow> length (content f) \<le> capacity f"
    and put_spec: "invar f \<Longrightarrow> unat len \<le> length src \<Longrightarrow>
      n = min (unat len) (capacity f - length (content f)) \<Longrightarrow>
      \<exists>f'. put f src len = Some (f', of_nat n) \<and> invar f' \<and> capacity f' = capacity f \<and>
           content f' = content f @ take n src"
    and get_spec: "invar f \<Longrightarrow> unat len \<le> length dst \<Longrightarrow>
      n = min (unat len) (length (content f)) \<Longrightarrow>
      \<exists>f'. get f dst len = Some (f', take n (content f) @ drop n dst, of_nat n) \<and> invar f' \<and>
           capacity f' = capacity f \<and> content f' = drop n (content f)"
begin

fun run :: "'f \<Rightarrow> fifo_op list \<Rightarrow> ('f \<times> u8 list \<times> u8 list) option" where
  "run f [] = Some (f, [], [])"
| "run f (Put src # ops) =
     do {
       (f', n) \<leftarrow> put f src (of_nat (length src));
       (f'', sent, got) \<leftarrow> run f' ops;
       Some (f'', take (unat n) src @ sent, got)
     }"
| "run f (Get len # ops) =
     do {
       (f', dst, n) \<leftarrow> get f (replicate (unat len) 0) len;
       (f'', sent, got) \<leftarrow> run f' ops;
       Some (f'', sent, take (unat n) dst @ got)
     }"

text \<open>Nothing is lost, duplicated or reordered, whatever the sequence of requests.\<close>

lemma run_fifo:
  assumes "invar f" and "\<forall>src. Put src \<in> set ops \<longrightarrow> length src < 2 ^ 32"
  shows "\<exists>f' sent got. run f ops = Some (f', sent, got) \<and> invar f' \<and>
    capacity f' = capacity f \<and> content f @ sent = got @ content f'"
  using assms
proof (induction ops arbitrary: f)
  case Nil
  then show ?case by simp
next
  case (Cons x ops)
  show ?case
  proof (cases x)
    case (Put src)
    define n where "n = min (length src) (capacity f - length (content f))"
    have src: "length src < 2 ^ 32" using Cons.prems Put by simp
    then have un: "unat (of_nat (length src) :: u32) = length src"
      by (simp add: unat_of_nat)
    obtain f' where f': "put f src (of_nat (length src)) = Some (f', of_nat n)" "invar f'"
        "capacity f' = capacity f" "content f' = content f @ take n src"
      using put_spec [of f "of_nat (length src)" src n] Cons.prems(1) n_def un by auto
    have "unat (of_nat n :: u32) = n" using src by (simp add: unat_of_nat n_def)
    moreover obtain g sent got where "run f' ops = Some (g, sent, got)" "invar g"
        "capacity g = capacity f'" "content f' @ sent = got @ content g"
      using Cons.IH [OF f'(2)] Cons.prems by auto
    ultimately show ?thesis using f' Put by auto
  next
    case (Get len)
    define n where "n = min (unat len) (length (content f))"
    obtain f' where f': "get f (replicate (unat len) 0) len =
          Some (f', take n (content f) @ drop n (replicate (unat len) 0), of_nat n)" "invar f'"
        "capacity f' = capacity f" "content f' = drop n (content f)"
      using get_spec [of f len "replicate (unat len) 0" n] Cons.prems(1) n_def by auto
    have "n \<le> unat len" "n \<le> length (content f)" by (auto simp: n_def)
    then have "unat (of_nat n :: u32) = n"
      using unsigned_less [of len, where 'a = nat] by (simp add: unat_of_nat)
    moreover obtain g sent got where "run f' ops = Some (g, sent, got)" "invar g"
        "capacity g = capacity f'" "content f' @ sent = got @ content g"
      using Cons.IH [OF f'(2)] Cons.prems by auto
    ultimately show ?thesis
      using f' Get \<open>n \<le> length (content f)\<close>
      by (auto simp flip: append_assoc)
         (metis append.assoc append_take_drop_id)
  qed
qed

end

definition kfifo_capacity :: "kfifo \<Rightarrow> nat" where
  "kfifo_capacity f = length (kf_buffer f)"

lemma kfifo_size_lt:
  assumes "kfifo_inv f"
  shows "length (kf_buffer f) \<le> 2 ^ 31" and "0 < length (kf_buffer f)"
proof -
  obtain k where "k < 32" and k: "length (kf_buffer f) = 2 ^ k"
    using assms by (rule kfifo_invE)
  then have "(2::nat) ^ k \<le> 2 ^ 31" by (intro power_increasing) auto
  with k show "length (kf_buffer f) \<le> 2 ^ 31" by simp
  show "0 < length (kf_buffer f)" by (simp add: k)
qed

lemma kfifo_content_le:
  "kfifo_inv f \<Longrightarrow> length (kfifo_content f) \<le> kfifo_capacity f"
  by (elim kfifo_invE) (simp add: kfifo_content_def kfifo_capacity_def)

text \<open>Both indices stand for the same ring position modulo the size.\<close>

lemma kf_in_mod:
  assumes "kfifo_inv f"
  shows "unat (kf_in f) mod length (kf_buffer f) =
    (unat (kf_out f) + length (kfifo_content f)) mod length (kf_buffer f)"
proof -
  obtain k where k: "k < 32" "length (kf_buffer f) = 2 ^ k"
    using assms by (rule kfifo_invE)
  have "kf_in f = kf_out f + (kf_in f - kf_out f)" by simp
  then have "unat (kf_in f) mod 2 ^ k = unat (kf_out f + (kf_in f - kf_out f)) mod 2 ^ k"
    by (rule arg_cong)
  also have "\<dots> = (unat (kf_out f) + unat (kf_in f - kf_out f)) mod 2 ^ k"
    using k(1) by (intro unat_add_mod_pow2) simp
  finally show ?thesis by (simp add: k kfifo_content_def)
qed

lemma unat_distance_add:
  fixes i out :: u32
  assumes "unat (i - out) + n < 2 ^ 32"
  shows "unat (i + of_nat n - out) = unat (i - out) + n"
proof -
  have "i + of_nat n - out = (i - out) + of_nat n" by simp
  then have "unat (i + of_nat n - out) = unat ((i - out) + of_nat n)" by (rule arg_cong)
  also have "\<dots> = unat (i - out) + n"
    using assms by (subst unat_add_lem [THEN iffD1]) (auto simp: unat_of_nat)
  finally show ?thesis .
qed

lemma kfifo_put_state:
  assumes inv: "kfifo_inv f" and n: "length bs + length (kfifo_content f) \<le> kfifo_capacity f"
  defines "f' \<equiv> f\<lparr>kf_buffer := ring_write (unat (kf_in f) mod length (kf_buffer f)) bs (kf_buffer f),
                  kf_in := kf_in f + of_nat (length bs)\<rparr>"
  shows "kfifo_inv f'" and "kfifo_capacity f' = kfifo_capacity f"
    and "kfifo_content f' = kfifo_content f @ bs"
proof -
  let ?b = "kf_buffer f" and ?off = "unat (kf_in f) mod length (kf_buffer f)"
  let ?c = "length (kfifo_content f)"
  have off: "?off < length ?b" using kfifo_size_lt [OF inv] by simp
  have bs: "length bs \<le> length ?b" using n by (simp add: kfifo_capacity_def)
  show cap: "kfifo_capacity f' = kfifo_capacity f"
    using off bs by (simp add: f'_def kfifo_capacity_def)
  have c: "unat (kf_in f - kf_out f) = ?c" by (simp add: kfifo_content_def)
  have dist: "unat (kf_in f' - kf_out f') = ?c + length bs"
    using n kfifo_size_lt [OF inv] c
    by (simp add: f'_def kfifo_capacity_def unat_distance_add)
  show "kfifo_inv f'"
    using inv n dist off bs
    by (simp add: kfifo_inv_def f'_def kfifo_capacity_def word_le_nat_alt)
  have "kfifo_content f' = ring_slice (ring_write ?off bs ?b) (unat (kf_out f)) (?c + length bs)"
    using dist by (simp add: kfifo_content_def f'_def)
  also have "\<dots> = ring_slice (ring_write ?off bs ?b) (unat (kf_out f)) ?c @
      ring_slice (ring_write ?off bs ?b) (unat (kf_out f) + ?c) (length bs)"
    by (rule ring_slice_add)
  also have "ring_slice (ring_write ?off bs ?b) (unat (kf_out f)) ?c = kfifo_content f"
    using n kfifo_size_lt [OF inv] unfolding kf_in_mod [OF inv]
    by (subst ring_slice_write_old) (auto simp: kfifo_capacity_def kfifo_content_def)
  also have "ring_slice (ring_write ?off bs ?b) (unat (kf_out f) + ?c) (length bs) = bs"
    using ring_slice_mod [of "ring_write ?off bs ?b" "unat (kf_out f) + ?c"]
      ring_slice_write_new [OF off bs] off bs kf_in_mod [OF inv]
    by simp
  finally show "kfifo_content f' = kfifo_content f @ bs" .
qed

lemma kfifo_get_state:
  assumes inv: "kfifo_inv f" and n: "n \<le> length (kfifo_content f)"
  defines "f' \<equiv> f\<lparr>kf_out := kf_out f + of_nat n\<rparr>"
  shows "kfifo_inv f'" and "kfifo_capacity f' = kfifo_capacity f"
    and "kfifo_content f' = drop n (kfifo_content f)"
proof -
  let ?b = "kf_buffer f" and ?c = "length (kfifo_content f)"
  have c: "unat (kf_in f - kf_out f) = ?c" by (simp add: kfifo_content_def)
  have n32: "n < 2 ^ 32" using n c unsigned_less [of "kf_in f - kf_out f", where 'a = nat] by simp
  have "kf_in f - (kf_out f + of_nat n) = (kf_in f - kf_out f) - of_nat n" by simp
  then have "unat (kf_in f - (kf_out f + of_nat n)) = unat ((kf_in f - kf_out f) - of_nat n)"
    by (rule arg_cong)
  also have "\<dots> = ?c - n"
    using n n32 c by (subst unat_diff_le) (auto simp: unat_of_nat)
  finally have dist: "unat (kf_in f' - kf_out f') = ?c - n" by (simp add: f'_def)
  show "kfifo_capacity f' = kfifo_capacity f" by (simp add: f'_def kfifo_capacity_def)
  show "kfifo_inv f'"
    using inv dist c by (auto simp: kfifo_inv_def f'_def word_le_nat_alt)
  obtain k where k: "k < 32" "length ?b = 2 ^ k" using inv by (rule kfifo_invE)
  have pos: "unat (kf_out f + of_nat n) mod length ?b = (unat (kf_out f) + n) mod length ?b"
    using k n32 by (simp add: unat_add_mod_pow2 unat_of_nat)
  have "kfifo_content f' = ring_slice ?b (unat (kf_out f + of_nat n)) (?c - n)"
    using dist by (simp add: kfifo_content_def f'_def)
  also have "\<dots> = ring_slice ?b (unat (kf_out f) + n) (?c - n)"
    using ring_slice_mod [of ?b "unat (kf_out f + of_nat n)"]
      ring_slice_mod [of ?b "unat (kf_out f) + n"] pos by simp
  also have "\<dots> = drop n (kfifo_content f)"
    using n by (simp add: kfifo_content_def drop_ring_slice)
  finally show "kfifo_content f' = drop n (kfifo_content f)" .
qed

interpretation raw_q: byte_fifo raw_kfifo_put raw_kfifo_get kfifo_content kfifo_capacity kfifo_inv
proof
  fix f assume inv: "kfifo_inv f"
  show "length (kfifo_content f) \<le> kfifo_capacity f" using inv by (rule kfifo_content_le)
  fix len :: u32 and src :: "u8 list" and n
  assume src: "unat len \<le> length src"
    and n: "n = min (unat len) (kfifo_capacity f - length (kfifo_content f))"
  have len: "length (take n src) = n" using n src by simp
  have "length (take n src) + length (kfifo_content f) \<le> kfifo_capacity f"
    using n kfifo_content_le [OF inv] len by simp
  from kfifo_put_state [OF inv this]
  show "\<exists>f'. raw_kfifo_put f src len = Some (f', of_nat n) \<and> kfifo_inv f' \<and>
      kfifo_capacity f' = kfifo_capacity f \<and> kfifo_content f' = kfifo_content f @ take n src"
    using raw_kfifo_put_eq [OF inv src] n len by (auto simp: kfifo_capacity_def)
next
  fix f n and len :: u32 and dst :: "u8 list"
  assume inv: "kfifo_inv f" and dst: "unat len \<le> length dst"
    and n: "n = min (unat len) (length (kfifo_content f))"
  have "n \<le> length (kfifo_content f)" using n by simp
  from kfifo_get_state [OF inv this]
  show "\<exists>f'. raw_kfifo_get f dst len =
      Some (f', take n (kfifo_content f) @ drop n dst, of_nat n) \<and> kfifo_inv f' \<and>
      kfifo_capacity f' = kfifo_capacity f \<and> kfifo_content f' = drop n (kfifo_content f)"
    using raw_kfifo_get_eq [OF inv dst n] by auto
qed

text \<open>Rewinding an empty buffer changes neither its contents nor its invariant.\<close>

lemma kfifo_rewind:
  assumes "kfifo_inv f" and "kf_in f = kf_out f"
  shows "kfifo_inv (raw_kfifo_reset f)" and "kfifo_content (raw_kfifo_reset f) = kfifo_content f"
    and "kfifo_capacity (raw_kfifo_reset f) = kfifo_capacity f"
  using assms
  by (auto simp: kfifo_inv_def kfifo_content_def ring_slice_def kfifo_capacity_def raw_kfifo_reset_def)

interpretation locked_q: byte_fifo kfifo_put kfifo_get kfifo_content kfifo_capacity kfifo_inv
proof
  fix f assume inv: "kfifo_inv f"
  show "length (kfifo_content f) \<le> kfifo_capacity f" using inv by (rule kfifo_content_le)
  fix len :: u32 and src :: "u8 list" and n
  assume "unat len \<le> length src"
    and "n = min (unat len) (kfifo_capacity f - length (kfifo_content f))"
  with inv show "\<exists>f'. kfifo_put f src len = Some (f', of_nat n) \<and> kfifo_inv f' \<and>
      kfifo_capacity f' = kfifo_capacity f \<and> kfifo_content f' = kfifo_content f @ take n src"
    unfolding kfifo_put_def by (rule raw_q.put_spec)
next
  fix f n and len :: u32 and dst :: "u8 list"
  assume inv: "kfifo_inv f" and dst: "unat len \<le> length dst"
    and n: "n = min (unat len) (length (kfifo_content f))"
  obtain f' where f': "raw_kfifo_get f dst len =
      Some (f', take n (kfifo_content f) @ drop n dst, of_nat n)" "kfifo_inv f'"
      "kfifo_capacity f' = kfifo_capacity f" "kfifo_content f' = drop n (kfifo_content f)"
    using raw_q.get_spec [OF inv dst n] by blast
  show "\<exists>f'. kfifo_get f dst len =
      Some (f', take n (kfifo_content f) @ drop n dst, of_nat n) \<and> kfifo_inv f' \<and>
      kfifo_capacity f' = kfifo_capacity f \<and> kfifo_content f' = drop n (kfifo_content f)"
  proof (cases "kf_in f' = kf_out f'")
    case True
    with f' kfifo_rewind [OF f'(2) True] show ?thesis
      by (simp add: kfifo_get_def raw_kfifo_reset_def)
  next
    case False
    with f' show ?thesis by (simp add: kfifo_get_def)
  qed
qed

section \<open>Properties\<close>

text \<open>C2. \<open>__kfifo_put\<close> and \<open>__kfifo_get\<close> implement a bounded byte queue whatever the
  values of the wrapping indices: a put of \<open>len\<close> bytes appends the first
  \<open>min(len, free space)\<close> of them, returns that number and never writes outside the buffer; a
  get fills the caller's buffer with the first \<open>min(len, used)\<close> bytes, leaves the rest of
  it alone and removes exactly those; the invariant and the capacity are kept.\<close>

theorem raw_kfifo_refines_queue:
  assumes "kfifo_inv f" and "unat len \<le> length buf"
  defines "n \<equiv> min (unat len) (kfifo_capacity f - length (kfifo_content f))"
    and "m \<equiv> min (unat len) (length (kfifo_content f))"
  shows "(\<exists>f'. raw_kfifo_put f buf len = Some (f', of_nat n) \<and> kfifo_inv f' \<and>
        kfifo_capacity f' = kfifo_capacity f \<and> kfifo_content f' = kfifo_content f @ take n buf) \<and>
    (\<exists>f'. raw_kfifo_get f buf len =
          Some (f', take m (kfifo_content f) @ drop m buf, of_nat m) \<and> kfifo_inv f' \<and>
        kfifo_capacity f' = kfifo_capacity f \<and> kfifo_content f' = drop m (kfifo_content f))"
  using raw_q.put_spec [OF assms(1,2)] raw_q.get_spec [OF assms(1,2)] n_def m_def by blast

definition fifo8 :: kfifo where
  "fifo8 = \<lparr>kf_buffer = [3, 4, 0, 0, 0, 0, 1, 2], kf_size = 8, kf_in = 2, kf_out = 0xFFFFFFFE\<rparr>"

lemma fifo8_inv: "kfifo_inv fifo8"
  by (simp add: kfifo_inv_def is_power_of_2_def fifo8_def)

lemma fifo8_content: "kfifo_content fifo8 = [1, 2, 3, 4]"
  by (simp add: kfifo_content_def ring_slice_def fifo8_def upt_rec)

lemma fifo8_capacity: "kfifo_capacity fifo8 = 8"
  by (simp add: kfifo_capacity_def fifo8_def)

theorem raw_kfifo_refines_queue_witness:
  "\<exists>f'. raw_kfifo_put fifo8 [5, 6, 7, 8, 9] 5 = Some (f', 4) \<and>
     kfifo_content f' = [1, 2, 3, 4, 5, 6, 7, 8]"
  using raw_kfifo_refines_queue [OF fifo8_inv, of 5 "[5, 6, 7, 8, 9]"]
  by (auto simp: fifo8_content fifo8_capacity)

text \<open>C1. A \<open>kfifo\<close> driven through \<open>kfifo_put\<close> and \<open>kfifo_get\<close> by any sequence of requests
  is first in, first out: the calls never fault, and the initial contents followed by all
  accepted bytes equal all delivered bytes followed by the final contents, although
  \<open>kfifo_get\<close> rewinds both indices whenever the buffer runs empty.\<close>

theorem kfifo_run_first_in_first_out:
  assumes "kfifo_inv f" and "\<forall>src. Put src \<in> set ops \<longrightarrow> length src < 2 ^ 32"
  shows "\<exists>f' sent got. locked_q.run f ops = Some (f', sent, got) \<and> kfifo_inv f' \<and>
    kfifo_capacity f' = kfifo_capacity f \<and>
    kfifo_content f @ sent = got @ kfifo_content f'"
  using assms by (rule locked_q.run_fifo)

theorem kfifo_run_first_in_first_out_witness:
  "\<exists>f' sent got. locked_q.run fifo8 [Get 4, Put [9, 8], Get 1] = Some (f', sent, got) \<and>
    kfifo_content fifo8 @ sent = got @ kfifo_content f'"
  using kfifo_run_first_in_first_out [OF fifo8_inv, of "[Get 4, Put [9, 8], Get 1]"] by auto

end
