(* ===== verification/Kfifo_Spsc.thy ===== *)
theory Kfifo_Spsc
  imports Kfifo
begin

text \<open>
  The claim in the comments of \<open>__kfifo_put\<close> and \<open>__kfifo_get\<close>: with one writer and one
  reader no further locking is needed. The two functions are split into the steps between
  which the other side can run: sampling the other side's index, copying one byte at the
  address the two \<open>memcpy\<close> calls use, and publishing the own index. The barriers
  (\<open>smp_mb\<close>, \<open>smp_wmb\<close>, \<open>smp_rmb\<close>) keep these steps in program order, so the model
  interleaves them in that order. \<open>sent\<close> and \<open>got\<close> record, for the proof only, what the
  completed puts accepted and the completed gets delivered.
\<close>

section \<open>Steps\<close>

datatype writer = W_Idle | W_Copy "u8 list" u32 nat

datatype reader = R_Idle | R_Copy u32 "u8 list"

record spsc =
  fifo :: kfifo
  wpc :: writer
  rpc :: reader
  sent :: "u8 list"
  got :: "u8 list"

text \<open>
  The address of byte \<open>i\<close> of a transfer of \<open>len\<close> bytes that starts at index \<open>pos\<close>: the
  first \<open>l\<close> bytes go to the end of the buffer, the rest to its beginning.
\<close>

definition copy_addr :: "kfifo \<Rightarrow> u32 \<Rightarrow> u32 \<Rightarrow> nat \<Rightarrow> nat" where
  "copy_addr f pos len i =
     (let off = pos AND (kf_size f - 1); l = min len (kf_size f - off)
      in if i < unat l then unat off + i else i - unat l)"

inductive spsc_step :: "spsc \<Rightarrow> spsc \<Rightarrow> bool" where
  put_sample: "wpc s = W_Idle \<Longrightarrow> length src < 2 ^ 32 \<Longrightarrow>
     spsc_step s (s\<lparr>wpc := W_Copy src
       (min (of_nat (length src)) (kf_size (fifo s) - kf_in (fifo s) + kf_out (fifo s))) 0\<rparr>)"
| put_byte: "wpc s = W_Copy src len i \<Longrightarrow> i < unat len \<Longrightarrow>
     spsc_step s (s\<lparr>fifo := (fifo s)\<lparr>kf_buffer :=
         (kf_buffer (fifo s))[copy_addr (fifo s) (kf_in (fifo s)) len i := src ! i]\<rparr>,
       wpc := W_Copy src len (Suc i)\<rparr>)"
| put_publish: "wpc s = W_Copy src len (unat len) \<Longrightarrow>
     spsc_step s (s\<lparr>fifo := (fifo s)\<lparr>kf_in := kf_in (fifo s) + len\<rparr>, wpc := W_Idle,
       sent := sent s @ take (unat len) src\<rparr>)"
| get_sample: "rpc s = R_Idle \<Longrightarrow>
     spsc_step s (s\<lparr>rpc := R_Copy (min len (kf_in (fifo s) - kf_out (fifo s))) []\<rparr>)"
| get_byte: "rpc s = R_Copy len dst \<Longrightarrow> length dst < unat len \<Longrightarrow>
     spsc_step s (s\<lparr>rpc := R_Copy len
       (dst @ [kf_buffer (fifo s) ! copy_addr (fifo s) (kf_out (fifo s)) len (length dst)])\<rparr>)"
| get_publish: "rpc s = R_Copy len dst \<Longrightarrow> length dst = unat len \<Longrightarrow>
     spsc_step s (s\<lparr>fifo := (fifo s)\<lparr>kf_out := kf_out (fifo s) + len\<rparr>, rpc := R_Idle,
       got := got s @ dst\<rparr>)"

inductive spsc_reachable :: "kfifo \<Rightarrow> spsc \<Rightarrow> bool" for f where
  spsc_start: "spsc_reachable f \<lparr>fifo = f, wpc = W_Idle, rpc = R_Idle, sent = [], got = []\<rparr>"
| spsc_next: "spsc_reachable f s \<Longrightarrow> spsc_step s t \<Longrightarrow> spsc_reachable f t"

section \<open>Invariant\<close>

definition writer_ok :: "kfifo \<Rightarrow> writer \<Rightarrow> bool" where
  "writer_ok f w = (case w of W_Idle \<Rightarrow> True | W_Copy src len i \<Rightarrow>
     unat len \<le> length src \<and> i \<le> unat len \<and>
     length (kfifo_content f) + unat len \<le> kfifo_capacity f \<and>
     ring_slice (kf_buffer f) (unat (kf_out f) + length (kfifo_content f)) i = take i src)"

definition reader_ok :: "kfifo \<Rightarrow> reader \<Rightarrow> bool" where
  "reader_ok f r = (case r of R_Idle \<Rightarrow> True | R_Copy len dst \<Rightarrow>
     unat len \<le> length (kfifo_content f) \<and> length dst \<le> unat len \<and>
     dst = take (length dst) (kfifo_content f))"

definition spsc_inv :: "kfifo \<Rightarrow> spsc \<Rightarrow> bool" where
  "spsc_inv f s \<longleftrightarrow>
     kfifo_inv (fifo s) \<and> kfifo_capacity (fifo s) = kfifo_capacity f \<and>
     kfifo_content f @ sent s = got s @ kfifo_content (fifo s) \<and>
     writer_ok (fifo s) (wpc s) \<and> reader_ok (fifo s) (rpc s)"

lemma copy_addr_mod:
  assumes inv: "kfifo_inv f" and "i < unat len" and "unat len \<le> kfifo_capacity f"
  shows "copy_addr f pos len i = (unat pos + i) mod length (kf_buffer f)"
proof -
  let ?S = "length (kf_buffer f)"
  let ?off = "pos AND (kf_size f - 1)"
  have off: "unat ?off = unat pos mod ?S" by (rule unat_index [OF inv])
  have pos: "unat pos mod ?S < ?S" using kfifo_size_lt [OF inv] by simp
  have l: "unat (min len (kf_size f - ?off)) = min (unat len) (?S - unat pos mod ?S)"
    by (simp only: unat_min unat_to_end [OF inv])
  have "(unat pos + i) mod ?S = (unat pos mod ?S + i) mod ?S"
    by (simp add: mod_add_left_eq)
  also have "\<dots> = (if unat pos mod ?S + i < ?S then unat pos mod ?S + i
      else unat pos mod ?S + i - ?S)"
    using assms pos by (simp add: kfifo_capacity_def le_mod_geq)
  also have "\<dots> = copy_addr f pos len i"
    unfolding copy_addr_def Let_def l off using assms pos by (auto simp: min_def)
  finally show ?thesis by simp
qed

lemma ring_slice_update:
  assumes "c + i < length b"
  shows "ring_slice (b[(off + c + i) mod length b := v]) off c = ring_slice b off c"
proof (rule nth_equalityI)
  fix j assume "j < length (ring_slice (b[(off + c + i) mod length b := v]) off c)"
  then have j: "j < c" by simp
  have "(off + c + i) mod length b \<noteq> (off + j) mod length b"
  proof
    assume "(off + c + i) mod length b = (off + j) mod length b"
    then have "length b dvd (off + c + i) - (off + j)"
      using j by (intro mod_eq_dvd_iff_nat [THEN iffD1]) auto
    then have "length b \<le> c + i - j" using j by (intro dvd_imp_le) auto
    with assms show False by simp
  qed
  with j assms show "ring_slice (b[(off + c + i) mod length b := v]) off c ! j =
      ring_slice b off c ! j"
    by (simp add: ring_slice_def)
qed simp

lemma ring_slice_append1:
  assumes "b \<noteq> []" and "i < length b"
  shows "ring_slice (b[(off + i) mod length b := v]) off (Suc i) = ring_slice b off i @ [v]"
proof -
  have "ring_slice (b[(off + i) mod length b := v]) off i = ring_slice b off i"
    using ring_slice_update [of i 0 b off v] assms by simp
  moreover have "ring_slice (b[(off + i) mod length b := v]) (off + i) 1 = [v]"
    using assms by (simp add: ring_slice_def)
  ultimately show ?thesis
    using ring_slice_add [of "b[(off + i) mod length b := v]" off i 1] by simp
qed

text \<open>What each step does to the buffer.\<close>

lemma put_byte_state:
  assumes inv: "kfifo_inv f" and w: "writer_ok f (W_Copy src len i)" and i: "i < unat len"
  defines "f' \<equiv> f\<lparr>kf_buffer := (kf_buffer f)[copy_addr f (kf_in f) len i := src ! i]\<rparr>"
  shows "kfifo_inv f'" and "kfifo_capacity f' = kfifo_capacity f"
    and "kfifo_content f' = kfifo_content f" and "writer_ok f' (W_Copy src len (Suc i))"
proof -
  let ?b = "kf_buffer f" and ?c = "length (kfifo_content f)"
  let ?w = "(unat (kf_out f) + ?c + i) mod length ?b"
  have room: "?c + unat len \<le> length ?b" and src: "unat len \<le> length src"
    and slice: "ring_slice ?b (unat (kf_out f) + ?c) i = take i src"
    using w by (auto simp: writer_ok_def kfifo_capacity_def)
  have "copy_addr f (kf_in f) len i = (unat (kf_in f) + i) mod length ?b"
    using inv i room by (intro copy_addr_mod) (auto simp: kfifo_capacity_def)
  also have "\<dots> = ?w"
    using kf_in_mod [OF inv] by (metis mod_add_left_eq)
  finally have f': "f' = f\<lparr>kf_buffer := ?b[?w := src ! i]\<rparr>" by (simp add: f'_def)
  show "kfifo_inv f'" using inv by (simp add: f' kfifo_inv_def)
  show cap: "kfifo_capacity f' = kfifo_capacity f" by (simp add: f' kfifo_capacity_def)
  have "ring_slice (?b[?w := src ! i]) (unat (kf_out f)) ?c = ring_slice ?b (unat (kf_out f)) ?c"
    using i room by (intro ring_slice_update) simp
  then show con: "kfifo_content f' = kfifo_content f"
    by (simp add: f' kfifo_content_def)
  have "ring_slice (?b[?w := src ! i]) (unat (kf_out f) + ?c) (Suc i) =
      ring_slice ?b (unat (kf_out f) + ?c) i @ [src ! i]"
    using i room by (intro ring_slice_append1) auto
  also have "\<dots> = take (Suc i) src"
    using slice i src by (simp add: take_Suc_conv_app_nth)
  finally show "writer_ok f' (W_Copy src len (Suc i))"
    using w i con cap by (simp add: writer_ok_def) (simp add: f')
qed

lemma put_publish_state:
  assumes inv: "kfifo_inv f" and w: "writer_ok f (W_Copy src len (unat len))"
  defines "f' \<equiv> f\<lparr>kf_in := kf_in f + len\<rparr>"
  shows "kfifo_inv f'" and "kfifo_capacity f' = kfifo_capacity f"
    and "kfifo_content f' = kfifo_content f @ take (unat len) src"
proof -
  let ?b = "kf_buffer f" and ?c = "length (kfifo_content f)"
  have room: "?c + unat len \<le> length ?b"
    and slice: "ring_slice ?b (unat (kf_out f) + ?c) (unat len) = take (unat len) src"
    using w by (auto simp: writer_ok_def kfifo_capacity_def)
  have "unat (kf_in f - kf_out f) = ?c" by (simp add: kfifo_content_def)
  then have dist: "unat (kf_in f' - kf_out f') = ?c + unat len"
    using unat_distance_add [of "kf_in f" "kf_out f" "unat len"] room kfifo_size_lt [OF inv]
    by (simp add: f'_def)
  show "kfifo_inv f'"
    using inv dist room by (simp add: kfifo_inv_def f'_def word_le_nat_alt)
  show "kfifo_capacity f' = kfifo_capacity f" by (simp add: f'_def kfifo_capacity_def)
  have "kfifo_content f' = ring_slice ?b (unat (kf_out f)) (?c + unat len)"
    using dist by (simp add: kfifo_content_def f'_def)
  also have "\<dots> = ring_slice ?b (unat (kf_out f)) ?c @ take (unat len) src"
    by (simp add: ring_slice_add slice)
  finally show "kfifo_content f' = kfifo_content f @ take (unat len) src"
    by (simp add: kfifo_content_def)
qed

text \<open>The reader only makes room: what the writer relies on survives a get.\<close>

lemma get_publish_state:
  assumes inv: "kfifo_inv f" and len: "unat len \<le> length (kfifo_content f)"
  defines "f' \<equiv> f\<lparr>kf_out := kf_out f + len\<rparr>"
  shows "kfifo_inv f'" and "kfifo_capacity f' = kfifo_capacity f"
    and "kfifo_content f' = drop (unat len) (kfifo_content f)"
    and "writer_ok f w \<Longrightarrow> writer_ok f' w"
proof -
  have f': "f' = f\<lparr>kf_out := kf_out f + of_nat (unat len)\<rparr>" by (simp add: f'_def)
  note st = kfifo_get_state [OF inv len, folded f']
  show "kfifo_inv f'" by (rule st)
  show "kfifo_capacity f' = kfifo_capacity f" by (rule st)
  show con: "kfifo_content f' = drop (unat len) (kfifo_content f)" by (rule st)
  have buf: "kf_buffer f' = kf_buffer f" and "kf_in f' = kf_in f" by (simp_all add: f'_def)
  then have pos: "(unat (kf_out f') + length (kfifo_content f')) mod length (kf_buffer f) =
      (unat (kf_out f) + length (kfifo_content f)) mod length (kf_buffer f)"
    using kf_in_mod [OF inv] kf_in_mod [OF st(1)] by simp
  show "writer_ok f' w" if "writer_ok f w"
  proof (cases w)
    case W_Idle
    then show ?thesis by (simp add: writer_ok_def)
  next
    case (W_Copy src l i)
    have "ring_slice (kf_buffer f) (unat (kf_out f') + length (kfifo_content f')) i =
        ring_slice (kf_buffer f) (unat (kf_out f) + length (kfifo_content f)) i"
      using pos ring_slice_mod by metis
    with that W_Copy con buf st(2) show ?thesis by (auto simp: writer_ok_def)
  qed
qed

lemma reader_ok_append:
  "reader_ok f r \<Longrightarrow> kfifo_content f' = kfifo_content f @ xs \<Longrightarrow> reader_ok f' r"
  by (auto simp: reader_ok_def split: reader.splits)

lemma get_byte_state:
  assumes inv: "kfifo_inv f" and r: "reader_ok f (R_Copy len dst)" and l: "length dst < unat len"
  shows "reader_ok f (R_Copy len (dst @ [kf_buffer f ! copy_addr f (kf_out f) len (length dst)]))"
proof -
  let ?i = "length dst"
  have c: "unat len \<le> length (kfifo_content f)" and dst: "dst = take ?i (kfifo_content f)"
    using r by (auto simp: reader_ok_def)
  have "copy_addr f (kf_out f) len ?i = (unat (kf_out f) + ?i) mod length (kf_buffer f)"
    using inv l c kfifo_content_le [OF inv] by (intro copy_addr_mod) auto
  then have "kf_buffer f ! copy_addr f (kf_out f) len ?i = kfifo_content f ! ?i"
    using l c by (simp add: kfifo_content_def ring_slice_def)
  then have "dst @ [kf_buffer f ! copy_addr f (kf_out f) len ?i] = take (Suc ?i) (kfifo_content f)"
    using dst l c by (simp add: take_Suc_conv_app_nth)
  with l c show ?thesis by (simp add: reader_ok_def)
qed

lemma spsc_step_inv: "spsc_step s t \<Longrightarrow> spsc_inv f s \<Longrightarrow> spsc_inv f t"
proof (induction rule: spsc_step.induct)
  case (put_sample s src)
  then have inv: "kfifo_inv (fifo s)" by (simp add: spsc_inv_def)
  have "unat (min (of_nat (length src)) (kf_size (fifo s) - kf_in (fifo s) + kf_out (fifo s))) =
      min (length src) (kfifo_capacity (fifo s) - length (kfifo_content (fifo s)))"
    using put_sample(2) unfolding unat_min unat_free [OF inv]
    by (simp add: unat_of_nat kfifo_capacity_def)
  then show ?case
    using put_sample kfifo_content_le [OF inv]
    by (simp add: spsc_inv_def writer_ok_def ring_slice_def)
next
  case (put_byte s src len i)
  then have *: "kfifo_inv (fifo s)" "writer_ok (fifo s) (W_Copy src len i)" "i < unat len"
    by (auto simp: spsc_inv_def)
  show ?case
    using put_byte put_byte_state [OF *] reader_ok_append [of "fifo s" "rpc s" _ "[]"]
    by (simp add: spsc_inv_def)
next
  case (put_publish s src len)
  then have *: "kfifo_inv (fifo s)" "writer_ok (fifo s) (W_Copy src len (unat len))"
    by (auto simp: spsc_inv_def)
  show ?case
    using put_publish put_publish_state [OF *] reader_ok_append [of "fifo s" "rpc s"]
    by (simp add: spsc_inv_def writer_ok_def [of _ W_Idle])
next
  case (get_sample s len)
  then show ?case
    by (simp add: spsc_inv_def reader_ok_def unat_min kfifo_content_def)
next
  case (get_byte s len dst)
  then have *: "kfifo_inv (fifo s)" "reader_ok (fifo s) (R_Copy len dst)" "length dst < unat len"
    by (auto simp: spsc_inv_def)
  show ?case
    using get_byte get_byte_state [OF *] by (simp add: spsc_inv_def)
next
  case (get_publish s len dst)
  then have *: "kfifo_inv (fifo s)" "unat len \<le> length (kfifo_content (fifo s))"
    and dst: "dst = take (unat len) (kfifo_content (fifo s))"
    by (auto simp: spsc_inv_def reader_ok_def)
  show ?case
    using get_publish get_publish_state [OF *] dst
    by (simp add: spsc_inv_def reader_ok_def [of _ R_Idle])
qed

lemma spsc_reachable_inv: "spsc_reachable f s \<Longrightarrow> kfifo_inv f \<Longrightarrow> spsc_inv f s"
proof (induction rule: spsc_reachable.induct)
  case spsc_start
  then show ?case by (simp add: spsc_inv_def writer_ok_def reader_ok_def)
next
  case (spsc_next s t)
  then show ?case by (blast intro: spsc_step_inv)
qed

section \<open>Property\<close>

text \<open>C3. With one concurrent writer and one concurrent reader and no lock, in every
  interleaving of their steps: what was in the buffer followed by everything the completed
  puts accepted is exactly what the completed gets delivered followed by what is still in
  the buffer (nothing lost, duplicated, reordered or torn), the buffer never holds more
  than its capacity, and every byte copy in progress stays inside the buffer.\<close>

theorem kfifo_spsc_lock_free:
  assumes "kfifo_inv f" and "spsc_reachable f s"
  shows "kfifo_content f @ sent s = got s @ kfifo_content (fifo s) \<and>
    length (kfifo_content (fifo s)) \<le> kfifo_capacity f \<and>
    (\<forall>src len i j. wpc s = W_Copy src len i \<and> j < unat len \<longrightarrow>
      copy_addr (fifo s) (kf_in (fifo s)) len j < length (kf_buffer (fifo s))) \<and>
    (\<forall>len dst j. rpc s = R_Copy len dst \<and> j < unat len \<longrightarrow>
      copy_addr (fifo s) (kf_out (fifo s)) len j < length (kf_buffer (fifo s)))"
proof -
  have inv: "spsc_inv f s" using assms by (intro spsc_reachable_inv)
  then have f: "kfifo_inv (fifo s)" by (simp add: spsc_inv_def)
  have "copy_addr (fifo s) pos len j < length (kf_buffer (fifo s))"
    if "j < unat len" "unat len \<le> kfifo_capacity (fifo s)" for pos len j
    using that kfifo_size_lt [OF f] by (simp add: copy_addr_mod [OF f])
  then show ?thesis
    using inv kfifo_content_le [OF f]
    by (fastforce simp: spsc_inv_def writer_ok_def reader_ok_def)
qed

text \<open>A run in which the reader starts before the writer has finished: the writer has copied
  one of two bytes when the reader samples an empty buffer.\<close>

definition fifo4 :: kfifo where
  "fifo4 = \<lparr>kf_buffer = [0, 0, 0, 0], kf_size = 4, kf_in = 0xFFFFFFFF, kf_out = 0xFFFFFFFF\<rparr>"

definition spsc_mid :: spsc where
  "spsc_mid = \<lparr>fifo = fifo4\<lparr>kf_buffer := [0, 0, 0, 7]\<rparr>, wpc = W_Copy [7, 8] 2 1,
     rpc = R_Copy 0 [], sent = [], got = []\<rparr>"

lemma spsc_mid_reachable: "spsc_reachable fifo4 spsc_mid"
proof -
  let ?s0 = "\<lparr>fifo = fifo4, wpc = W_Idle, rpc = R_Idle, sent = [], got = []\<rparr>"
  let ?s1 = "?s0\<lparr>wpc := W_Copy [7, 8] 2 0\<rparr>"
  let ?s2 = "?s1\<lparr>rpc := R_Copy 0 []\<rparr>"
  have "spsc_step ?s0 ?s1"
    using put_sample [of ?s0 "[7, 8]"] by (simp add: fifo4_def)
  moreover have "spsc_step ?s1 ?s2"
    using get_sample [of ?s1 5] by (simp add: fifo4_def)
  moreover have "spsc_step ?s2 spsc_mid"
    using put_byte [of ?s2 "[7, 8]" 2 0] by (simp add: fifo4_def spsc_mid_def copy_addr_def)
  ultimately show ?thesis by (blast intro: spsc_start spsc_next)
qed

theorem kfifo_spsc_lock_free_witness:
  "spsc_reachable fifo4 spsc_mid \<and>
   kfifo_content fifo4 @ sent spsc_mid = got spsc_mid @ kfifo_content (fifo spsc_mid)"
proof -
  have "kfifo_inv fifo4"
    by (simp add: kfifo_inv_def is_power_of_2_def fifo4_def)
  then show ?thesis
    using kfifo_spsc_lock_free [OF _ spsc_mid_reachable] spsc_mid_reachable by blast
qed

end
