(* ===== verification/Skbuff.thy ===== *)
theory Skbuff
  imports Kernel_Prelude
begin

text \<open>
  The part of \<^verbatim>\<open>net/core/skbuff.c\<close> and \<^verbatim>\<open>include/linux/skbuff.h\<close> that reads packet contents:
  a buffer is a linear area, page fragments and a list of further buffers, and
  \<open>skb_copy_bits\<close> gathers a byte range from them. The C \<open>int\<close> variables are \<open>int\<close> here;
  a well-formed buffer is shorter than \<open>2 ^ 31\<close> bytes, so none of them overflows.
  \<open>None\<close> is a read outside the memory of a fragment.
\<close>

section \<open>Buffers\<close>

text \<open>\<open>Skb len lin frags frag_list\<close>: the stored \<open>skb->len\<close>, the bytes from \<open>skb->data\<close> to the
  tail, the contents of the page fragments, and the chained buffers.\<close>

datatype skb_data = Skb (skb_len: nat) (skb_lin: "u8 list") (skb_frags: "u8 list list")
  (skb_frag_list: "skb_data list")

primrec skb_bytes :: "skb_data \<Rightarrow> u8 list" where
  "skb_bytes (Skb len lin frags fl) = lin @ concat frags @ concat (map skb_bytes fl)"

primrec skb_wf :: "skb_data \<Rightarrow> bool" where
  "skb_wf (Skb len lin frags fl) =
     (len < 2 ^ 31 \<and> list_all skb_wf fl \<and>
      len = length lin + length (concat frags) + length (concat (map skb_bytes fl)))"

text \<open>\<open>skb_headlen\<close> is \<open>skb->len - skb->data_len\<close>, the length of the linear area.\<close>

definition skb_headlen :: "skb_data \<Rightarrow> int" where
  "skb_headlen s = int (length (skb_lin s))"

definition skb_is_nonlinear :: "skb_data \<Rightarrow> bool" where
  "skb_is_nonlinear s = (skb_len s - length (skb_lin s) \<noteq> 0)"

section \<open>Gathering a range\<close>

text \<open>
  The state of the loops of \<open>skb_copy_bits\<close>: finished with the bytes copied, or the running
  \<open>start\<close>, \<open>offset\<close>, \<open>len\<close> and the bytes copied so far.
\<close>

datatype copy_state = Copied "u8 list" | Copying int int int "u8 list"

definition int_read :: "int \<Rightarrow> int \<Rightarrow> 'a list \<Rightarrow> 'a list option" where
  "int_read off n src = (if 0 \<le> off \<and> 0 \<le> n then mem_read (nat off) (nat n) src else None)"

fun copy_frags :: "int \<Rightarrow> int \<Rightarrow> int \<Rightarrow> u8 list \<Rightarrow> u8 list list \<Rightarrow> copy_state option" where
  "copy_frags start offset len dst [] = Some (Copying start offset len dst)"
| "copy_frags start offset len dst (fr # frs) =
     (let endp = start + int (length fr) in
      if endp - offset > 0 then
        let copy = min (endp - offset) len in
        (case int_read (offset - start) copy fr of
           None \<Rightarrow> None
         | Some bs \<Rightarrow>
             if len - copy = 0 then Some (Copied (dst @ bs))
             else copy_frags endp (offset + copy) (len - copy) (dst @ bs) frs)
      else copy_frags endp offset len dst frs)"

fun skb_copy_bits :: "skb_data \<Rightarrow> int \<Rightarrow> int \<Rightarrow> u8 list result option"
and skb_walk_frags :: "int \<Rightarrow> int \<Rightarrow> int \<Rightarrow> u8 list \<Rightarrow> skb_data list \<Rightarrow> u8 list result option" where
  "skb_copy_bits (Skb slen lin frags fl) offset len =
     (let start = int (length lin) in
      if offset > int slen - len then Some (Inl EFAULT)
      else
        let hcopy = min (start - offset) len in
        case (if start - offset > 0 then
                (case int_read offset hcopy lin of
                   None \<Rightarrow> None
                 | Some bs \<Rightarrow>
                     if len - hcopy = 0 then Some (Copied bs)
                     else Some (Copying start (offset + hcopy) (len - hcopy) bs))
              else Some (Copying start offset len [])) of
          None \<Rightarrow> None
        | Some (Copied bs) \<Rightarrow> Some (Inr bs)
        | Some (Copying start offset len dst) \<Rightarrow>
            (case copy_frags start offset len dst frags of
               None \<Rightarrow> None
             | Some (Copied bs) \<Rightarrow> Some (Inr bs)
             | Some (Copying start offset len dst) \<Rightarrow> skb_walk_frags start offset len dst fl))"
| "skb_walk_frags start offset len dst [] =
     (if len = 0 then Some (Inr dst) else Some (Inl EFAULT))"
| "skb_walk_frags start offset len dst (s # ss) =
     (let endp = start + int (skb_len s) in
      if endp - offset > 0 then
        let copy = min (endp - offset) len in
        (case skb_copy_bits s (offset - start) copy of
           None \<Rightarrow> None
         | Some (Inl e) \<Rightarrow> Some (Inl EFAULT)
         | Some (Inr bs) \<Rightarrow>
             if len - copy = 0 then Some (Inr (dst @ bs))
             else skb_walk_frags endp (offset + copy) (len - copy) (dst @ bs) ss)
      else skb_walk_frags endp offset len dst ss)"

text \<open>
  \<open>skb_header_pointer\<close>: the bytes the returned pointer gives access to, either in place in the
  linear area or copied into the caller's buffer; \<open>Inl\<close> is the null pointer.
\<close>

definition skb_header_pointer :: "skb_data \<Rightarrow> int \<Rightarrow> int \<Rightarrow> u8 list result option" where
  "skb_header_pointer s offset len =
     (if skb_headlen s - offset \<ge> len
      then (case int_read offset len (skb_lin s) of None \<Rightarrow> None | Some bs \<Rightarrow> Some (Inr bs))
      else skb_copy_bits s offset len)"

section \<open>Correctness\<close>

definition segment :: "'a list \<Rightarrow> int \<Rightarrow> int \<Rightarrow> 'a list" where
  "segment xs off n = take (nat n) (drop (nat off) xs)"

lemma int_read_segment:
  "0 \<le> off \<Longrightarrow> 0 \<le> n \<Longrightarrow> off + n \<le> int (length xs) \<Longrightarrow> int_read off n xs = Some (segment xs off n)"
  by (simp add: int_read_def mem_read_def segment_def nat_add_distrib [symmetric] nat_le_iff)

lemma length_segment:
  "0 \<le> off \<Longrightarrow> 0 \<le> n \<Longrightarrow> off + n \<le> int (length xs) \<Longrightarrow> int (length (segment xs off n)) = n"
  by (simp add: segment_def min_def) linarith

lemma segment_append_left:
  "0 \<le> off \<Longrightarrow> 0 \<le> n \<Longrightarrow> off + n \<le> int (length xs) \<Longrightarrow> segment (xs @ ys) off n = segment xs off n"
  by (simp add: segment_def)

lemma segment_append_right:
  "int (length xs) \<le> off \<Longrightarrow> segment (xs @ ys) off n = segment ys (off - int (length xs)) n"
  by (simp add: segment_def nat_diff_distrib')

lemma segment_append_split:
  assumes "0 \<le> off" and "off < int (length xs)" and "int (length xs) < off + n"
  shows "segment (xs @ ys) off n =
    segment xs off (int (length xs) - off) @ segment ys 0 (n - (int (length xs) - off))"
  using assms by (simp add: segment_def nat_diff_distrib')

lemma segment_zero [simp]: "segment xs off 0 = []"
  by (simp add: segment_def)

text \<open>
  One loop over consecutive pieces: the bytes still to be copied are a range of what the
  remaining pieces hold.
\<close>

definition gather_ok :: "u8 list \<Rightarrow> int \<Rightarrow> int \<Rightarrow> int \<Rightarrow> u8 list \<Rightarrow> copy_state \<Rightarrow> bool" where
  "gather_ok data start offset len dst st =
     (case st of
        Copied bs \<Rightarrow> offset + len \<le> start + int (length data) \<and>
                     bs = dst @ segment data (offset - start) len
      | Copying start' offset' len' dst' \<Rightarrow>
          start' = start + int (length data) \<and> start' \<le> offset' \<and> 0 \<le> len' \<and>
          offset' + len' = offset + len \<and>
          (\<forall>rest. dst' @ segment rest (offset' - start') len' =
                  dst @ segment (data @ rest) (offset - start) len))"

lemma gather_ok_skip:
  assumes "start + int (length fr) \<le> offset"
    and "gather_ok data (start + int (length fr)) offset len dst st"
  shows "gather_ok (fr @ data) start offset len dst st"
proof -
  have "segment (fr @ xs) (offset - start) len = segment xs (offset - (start + int (length fr))) len" for xs
    using assms(1) by (subst segment_append_right) (auto simp: algebra_simps)
  then show ?thesis
    using assms by (auto simp: gather_ok_def split: copy_state.splits)
qed

lemma gather_ok_take:
  assumes "start \<le> offset" and "c = start + int (length fr) - offset" and "0 < c" and "c < len"
    and "gather_ok data (start + int (length fr)) (offset + c) (len - c)
      (dst @ segment fr (offset - start) c) st"
  shows "gather_ok (fr @ data) start offset len dst st"
proof -
  have "segment (fr @ xs) (offset - start) len =
      segment fr (offset - start) c @ segment xs (offset + c - (start + int (length fr))) (len - c)" for xs
    using assms(1,3,4) segment_append_split [of "offset - start" fr len xs]
    unfolding assms(2) by (simp add: algebra_simps)
  then show ?thesis
    using assms(5) assms(1-4) by (auto simp: gather_ok_def split: copy_state.splits)
qed

lemma copy_frags_correct:
  assumes "0 \<le> len" and "start \<le> offset"
  shows "\<exists>st. copy_frags start offset len dst frs = Some st \<and>
    gather_ok (concat frs) start offset len dst st"
  using assms
proof (induction frs arbitrary: start offset len dst)
  case Nil
  then show ?case by (simp add: gather_ok_def)
next
  case (Cons fr frs)
  let ?e = "start + int (length fr)"
  show ?case
  proof (cases "?e - offset > 0")
    case False
    then have "\<exists>st. copy_frags ?e offset len dst frs = Some st \<and>
        gather_ok (concat frs) ?e offset len dst st"
      using Cons.IH [of len ?e offset] Cons.prems by auto
    with False show ?thesis by (auto simp: Let_def intro!: gather_ok_skip)
  next
    case True
    let ?c = "min (?e - offset) len"
    have rd: "int_read (offset - start) ?c fr = Some (segment fr (offset - start) ?c)"
      using Cons.prems True by (intro int_read_segment) auto
    show ?thesis
    proof (cases "len \<le> ?e - offset")
      case le: True
      then have "segment (fr @ concat frs) (offset - start) len = segment fr (offset - start) len"
        using Cons.prems by (intro segment_append_left) auto
      with rd le True show ?thesis by (auto simp: Let_def min_absorb2 gather_ok_def)
    next
      case False
      then have c: "?c = ?e - offset" by simp
      have "\<exists>st. copy_frags ?e (offset + ?c) (len - ?c) (dst @ segment fr (offset - start) ?c) frs =
          Some st \<and> gather_ok (concat frs) ?e (offset + ?c) (len - ?c)
            (dst @ segment fr (offset - start) ?c) st"
        using Cons.IH [of "len - ?c" ?e "offset + ?c" "dst @ segment fr (offset - start) ?c"] c False
        by simp
      then obtain st where "copy_frags ?e (offset + ?c) (len - ?c)
            (dst @ segment fr (offset - start) ?c) frs = Some st"
          "gather_ok (concat frs) ?e (offset + ?c) (len - ?c) (dst @ segment fr (offset - start) ?c) st"
        by blast
      moreover have "gather_ok (concat (fr # frs)) start offset len dst st"
        using calculation(2) Cons.prems True False c
        by (auto intro!: gather_ok_take [where c = ?c])
      ultimately show ?thesis using rd True False c by (auto simp: Let_def)
    qed
  qed
qed

abbreviation skbs_bytes :: "skb_data list \<Rightarrow> u8 list" where
  "skbs_bytes ss \<equiv> concat (map skb_bytes ss)"

lemma skb_wf_len: "skb_wf s \<Longrightarrow> skb_len s = length (skb_bytes s)"
  by (cases s) simp

text \<open>Copying from the linear area is the loop body once, on a first piece at offset 0.\<close>

lemma skb_copy_bits_unfold:
  "skb_copy_bits (Skb slen lin frags fl) offset len =
     (if offset > int slen - len then Some (Inl EFAULT)
      else case copy_frags 0 offset len [] (lin # frags) of
          None \<Rightarrow> None
        | Some (Copied bs) \<Rightarrow> Some (Inr bs)
        | Some (Copying start offset len dst) \<Rightarrow> skb_walk_frags start offset len dst fl)"
  by (auto simp: Let_def split: option.split)

definition copy_spec :: "skb_data \<Rightarrow> bool" where
  "copy_spec s \<longleftrightarrow> (\<forall>offset len. 0 \<le> offset \<longrightarrow> 0 \<le> len \<longrightarrow>
     skb_copy_bits s offset len =
       Some (if offset + len \<le> int (skb_len s)
             then Inr (segment (skb_bytes s) offset len) else Inl EFAULT))"

lemma skb_walk_frags_correct:
  assumes "\<forall>s \<in> set ss. skb_wf s \<and> copy_spec s" and "start \<le> offset" and "0 \<le> len"
    and "offset + len \<le> start + int (length (skbs_bytes ss))"
  shows "skb_walk_frags start offset len dst ss =
     Some (Inr (dst @ segment (skbs_bytes ss) (offset - start) len))"
  using assms
proof (induction ss arbitrary: start offset len dst)
  case Nil
  then show ?case by (simp add: segment_def)
next
  case (Cons s ss)
  have len: "skb_len s = length (skb_bytes s)" using Cons.prems by (simp add: skb_wf_len)
  let ?e = "start + int (length (skb_bytes s))"
  show ?case
  proof (cases "?e - offset > 0")
    case False
    with Cons show ?thesis by (simp add: len segment_append_right algebra_simps)
  next
    case True
    let ?c = "min (?e - offset) len"
    have copy: "skb_copy_bits s (offset - start) ?c =
        Some (Inr (segment (skb_bytes s) (offset - start) ?c))"
      using Cons.prems True by (auto simp: copy_spec_def len)
    show ?thesis
    proof (cases "len \<le> ?e - offset")
      case le: True
      then have "segment (skb_bytes s @ skbs_bytes ss) (offset - start) len =
          segment (skb_bytes s) (offset - start) len"
        using Cons.prems by (intro segment_append_left) auto
      with le copy True show ?thesis by (simp add: Let_def len min_absorb2)
    next
      case False
      then have c: "?c = ?e - offset" by simp
      have "skb_walk_frags ?e ?e (len - ?c) (dst @ segment (skb_bytes s) (offset - start) ?c) ss =
          Some (Inr ((dst @ segment (skb_bytes s) (offset - start) ?c) @
            segment (skbs_bytes ss) (?e - ?e) (len - ?c)))"
        using Cons.prems False c by (intro Cons.IH) auto
      moreover have "segment (skb_bytes s @ skbs_bytes ss) (offset - start) len =
          segment (skb_bytes s) (offset - start) ?c @ segment (skbs_bytes ss) 0 (len - ?c)"
        using Cons.prems False True c segment_append_split [of "offset - start" "skb_bytes s" len]
        by (simp add: algebra_simps)
      ultimately show ?thesis using copy True False c by (simp add: Let_def len)
    qed
  qed
qed

lemma skb_copy_bits_correct: "skb_wf s \<Longrightarrow> copy_spec s"
proof (induction s)
  case (Skb slen lin frags fl)
  have fl: "\<forall>s \<in> set fl. skb_wf s \<and> copy_spec s"
    using Skb by (auto simp: list_all_iff)
  have tot: "slen = length (concat (lin # frags)) + length (skbs_bytes fl)"
    using Skb.prems by simp
  have "skb_copy_bits (Skb slen lin frags fl) offset len =
      Some (Inr (segment (skb_bytes (Skb slen lin frags fl)) offset len))"
    if h: "0 \<le> offset" "0 \<le> len" "offset + len \<le> int slen" for offset len
  proof -
    obtain st where st: "copy_frags 0 offset len [] (lin # frags) = Some st"
        "gather_ok (concat (lin # frags)) 0 offset len [] st"
      using copy_frags_correct [of len 0 offset "[]" "lin # frags"] h by blast
    show ?thesis
    proof (cases st)
      case (Copied bs)
      then have "bs = segment (skb_bytes (Skb slen lin frags fl)) offset len"
        using st(2) h segment_append_left [of offset len "concat (lin # frags)" "skbs_bytes fl"]
        by (simp add: gather_ok_def)
      with h st(1) Copied show ?thesis
        by (simp add: skb_copy_bits_unfold del: skb_copy_bits.simps copy_frags.simps)
    next
      case (Copying start' offset' len' dst')
      with st(2) have g: "start' = int (length (concat (lin # frags)))" "start' \<le> offset'" "0 \<le> len'"
          "offset' + len' = offset + len"
          "dst' @ segment (skbs_bytes fl) (offset' - start') len' =
             segment (concat (lin # frags) @ skbs_bytes fl) offset len"
        by (auto simp: gather_ok_def)
      have "skb_walk_frags start' offset' len' dst' fl =
          Some (Inr (dst' @ segment (skbs_bytes fl) (offset' - start') len'))"
        using fl g h tot by (intro skb_walk_frags_correct) auto
      with h st(1) Copying g(5) show ?thesis
        by (simp add: skb_copy_bits_unfold del: skb_copy_bits.simps copy_frags.simps)
    qed
  qed
  then show ?case by (auto simp: copy_spec_def skb_copy_bits_unfold)
qed

lemma skb_header_pointer_correct:
  assumes "skb_wf s" and "0 \<le> offset" and "0 \<le> len"
  shows "skb_header_pointer s offset len =
    Some (if offset + len \<le> int (skb_len s)
          then Inr (segment (skb_bytes s) offset len) else Inl EFAULT)"
proof (cases "skb_headlen s - offset \<ge> len")
  case True
  obtain n lin frags fl where s: "s = Skb n lin frags fl" by (cases s)
  have "int_read offset len lin = Some (segment lin offset len)"
    using True assms s by (intro int_read_segment) (auto simp: skb_headlen_def)
  moreover have "segment (skb_bytes s) offset len = segment lin offset len"
    using True assms s segment_append_left [of offset len lin] by (simp add: skb_headlen_def)
  ultimately show ?thesis
    using True assms s by (auto simp: skb_header_pointer_def skb_headlen_def)
next
  case False
  then show ?thesis
    using skb_copy_bits_correct [OF assms(1)] assms
    by (simp add: skb_header_pointer_def copy_spec_def)
qed

section \<open>Property\<close>

text \<open>C4. On a buffer whose recorded length is the number of bytes it holds, and whatever the
  split into linear area, page fragments and (nested) chained buffers, \<open>skb_copy_bits\<close> and
  \<open>skb_header_pointer\<close> return exactly the \<open>len\<close> bytes at \<open>offset\<close> of the packet when the
  range lies inside it and \<open>-EFAULT\<close> (the null pointer) otherwise, and never read outside a
  fragment.\<close>

theorem skb_copy_bits_returns_range:
  assumes "skb_wf s" and "0 \<le> offset" and "0 \<le> len"
  defines "answer \<equiv> Some (if offset + len \<le> int (length (skb_bytes s))
      then Inr (take (nat len) (drop (nat offset) (skb_bytes s))) else Inl EFAULT)"
  shows "skb_copy_bits s offset len = answer \<and> skb_header_pointer s offset len = answer"
  using skb_copy_bits_correct [OF assms(1)] skb_header_pointer_correct [OF assms(1-3)] assms
  by (simp add: copy_spec_def skb_wf_len segment_def)

definition skb_example :: skb_data where
  "skb_example = Skb 9 [1, 2] [[3], [4, 5]] [Skb 4 [6] [[7, 8]] [Skb 1 [9] [] []]]"

theorem skb_copy_bits_returns_range_witness:
  "skb_copy_bits skb_example 1 7 = Some (Inr [2, 3, 4, 5, 6, 7, 8]) \<and>
   skb_copy_bits skb_example 3 7 = Some (Inl EFAULT)"
  using skb_copy_bits_returns_range [of skb_example 1 7] skb_copy_bits_returns_range [of skb_example 3 7]
  by (simp add: skb_example_def)

end
