(* ===== verification/Nlattr.thy ===== *)
theory Nlattr
  imports Kernel_Prelude
begin

text \<open>
  Netlink attributes: \<^verbatim>\<open>lib/nlattr.c\<close> and the inline functions of \<^verbatim>\<open>include/net/netlink.h\<close> it
  uses. A message is a byte list, a \<open>struct nlattr *\<close> an index into it; \<open>None\<close> is a read
  outside the message (or a \<open>BUG_ON\<close>). The two header fields are read in little-endian byte
  order. C \<open>int\<close> values are \<open>int\<close>.
\<close>

section \<open>Reading headers\<close>

definition get_u16 :: "u8 list \<Rightarrow> nat \<Rightarrow> u16 option" where
  "get_u16 d p =
     (if p + 2 \<le> length d then Some (ucast (d ! p) OR push_bit 8 (ucast (d ! Suc p))) else None)"

definition put_u16 :: "u16 \<Rightarrow> u8 list" where
  "put_u16 v = [ucast v, ucast (drop_bit 8 v)]"

definition nla_align :: "int \<Rightarrow> int" where
  "nla_align len = (len + 4 - 1) AND NOT (4 - 1)"

definition NLA_HDRLEN :: int where
  [simp]: "NLA_HDRLEN = 4"

definition nla_attr_size :: "int \<Rightarrow> int" where
  "nla_attr_size payload = NLA_HDRLEN + payload"

definition nla_total_size :: "int \<Rightarrow> int" where
  "nla_total_size payload = nla_align (nla_attr_size payload)"

definition nla_padlen :: "int \<Rightarrow> int" where
  "nla_padlen payload = nla_total_size payload - nla_attr_size payload"

text \<open>\<open>nla->nla_len\<close> and \<open>nla_type(nla)\<close>, which masks the two flag bits.\<close>

definition nlattr_len :: "u8 list \<Rightarrow> nat \<Rightarrow> int option" where
  "nlattr_len d p = map_option uint (get_u16 d p)"

definition nla_type :: "u8 list \<Rightarrow> nat \<Rightarrow> int option" where
  "nla_type d p = map_option (\<lambda>t. uint (t AND 0x3FFF)) (get_u16 d (p + 2))"

definition nla_len :: "u8 list \<Rightarrow> nat \<Rightarrow> int option" where
  "nla_len d p = map_option (\<lambda>l. l - NLA_HDRLEN) (nlattr_len d p)"

definition nla_ok :: "u8 list \<Rightarrow> nat \<Rightarrow> int \<Rightarrow> bool option" where
  "nla_ok d p remaining =
     (if remaining < 4 then Some False
      else map_option (\<lambda>l. 4 \<le> l \<and> l \<le> remaining) (nlattr_len d p))"

definition nla_next :: "int \<Rightarrow> nat \<Rightarrow> int \<Rightarrow> nat \<times> int" where
  "nla_next len p remaining = (let totlen = nla_align len in (p + nat totlen, remaining - totlen))"

text \<open>Reading \<open>n\<close> payload bytes from \<open>p\<close>.\<close>

definition read_bytes :: "u8 list \<Rightarrow> nat \<Rightarrow> int \<Rightarrow> u8 list option" where
  "read_bytes d p n = (if n < 0 then None else mem_read p (nat n) d)"

lemma nla_align_eq: "nla_align l = 4 * ((l + 3) div 4)"
proof -
  have "(l + 3) AND NOT (mask 2) = push_bit 2 (drop_bit 2 (l + 3))"
  proof (rule bit_eqI)
    fix n
    show "bit ((l + 3) AND NOT (mask 2)) n = bit (push_bit 2 (drop_bit 2 (l + 3))) n"
    proof (cases "2 \<le> n")
      case True
      then obtain m where "n = 2 + m" using le_Suc_ex by blast
      then show ?thesis by (simp add: bit_simps)
    qed (simp add: bit_simps)
  qed
  then show ?thesis
    by (simp add: nla_align_def mask_eq_exp_minus_1 push_bit_eq_mult drop_bit_eq_div add.commute)
qed

lemma nla_align_bounds: "l \<le> nla_align l" "nla_align l < l + 4"
  by (simp_all add: nla_align_eq)

section \<open>Iterating over a stream\<close>

text \<open>
  \<open>nla_for_each_attr(pos, head, len, rem)\<close> with a body that goes on with a new value of
  the loop's variables (\<open>Inr\<close>) or leaves the loop (\<open>Inl\<close>).
\<close>

function nla_for_each_attr ::
  "u8 list \<Rightarrow> (nat \<Rightarrow> 's \<Rightarrow> ('r + 's) option) \<Rightarrow> nat \<Rightarrow> int \<Rightarrow> 's \<Rightarrow> ('r + 's \<times> int) option" where
  "nla_for_each_attr d body pos rem s =
     (case nla_ok d pos rem of
        None \<Rightarrow> None
      | Some False \<Rightarrow> Some (Inr (s, rem))
      | Some True \<Rightarrow>
          (case body pos s of
             None \<Rightarrow> None
           | Some (Inl r) \<Rightarrow> Some (Inl r)
           | Some (Inr s') \<Rightarrow>
               (case nlattr_len d pos of
                  None \<Rightarrow> None
                | Some l \<Rightarrow>
                    let (pos', rem') = nla_next l pos rem
                    in nla_for_each_attr d body pos' rem' s')))"
  by pat_completeness auto
termination
proof (relation "measure (\<lambda>(d, body, pos, rem, s). nat rem)")
  fix d :: "u8 list" and body :: "nat \<Rightarrow> 's \<Rightarrow> ('r + 's) option" and pos rem s
    and x xa xb xc l y pos' rem'
  assume "nla_ok d pos rem = Some x" "x = True" "nlattr_len d pos = Some l"
    "y = nla_next l pos rem" "(pos', rem') = y"
  then show "((d, body, pos', rem', xc), d, body, pos, rem, s)
      \<in> measure (\<lambda>(d, body, pos, rem, s). nat rem)"
    using nla_align_bounds [of l]
    by (auto simp: nla_ok_def nla_next_def Let_def split: if_splits)
qed simp_all

section \<open>Operations on a stream\<close>

text \<open>\<open>nla_find\<close>: the inner option is the returned pointer.\<close>

definition nla_find :: "u8 list \<Rightarrow> nat \<Rightarrow> int \<Rightarrow> int \<Rightarrow> nat option option" where
  "nla_find d head len attrtype =
     (case nla_for_each_attr d
         (\<lambda>nla s. case nla_type d nla of
            None \<Rightarrow> None
          | Some t \<Rightarrow> Some (if t = attrtype then Inl nla else Inr s)) head len () of
        None \<Rightarrow> None
      | Some (Inl nla) \<Rightarrow> Some (Some nla)
      | Some (Inr _) \<Rightarrow> Some None)"

definition nla_find_nested :: "u8 list \<Rightarrow> nat \<Rightarrow> int \<Rightarrow> nat option option" where
  "nla_find_nested d nla attrtype =
     (case nla_len d nla of None \<Rightarrow> None | Some l \<Rightarrow> nla_find d (nla + 4) l attrtype)"

text \<open>Validation policies: the attribute types of \<^verbatim>\<open>include/net/netlink.h\<close> in its order.\<close>

datatype nla_ptype =
    NLA_UNSPEC | NLA_U8 | NLA_U16 | NLA_U32 | NLA_U64 | NLA_STRING | NLA_FLAG | NLA_MSECS
  | NLA_NESTED | NLA_NESTED_COMPAT | NLA_NUL_STRING | NLA_BINARY

record nla_policy =
  pol_type :: nla_ptype
  pol_len :: u16

fun nla_attr_minlen :: "nla_ptype \<Rightarrow> int" where
  "nla_attr_minlen NLA_U8 = 1"
| "nla_attr_minlen NLA_U16 = 2"
| "nla_attr_minlen NLA_U32 = 4"
| "nla_attr_minlen NLA_U64 = 8"
| "nla_attr_minlen NLA_NESTED = NLA_HDRLEN"
| "nla_attr_minlen _ = 0"

text \<open>The \<open>NLA_STRING\<close> case of \<open>validate_nla\<close>, which \<open>NLA_NUL_STRING\<close> falls through to, and the
  default case, which \<open>NLA_NESTED\<close> falls through to.\<close>

definition validate_string :: "u8 list \<Rightarrow> nat \<Rightarrow> int \<Rightarrow> int \<Rightarrow> unit result option" where
  "validate_string d nla attrlen plen =
     (if attrlen < 1 then Some (Inl ERANGE)
      else if plen \<noteq> 0 then
        (case read_bytes d (nla + 4 + nat (attrlen - 1)) 1 of
           None \<Rightarrow> None
         | Some bs \<Rightarrow>
             if (if bs = [0] then attrlen - 1 else attrlen) > plen then Some (Inl ERANGE)
             else Some (Inr ()))
      else Some (Inr ()))"

definition validate_minlen :: "nla_ptype \<Rightarrow> int \<Rightarrow> int \<Rightarrow> unit result option" where
  "validate_minlen pt attrlen plen =
     (let minlen = (if plen \<noteq> 0 then plen
                    else if pt \<noteq> NLA_UNSPEC then nla_attr_minlen pt else 0)
      in if attrlen < minlen then Some (Inl ERANGE) else Some (Inr ()))"

definition validate_nla :: "u8 list \<Rightarrow> nat \<Rightarrow> int \<Rightarrow> nla_policy list \<Rightarrow> unit result option" where
  "validate_nla d nla maxtype policy =
     do {
       attrlen \<leftarrow> nla_len d nla;
       ty \<leftarrow> nla_type d nla;
       if ty \<le> 0 \<or> ty > maxtype then Some (Inr ())
       else if length policy \<le> nat ty then None
       else let pt = policy ! nat ty; plen = uint (pol_len pt) in
         (case pol_type pt of
            NLA_FLAG \<Rightarrow> if attrlen > 0 then Some (Inl ERANGE) else Some (Inr ())
          | NLA_NUL_STRING \<Rightarrow>
              let minlen = (if plen \<noteq> 0 then min attrlen (plen + 1) else attrlen) in
              if minlen = 0 then Some (Inl EINVAL)
              else (case read_bytes d (nla + 4) minlen of
                      None \<Rightarrow> None
                    | Some bs \<Rightarrow>
                        if 0 \<notin> set bs then Some (Inl EINVAL)
                        else validate_string d nla attrlen plen)
          | NLA_STRING \<Rightarrow> validate_string d nla attrlen plen
          | NLA_BINARY \<Rightarrow>
              if plen \<noteq> 0 \<and> attrlen > plen then Some (Inl ERANGE) else Some (Inr ())
          | NLA_NESTED_COMPAT \<Rightarrow>
              if attrlen < plen then Some (Inl ERANGE)
              else if attrlen < nla_align plen then Some (Inr ())
              else if attrlen < nla_align plen + NLA_HDRLEN then Some (Inl ERANGE)
              else (case nla_len d (nla + 4 + nat (nla_align plen)) of
                      None \<Rightarrow> None
                    | Some nested \<Rightarrow>
                        if attrlen < nla_align plen + NLA_HDRLEN + nested
                        then Some (Inl ERANGE) else Some (Inr ()))
          | NLA_NESTED \<Rightarrow>
              if attrlen = 0 then Some (Inr ()) else validate_minlen NLA_NESTED attrlen plen
          | t \<Rightarrow> validate_minlen t attrlen plen)
     }"

definition nla_validate :: "u8 list \<Rightarrow> nat \<Rightarrow> int \<Rightarrow> int \<Rightarrow> nla_policy list \<Rightarrow> unit result option" where
  "nla_validate d head len maxtype policy =
     (case nla_for_each_attr d
         (\<lambda>nla s. case validate_nla d nla maxtype policy of
            None \<Rightarrow> None
          | Some (Inl e) \<Rightarrow> Some (Inl e)
          | Some (Inr _) \<Rightarrow> Some (Inr s)) head len () of
        None \<Rightarrow> None
      | Some (Inl e) \<Rightarrow> Some (Inl e)
      | Some (Inr _) \<Rightarrow> Some (Inr ()))"

text \<open>
  \<open>nla_policy_len\<close>: the loop counts \<open>i\<close> but never advances \<open>p\<close>, so every iteration looks at
  the first policy.
\<close>

fun nla_policy_len :: "nla_policy list \<Rightarrow> nat \<Rightarrow> int option" where
  "nla_policy_len p 0 = Some 0"
| "nla_policy_len [] (Suc n) = None"
| "nla_policy_len (p # ps) (Suc n) =
     (case nla_policy_len (p # ps) n of
        None \<Rightarrow> None
      | Some len \<Rightarrow>
          Some (len +
            (if pol_len p \<noteq> 0 then nla_total_size (uint (pol_len p))
             else if nla_attr_minlen (pol_type p) \<noteq> 0
                  then nla_total_size (nla_attr_minlen (pol_type p)) else 0)))"

text \<open>
  \<open>nla_parse\<close>: \<open>tb\<close> has \<open>maxtype + 1\<close> entries; the policy is optional. The result is the
  table even on error (the entries stored before the failing attribute remain), with the
  return value.
\<close>

definition nla_parse ::
  "nat \<Rightarrow> u8 list \<Rightarrow> nat \<Rightarrow> int \<Rightarrow> nla_policy list option \<Rightarrow> (nat option list \<times> unit result) option" where
  "nla_parse maxtype d head len policy =
     (case nla_for_each_attr d
         (\<lambda>nla tb. case nla_type d nla of
            None \<Rightarrow> None
          | Some ty \<Rightarrow>
              if ty > 0 \<and> ty \<le> int maxtype then
                (case (case policy of None \<Rightarrow> Some (Inr ())
                       | Some pol \<Rightarrow> validate_nla d nla (int maxtype) pol) of
                   None \<Rightarrow> None
                 | Some (Inl e) \<Rightarrow> Some (Inl (tb, e))
                 | Some (Inr _) \<Rightarrow> Some (Inr (tb[nat ty := Some nla])))
              else Some (Inr tb)) head len (replicate (Suc maxtype) None) of
        None \<Rightarrow> None
      | Some (Inl (tb, e)) \<Rightarrow> Some (tb, Inl e)
      | Some (Inr (tb, rem)) \<Rightarrow> Some (tb, Inr ()))"

section \<open>Copying and comparing payloads\<close>

definition nla_strlcpy :: "u8 list \<Rightarrow> u8 list \<Rightarrow> nat \<Rightarrow> (u8 list \<times> int) option" where
  "nla_strlcpy dst d nla =
     do {
       l \<leftarrow> nla_len d nla;
       if l < 0 then None
       else do {
         last \<leftarrow> (if l > 0 then read_bytes d (nla + 4 + nat (l - 1)) 1 else Some []);
         let srclen = (if last = [0] then l - 1 else l);
         if dst = [] then Some (dst, srclen)
         else do {
           let len = (if srclen \<ge> int (length dst) then int (length dst) - 1 else srclen);
           bs \<leftarrow> read_bytes d (nla + 4) len;
           dst' \<leftarrow> mem_write 0 bs (replicate (length dst) 0);
           Some (dst', srclen)
         }
       }
     }"

definition nla_memcpy :: "u8 list \<Rightarrow> u8 list \<Rightarrow> nat \<Rightarrow> int \<Rightarrow> (u8 list \<times> int) option" where
  "nla_memcpy dest d nla count =
     do {
       l \<leftarrow> nla_len d nla;
       let minlen = min count l;
       bs \<leftarrow> read_bytes d (nla + 4) minlen;
       dest' \<leftarrow> mem_write 0 bs dest;
       Some (dest', minlen)
     }"

text \<open>\<open>memcmp\<close> of \<^verbatim>\<open>lib/string.c\<close>: the difference of the first bytes that differ.\<close>

fun memcmp :: "u8 list \<Rightarrow> u8 list \<Rightarrow> int" where
  "memcmp (x # xs) (y # ys) = (if x \<noteq> y then uint x - uint y else memcmp xs ys)"
| "memcmp _ _ = 0"

definition nla_memcmp :: "u8 list \<Rightarrow> nat \<Rightarrow> u8 list \<Rightarrow> int option" where
  "nla_memcmp d nla other =
     do {
       l \<leftarrow> nla_len d nla;
       let diff = l - int (length other);
       if diff = 0 then do {
         bs \<leftarrow> read_bytes d (nla + 4) (int (length other));
         Some (memcmp bs other)
       } else Some diff
     }"

text \<open>\<open>nla_strcmp\<close> against the NUL-terminated string with the characters \<open>str\<close>.\<close>

definition nla_strcmp :: "u8 list \<Rightarrow> nat \<Rightarrow> u8 list \<Rightarrow> int option" where
  "nla_strcmp d nla str =
     do {
       l \<leftarrow> nla_len d nla;
       let len = int (length str) + 1;
       let diff = l - len;
       if diff = 0 then do {
         bs \<leftarrow> read_bytes d (nla + 4) len;
         Some (memcmp bs (str @ [0]))
       } else Some diff
     }"

section \<open>Building messages\<close>

text \<open>
  A linear buffer under construction: the bytes up to the tail, and whatever bytes happen
  to lie in the tailroom. \<open>skb_put\<close> panics (\<open>None\<close>) when the room is exceeded, and hands out
  the stale bytes.
\<close>

record nlbuf =
  nb_data :: "u8 list"
  nb_room :: "u8 list"

definition skb_put :: "int \<Rightarrow> nlbuf \<Rightarrow> (nat \<times> nlbuf) option" where
  "skb_put n skb =
     (if 0 \<le> n \<and> nat n \<le> length (nb_room skb)
      then Some (length (nb_data skb),
        \<lparr>nb_data = nb_data skb @ take (nat n) (nb_room skb), nb_room = drop (nat n) (nb_room skb)\<rparr>)
      else None)"

definition skb_tailroom :: "nlbuf \<Rightarrow> int" where
  "skb_tailroom skb = int (length (nb_room skb))"

definition buf_write :: "nat \<Rightarrow> u8 list \<Rightarrow> nlbuf \<Rightarrow> nlbuf option" where
  "buf_write p bs skb = map_option (\<lambda>d. skb\<lparr>nb_data := d\<rparr>) (mem_write p bs (nb_data skb))"

definition raw_nla_reserve :: "int \<Rightarrow> int \<Rightarrow> nlbuf \<Rightarrow> (nat \<times> nlbuf) option" where
  "raw_nla_reserve attrtype attrlen skb =
     do {
       (nla, skb) \<leftarrow> skb_put (nla_total_size attrlen) skb;
       skb \<leftarrow> buf_write (nla + 2) (put_u16 (word_of_int attrtype)) skb;
       let len = (word_of_int (nla_attr_size attrlen) :: u16);
       skb \<leftarrow> buf_write nla (put_u16 len) skb;
       skb \<leftarrow> buf_write (nla + unat len) (replicate (nat (nla_padlen attrlen)) 0) skb;
       Some (nla, skb)
     }"

definition raw_nla_reserve_nohdr :: "int \<Rightarrow> nlbuf \<Rightarrow> (nat \<times> nlbuf) option" where
  "raw_nla_reserve_nohdr attrlen skb =
     do {
       (start, skb) \<leftarrow> skb_put (nla_align attrlen) skb;
       skb \<leftarrow> buf_write start (replicate (nat (nla_align attrlen)) 0) skb;
       Some (start, skb)
     }"

definition nla_reserve :: "int \<Rightarrow> int \<Rightarrow> nlbuf \<Rightarrow> (nat option \<times> nlbuf) option" where
  "nla_reserve attrtype attrlen skb =
     (if skb_tailroom skb < nla_total_size attrlen then Some (None, skb)
      else map_option (\<lambda>(nla, skb). (Some nla, skb)) (raw_nla_reserve attrtype attrlen skb))"

definition nla_reserve_nohdr :: "int \<Rightarrow> nlbuf \<Rightarrow> (nat option \<times> nlbuf) option" where
  "nla_reserve_nohdr attrlen skb =
     (if skb_tailroom skb < nla_align attrlen then Some (None, skb)
      else map_option (\<lambda>(start, skb). (Some start, skb)) (raw_nla_reserve_nohdr attrlen skb))"

text \<open>The payload is passed with its length, \<open>attrlen = length payload\<close>.\<close>

definition raw_nla_put :: "int \<Rightarrow> u8 list \<Rightarrow> nlbuf \<Rightarrow> nlbuf option" where
  "raw_nla_put attrtype payload skb =
     do {
       (nla, skb) \<leftarrow> raw_nla_reserve attrtype (int (length payload)) skb;
       buf_write (nla + 4) payload skb
     }"

definition raw_nla_put_nohdr :: "u8 list \<Rightarrow> nlbuf \<Rightarrow> nlbuf option" where
  "raw_nla_put_nohdr payload skb =
     do {
       (start, skb) \<leftarrow> raw_nla_reserve_nohdr (int (length payload)) skb;
       buf_write start payload skb
     }"

definition nla_put :: "int \<Rightarrow> u8 list \<Rightarrow> nlbuf \<Rightarrow> (unit result \<times> nlbuf) option" where
  "nla_put attrtype payload skb =
     (if skb_tailroom skb < nla_total_size (int (length payload)) then Some (Inl EMSGSIZE, skb)
      else map_option (\<lambda>skb. (Inr (), skb)) (raw_nla_put attrtype payload skb))"

definition nla_put_nohdr :: "u8 list \<Rightarrow> nlbuf \<Rightarrow> (unit result \<times> nlbuf) option" where
  "nla_put_nohdr payload skb =
     (if skb_tailroom skb < nla_align (int (length payload)) then Some (Inl EMSGSIZE, skb)
      else map_option (\<lambda>skb. (Inr (), skb)) (raw_nla_put_nohdr payload skb))"

definition nla_append :: "u8 list \<Rightarrow> nlbuf \<Rightarrow> (unit result \<times> nlbuf) option" where
  "nla_append payload skb =
     (if skb_tailroom skb < nla_align (int (length payload)) then Some (Inl EMSGSIZE, skb)
      else do {
        (start, skb) \<leftarrow> skb_put (int (length payload)) skb;
        skb \<leftarrow> buf_write start payload skb;
        Some (Inr (), skb)
      })"

section \<open>Memory safety on arbitrary input\<close>

text \<open>An attribute that lies inside the message: its header and its \<open>l\<close> bytes.\<close>

definition attr_at :: "u8 list \<Rightarrow> nat \<Rightarrow> int \<Rightarrow> bool" where
  "attr_at d p l \<longleftrightarrow> nlattr_len d p = Some l \<and> 4 \<le> l \<and> int p + l \<le> int (length d)"

lemma get_u16_Some: "p + 2 \<le> length d \<Longrightarrow> \<exists>v. get_u16 d p = Some v"
  by (simp add: get_u16_def)

lemma attr_at_type: "attr_at d p l \<Longrightarrow> \<exists>t. nla_type d p = Some t"
  by (simp add: attr_at_def nla_type_def get_u16_Some)

lemma attr_at_len: "attr_at d p l \<Longrightarrow> nla_len d p = Some (l - 4)"
  by (simp add: attr_at_def nla_len_def)

lemma nla_ok_inside:
  assumes "int p + rem \<le> int (length d)"
  shows "nla_ok d p rem = Some False \<or> (\<exists>l. nla_ok d p rem = Some True \<and> attr_at d p l \<and> l \<le> rem)"
proof (cases "rem < 4")
  case True
  then show ?thesis by (simp add: nla_ok_def)
next
  case False
  then obtain v where "get_u16 d p = Some v" using assms get_u16_Some [of p d] by auto
  with False assms show ?thesis by (auto simp: nla_ok_def attr_at_def nlattr_len_def)
qed

declare nla_for_each_attr.simps [simp del]

text \<open>
  The rule for the loop: a predicate on the loop's variables that every iteration on an
  attribute inside the message keeps holds for the value at the end, and the loop never
  reads outside the message.
\<close>

lemma nla_for_each_attr_rule:
  assumes "int p + rem \<le> int (length d)" and "I s"
    and step: "\<And>q l s. attr_at d q l \<Longrightarrow> int p \<le> int q \<Longrightarrow> int q + l \<le> int p + rem \<Longrightarrow> I s \<Longrightarrow>
      \<exists>x. body q s = Some x \<and> (case x of Inl r \<Rightarrow> Q r | Inr s' \<Rightarrow> I s')"
  shows "\<exists>x. nla_for_each_attr d body p rem s = Some x \<and>
    (case x of Inl r \<Rightarrow> Q r | Inr (s', rem') \<Rightarrow> I s')"
  using assms
proof (induction d body p rem s rule: nla_for_each_attr.induct)
  case (1 d body pos rem s)
  show ?case
  proof (cases "nla_ok d pos rem = Some False")
    case True
    with "1.prems" show ?thesis by (simp add: nla_for_each_attr.simps [of d body pos rem])
  next
    case False
    then obtain l where ok: "nla_ok d pos rem = Some True" "attr_at d pos l" "l \<le> rem"
      using nla_ok_inside [OF "1.prems"(1)] by auto
    obtain x where x: "body pos s = Some x" "case x of Inl r \<Rightarrow> Q r | Inr s' \<Rightarrow> I s'"
      using "1.prems"(3) [OF ok(2)] ok(3) "1.prems"(2) by auto
    have len: "nlattr_len d pos = Some l" using ok(2) by (simp add: attr_at_def)
    show ?thesis
    proof (cases x)
      case (Inl r)
      with x ok show ?thesis by (simp add: nla_for_each_attr.simps [of d body pos rem])
    next
      case (Inr s')
      let ?n = "nla_align l"
      have "0 \<le> ?n" using nla_align_bounds [of l] ok(2) by (simp add: attr_at_def)
      have "\<exists>x. nla_for_each_attr d body (pos + nat ?n) (rem - ?n) s' = Some x \<and>
          (case x of Inl r \<Rightarrow> Q r | Inr (s', rem') \<Rightarrow> I s')"
      proof (rule "1.IH")
        show "int (pos + nat ?n) + (rem - ?n) \<le> int (length d)"
          using "1.prems"(1) \<open>0 \<le> ?n\<close> by simp
        show "\<exists>x. body q s = Some x \<and> (case x of Inl r \<Rightarrow> Q r | Inr s' \<Rightarrow> I s')"
          if "attr_at d q l'" "int (pos + nat ?n) \<le> int q" "int q + l' \<le> int (pos + nat ?n) + (rem - ?n)"
            "I s" for q l' s
          using that \<open>0 \<le> ?n\<close> by (intro "1.prems"(3)) auto
      qed (use x ok Inr len in \<open>auto simp: nla_next_def Let_def\<close>)
      with x ok Inr len show ?thesis
        by (simp add: nla_for_each_attr.simps [of d body pos rem] nla_next_def Let_def)
    qed
  qed
qed

lemma read_bytes_inside:
  "0 \<le> n \<Longrightarrow> int p + n \<le> int (length d) \<Longrightarrow> \<exists>bs. read_bytes d p n = Some bs \<and> int (length bs) = n"
  by (auto simp: read_bytes_def mem_read_def)

lemma validate_string_safe:
  assumes "attr_at d p l"
  shows "\<exists>r. validate_string d p (l - 4) plen = Some r"
proof (cases "l - 4 < 1 \<or> plen = 0")
  case True
  then show ?thesis by (auto simp: validate_string_def)
next
  case False
  then have "int (p + 4 + nat (l - 4 - 1)) + 1 \<le> int (length d)"
    using assms by (simp add: attr_at_def)
  then obtain bs where "read_bytes d (p + 4 + nat (l - 4 - 1)) 1 = Some bs"
    using read_bytes_inside [of 1 "p + 4 + nat (l - 4 - 1)" d] by auto
  with False show ?thesis by (simp add: validate_string_def)
qed

lemma validate_nul_string_safe:
  assumes at: "attr_at d p l" and n: "n = (if plen \<noteq> 0 then min (l - 4) (plen + 1) else l - 4)"
    and plen: "0 \<le> plen"
  shows "\<exists>r. (if n = 0 then Some (Inl EINVAL)
    else (case read_bytes d (p + 4) n of None \<Rightarrow> None
          | Some bs \<Rightarrow> if 0 \<notin> set bs then Some (Inl EINVAL) else validate_string d p (l - 4) plen)) = Some r"
proof -
  have "0 \<le> n" "int (p + 4) + n \<le> int (length d)" using assms by (auto simp: attr_at_def)
  then obtain bs where "read_bytes d (p + 4) n = Some bs"
    using read_bytes_inside [of n "p + 4" d] by auto
  then show ?thesis using validate_string_safe [OF at, of plen] by simp
qed

lemma nested_header_safe:
  assumes "attr_at d p l" "nla_align plen + 4 \<le> l - 4" "0 \<le> plen"
  shows "\<exists>n. nla_len d (p + 4 + nat (nla_align plen)) = Some n"
  using assms nla_align_bounds [of plen] get_u16_Some [of "p + 4 + nat (nla_align plen)" d]
  by (auto simp: nla_len_def nlattr_len_def attr_at_def)

lemma validate_nla_safe:
  assumes at: "attr_at d p l" and pol: "maxtype < length policy"
  shows "\<exists>r. validate_nla d p (int maxtype) policy = Some r"
proof -
  obtain t where t: "nla_type d p = Some t" using attr_at_type [OF at] by blast
  have len: "nla_len d p = Some (l - 4)" by (rule attr_at_len [OF at])
  show ?thesis
  proof (cases "t \<le> 0 \<or> t > int maxtype")
    case True
    with t len show ?thesis by (simp add: validate_nla_def)
  next
    case False
    then have in_pol: "\<not> length policy \<le> nat t" using pol by linarith
    define plen where "plen = uint (pol_len (policy ! nat t))"
    have "0 \<le> plen" by (simp add: plen_def)
    note rules = validate_nla_def t len False in_pol Let_def
    show ?thesis
    proof (cases "pol_type (policy ! nat t)")
      case NLA_NUL_STRING
      with validate_nul_string_safe [OF at refl \<open>0 \<le> plen\<close>, unfolded plen_def] show ?thesis
        by (simp add: rules)
    next
      case NLA_STRING
      with validate_string_safe [OF at] show ?thesis by (simp add: rules)
    next
      case NLA_NESTED_COMPAT
      with nested_header_safe [OF at _ \<open>0 \<le> plen\<close>] show ?thesis
        by (cases "l - 4 < nla_align plen + 4") (auto simp: rules plen_def)
    qed (simp_all add: rules validate_minlen_def)
  qed
qed

text \<open>
  C5. Parsing never reads outside the message, whatever its bytes are: if the \<open>len\<close> bytes from
  \<open>head\<close> lie in the buffer and the policy array covers \<open>maxtype\<close>, then \<open>nla_parse\<close>
  returns; every pointer it leaves in the table, also on the error path, is the pointer of an
  attribute of that type which lies completely inside the stream and which the policy accepts.
\<close>

theorem nla_parse_memory_safe:
  assumes "int head + len \<le> int (length d)"
    and "\<forall>pol. policy = Some pol \<longrightarrow> maxtype < length pol"
  shows "\<exists>tb r. nla_parse maxtype d head len policy = Some (tb, r) \<and> length tb = Suc maxtype \<and>
    (\<forall>t p. t \<le> maxtype \<longrightarrow> tb ! t = Some p \<longrightarrow>
      0 < t \<and> nla_type d p = Some (int t) \<and> head \<le> p \<and>
      (\<exists>l. attr_at d p l \<and> int p + l \<le> int head + len) \<and>
      (\<forall>pol. policy = Some pol \<longrightarrow> validate_nla d p (int maxtype) pol = Some (Inr ())))"
proof -
  define good where "good = (\<lambda>tb :: nat option list. length tb = Suc maxtype \<and>
    (\<forall>t p. t \<le> maxtype \<longrightarrow> tb ! t = Some p \<longrightarrow>
      0 < t \<and> nla_type d p = Some (int t) \<and> head \<le> p \<and>
      (\<exists>l. attr_at d p l \<and> int p + l \<le> int head + len) \<and>
      (\<forall>pol. policy = Some pol \<longrightarrow> validate_nla d p (int maxtype) pol = Some (Inr ()))))"
  define body where "body = (\<lambda>nla (tb :: nat option list). case nla_type d nla of
      None \<Rightarrow> None
    | Some ty \<Rightarrow>
        if ty > 0 \<and> ty \<le> int maxtype then
          (case (case policy of None \<Rightarrow> Some (Inr ())
                 | Some pol \<Rightarrow> validate_nla d nla (int maxtype) pol) of
             None \<Rightarrow> None
           | Some (Inl e) \<Rightarrow> Some (Inl (tb, e))
           | Some (Inr _) \<Rightarrow> Some (Inr (tb[nat ty := Some nla])))
        else Some (Inr tb))"
  have start: "good (replicate (Suc maxtype) None)"
    by (simp add: good_def nth_Cons split: nat.split)
  have step: "\<exists>x. body q tb = Some x \<and>
      (case x of Inl r \<Rightarrow> good (fst r) | Inr tb' \<Rightarrow> good tb')"
    if at: "attr_at d q l" "int head \<le> int q" "int q + l \<le> int head + len" "good tb" for q l tb
  proof -
    obtain ty where ty: "nla_type d q = Some ty" using attr_at_type [OF at(1)] by blast
    obtain v where v: "(case policy of None \<Rightarrow> Some (Inr ())
        | Some pol \<Rightarrow> validate_nla d q (int maxtype) pol) = Some v"
      using validate_nla_safe [OF at(1), of maxtype] assms(2) by (cases policy) auto
    have "good (tb[nat ty := Some q])" if "0 < ty" "ty \<le> int maxtype" "v = Inr ()"
      using that at ty v by (auto simp: good_def nth_list_update)
    with at(4) show ?thesis
      by (cases v) (auto simp: body_def ty v)
  qed
  obtain x where x: "nla_for_each_attr d body head len (replicate (Suc maxtype) None) = Some x"
    "case x of Inl r \<Rightarrow> good (fst r) | Inr (tb, rem) \<Rightarrow> good tb"
    using nla_for_each_attr_rule [of head len d good _ body "\<lambda>r. good (fst r)", OF assms(1) start]
      step by blast
  have "\<exists>tb r. nla_parse maxtype d head len policy = Some (tb, r) \<and> good tb"
    using x by (auto simp: nla_parse_def body_def [symmetric] split: sum.splits)
  then show ?thesis unfolding good_def by blast
qed

definition nl_msg :: "u8 list" where
  "nl_msg = [8, 0, 1, 0, 7, 0, 0, 0, 5, 0, 2, 0, 9, 0, 0, 0]"

definition nl_pol :: "nla_policy list" where
  "nl_pol = [\<lparr>pol_type = NLA_UNSPEC, pol_len = 0\<rparr>, \<lparr>pol_type = NLA_U32, pol_len = 0\<rparr>,
             \<lparr>pol_type = NLA_STRING, pol_len = 4\<rparr>]"

theorem nla_parse_memory_safe_witness:
  "\<exists>tb r. nla_parse 2 nl_msg 0 16 (Some nl_pol) = Some (tb, r) \<and> length tb = Suc 2"
  using nla_parse_memory_safe [of 0 16 nl_msg "Some nl_pol" 2]
  by (auto simp: nl_msg_def nl_pol_def)

section \<open>Round trip\<close>

text \<open>The bytes of one attribute, and of a stream of attributes.\<close>

definition nla_encode :: "int \<Rightarrow> u8 list \<Rightarrow> u8 list" where
  "nla_encode ty payload =
     put_u16 (word_of_int (4 + int (length payload))) @ put_u16 (word_of_int ty) @ payload @
     replicate (nat (nla_padlen (int (length payload)))) 0"

definition nla_stream :: "(int \<times> u8 list) list \<Rightarrow> u8 list" where
  "nla_stream attrs = concat (map (\<lambda>(ty, payload). nla_encode ty payload) attrs)"

fun nla_puts :: "(int \<times> u8 list) list \<Rightarrow> nlbuf \<Rightarrow> (unit result \<times> nlbuf) option" where
  "nla_puts [] skb = Some (Inr (), skb)"
| "nla_puts ((ty, payload) # attrs) skb =
     (case nla_put ty payload skb of
        None \<Rightarrow> None
      | Some (Inl e, skb) \<Rightarrow> Some (Inl e, skb)
      | Some (Inr _, skb) \<Rightarrow> nla_puts attrs skb)"

definition attr_ok :: "int \<times> u8 list \<Rightarrow> bool" where
  "attr_ok a \<longleftrightarrow> 0 < fst a \<and> fst a < 2 ^ 14 \<and> length (snd a) + 4 < 2 ^ 16"

lemma get_put_u16: "get_u16 (pre @ put_u16 v @ post) (length pre) = Some v"
proof -
  have "ucast (ucast v :: u8) OR push_bit 8 (ucast (ucast (drop_bit 8 v) :: u8)) = v"
    by (rule bit_word_eqI) (auto simp: bit_simps)
  then show ?thesis by (simp add: get_u16_def put_u16_def nth_append)
qed

lemma get_put_u16_at:
  "q = length pre \<Longrightarrow> get_u16 (pre @ put_u16 v @ post) q = Some v"
  by (simp add: get_put_u16)

lemma length_put_u16 [simp]: "length (put_u16 v) = 2"
  by (simp add: put_u16_def)

lemma nla_padlen_nonneg: "0 \<le> nla_padlen n" "nla_padlen n < 4"
  using nla_align_bounds [of "4 + n"]
  by (simp_all add: nla_padlen_def nla_total_size_def nla_attr_size_def)

lemma length_nla_encode: "int (length (nla_encode ty payload)) = nla_align (4 + int (length payload))"
  using nla_padlen_nonneg(1) [of "int (length payload)"]
  by (simp add: nla_encode_def nla_padlen_def nla_total_size_def nla_attr_size_def)

lemma attr_ok_len: "attr_ok (ty, payload) \<Longrightarrow>
    uint (word_of_int (4 + int (length payload)) :: u16) = 4 + int (length payload)"
  by (simp only: uint_word_of_int) (simp add: attr_ok_def)

lemma attr_ok_type: "attr_ok (ty, payload) \<Longrightarrow> uint ((word_of_int ty :: u16) AND 0x3FFF) = ty"
proof -
  assume "attr_ok (ty, payload)"
  then have ty: "0 \<le> ty" "ty < 2 ^ 14" by (auto simp: attr_ok_def)
  have "(0x3FFF :: u16) = mask 14" by (simp add: mask_eq_exp_minus_1)
  then have "uint ((word_of_int ty :: u16) AND 0x3FFF) = take_bit 14 (uint (word_of_int ty :: u16))"
    by (simp only: take_bit_eq_mask [symmetric] unsigned_take_bit_eq)
  with ty show ?thesis by (simp add: uint_word_of_int take_bit_eq_mod)
qed

text \<open>What the accessors read at the start of an encoded attribute.\<close>

lemma encoded_attr:
  assumes "attr_ok (ty, payload)" and d: "d = pre @ nla_encode ty payload @ post"
  shows "nlattr_len d (length pre) = Some (4 + int (length payload))"
    and "nla_type d (length pre) = Some ty"
    and "read_bytes d (length pre + 4) (int (length payload)) = Some payload"
proof -
  let ?len = "put_u16 (word_of_int (4 + int (length payload)))"
  have "get_u16 d (length pre) = Some (word_of_int (4 + int (length payload)))"
    by (simp add: d nla_encode_def get_put_u16)
  then show "nlattr_len d (length pre) = Some (4 + int (length payload))"
    by (simp only: nlattr_len_def option.map attr_ok_len [OF assms(1)])
  have "get_u16 ((pre @ ?len) @ put_u16 (word_of_int ty) @
      (payload @ replicate (nat (nla_padlen (int (length payload)))) 0) @ post) (length pre + 2)
    = Some (word_of_int ty)"
    by (rule get_put_u16_at) simp
  then show "nla_type d (length pre) = Some ty"
    by (simp add: d nla_encode_def nla_type_def attr_ok_type [OF assms(1)])
  show "read_bytes d (length pre + 4) (int (length payload)) = Some payload"
    by (simp add: d nla_encode_def read_bytes_def mem_read_def)
qed

definition nla_payload :: "u8 list \<Rightarrow> nat \<Rightarrow> u8 list option" where
  "nla_payload d nla = do { l \<leftarrow> nla_len d nla; read_bytes d (nla + 4) l }"

lemma nla_stream_Cons [simp]:
  "nla_stream ((ty, payload) # attrs) = nla_encode ty payload @ nla_stream attrs"
  by (simp add: nla_stream_def)

lemma nla_stream_Nil [simp]: "nla_stream [] = []"
  by (simp add: nla_stream_def)

text \<open>One iteration of the loop on an encoded stream, and its end.\<close>

lemma nla_for_each_attr_stream:
  assumes "attr_ok (ty, payload)" and d: "d = pre @ nla_stream ((ty, payload) # attrs) @ post"
  shows "nla_for_each_attr d body (length pre)
      (int (length (nla_encode ty payload)) + int (length (nla_stream attrs))) s =
    (case body (length pre) s of
       None \<Rightarrow> None
     | Some (Inl r) \<Rightarrow> Some (Inl r)
     | Some (Inr s') \<Rightarrow> nla_for_each_attr d body (length pre + length (nla_encode ty payload))
         (int (length (nla_stream attrs))) s')"
proof -
  have d': "d = pre @ nla_encode ty payload @ (nla_stream attrs @ post)" by (simp add: d)
  let ?l = "4 + int (length payload)"
  note enc = encoded_attr [OF assms(1) d']
  let ?rem = "int (length (nla_encode ty payload)) + int (length (nla_stream attrs))"
  have "nla_ok d (length pre) ?rem = Some True"
    using nla_align_bounds [of ?l] by (simp add: nla_ok_def enc length_nla_encode)
  moreover have "nla_next ?l (length pre) ?rem =
      (length pre + length (nla_encode ty payload), int (length (nla_stream attrs)))"
    using length_nla_encode [of ty payload] by (simp add: nla_next_def Let_def)
  ultimately show ?thesis
    by (simp add: nla_for_each_attr.simps [of d body "length pre"] enc
        split: option.split sum.split)
qed

lemma nla_for_each_attr_done: "nla_for_each_attr d body p 0 s = Some (Inr (s, 0))"
  by (simp add: nla_for_each_attr.simps [of d body p] nla_ok_def)

lemma nla_find_stream:
  assumes "\<forall>a \<in> set attrs. attr_ok a" and "d = pre @ nla_stream attrs @ post"
  shows "\<exists>r. nla_find d (length pre) (int (length (nla_stream attrs))) ty = Some r \<and>
    Option.bind r (nla_payload d) = map_of attrs ty"
  using assms
proof (induction attrs arbitrary: pre)
  case Nil
  then show ?case by (simp add: nla_find_def nla_for_each_attr_done)
next
  case (Cons a attrs)
  obtain ty' payload where a: "a = (ty', payload)" by (cases a)
  have ok: "attr_ok (ty', payload)" using Cons.prems a by simp
  have d: "d = pre @ nla_stream ((ty', payload) # attrs) @ post"
    and d': "d = pre @ nla_encode ty' payload @ (nla_stream attrs @ post)"
    using Cons.prems a by simp_all
  note enc = encoded_attr [OF ok d']
  have pay: "nla_payload d (length pre) = Some payload"
    by (simp add: nla_payload_def nla_len_def enc)
  have IH: "\<exists>r. nla_find d (length (pre @ nla_encode ty' payload)) (int (length (nla_stream attrs))) ty
      = Some r \<and> Option.bind r (nla_payload d) = map_of attrs ty"
    using Cons.prems a by (intro Cons.IH) simp_all
  show ?case
  proof (cases "ty' = ty")
    case True
    with pay show ?thesis unfolding a nla_find_def
      by (simp add: nla_for_each_attr_stream [OF ok d, unfolded True] enc)
  next
    case False
    then show ?thesis using IH unfolding a nla_find_def
      by (simp add: nla_for_each_attr_stream [OF ok d] enc)
  qed
qed

lemma nla_parse_stream:
  assumes "\<forall>a \<in> set attrs. attr_ok a" and "d = pre @ nla_stream attrs @ post"
    and "length tb = Suc maxtype"
  shows "\<exists>tb'. nla_for_each_attr d
      (\<lambda>nla tb. case nla_type d nla of
         None \<Rightarrow> None
       | Some ty \<Rightarrow> if ty > 0 \<and> ty \<le> int maxtype then Some (Inr (tb[nat ty := Some nla]))
           else Some (Inr tb))
      (length pre) (int (length (nla_stream attrs))) tb = Some (Inr (tb', 0) :: 'e + _) \<and>
    length tb' = Suc maxtype \<and>
    (\<forall>t \<le> maxtype. Option.bind (tb' ! t) (nla_payload d) =
      (case map_of (rev attrs) (int t) of
         Some payload \<Rightarrow> Some payload | None \<Rightarrow> Option.bind (tb ! t) (nla_payload d)))"
    (is "\<exists>tb'. nla_for_each_attr d ?body _ _ _ = _ \<and> _")
  using assms
proof (induction attrs arbitrary: pre tb)
  case Nil
  then show ?case by (simp add: nla_for_each_attr_done)
next
  case (Cons a attrs)
  obtain ty payload where a: "a = (ty, payload)" by (cases a)
  have ok: "attr_ok (ty, payload)" using Cons.prems a by simp
  have d: "d = pre @ nla_stream ((ty, payload) # attrs) @ post"
    and d': "d = pre @ nla_encode ty payload @ (nla_stream attrs @ post)"
    using Cons.prems a by simp_all
  note enc = encoded_attr [OF ok d']
  have ty: "0 < ty" using ok by (simp add: attr_ok_def)
  have pay: "nla_payload d (length pre) = Some payload"
    by (simp add: nla_payload_def nla_len_def enc)
  define tb1 where "tb1 = (if ty \<le> int maxtype then tb[nat ty := Some (length pre)] else tb)"
  have len1: "length tb1 = Suc maxtype" using Cons.prems(3) by (simp add: tb1_def)
  have nth1: "Option.bind (tb1 ! t) (nla_payload d) =
      (if ty = int t then Some payload else Option.bind (tb ! t) (nla_payload d))"
    if "t \<le> maxtype" for t
    using that ty pay Cons.prems(3) by (auto simp: tb1_def nth_list_update)
  obtain tb' where tb': "nla_for_each_attr d ?body (length (pre @ nla_encode ty payload))
        (int (length (nla_stream attrs))) tb1 = Some (Inr (tb', 0) :: 'e + _)"
      "length tb' = Suc maxtype"
      "\<forall>t \<le> maxtype. Option.bind (tb' ! t) (nla_payload d) =
        (case map_of (rev attrs) (int t) of
           Some payload \<Rightarrow> Some payload | None \<Rightarrow> Option.bind (tb1 ! t) (nla_payload d))"
    using Cons.prems a Cons.IH [OF _ _ len1, of "pre @ nla_encode ty payload"] by auto
  have "?body (length pre) tb = Some (Inr tb1 :: 'e + _)"
    using ty by (simp add: enc tb1_def)
  then have "nla_for_each_attr d ?body (length pre) (int (length (nla_stream (a # attrs)))) tb =
      Some (Inr (tb', 0) :: 'e + _)"
    using tb'(1) nla_for_each_attr_stream [OF ok d, of ?body tb] a by simp
  moreover have "Option.bind (tb' ! t) (nla_payload d) =
      (case map_of (rev (a # attrs)) (int t) of
         Some payload \<Rightarrow> Some payload | None \<Rightarrow> Option.bind (tb ! t) (nla_payload d))"
    if "t \<le> maxtype" for t
    using that tb'(3) nth1 [OF that] a
    by (auto simp: map_add_def split: option.split)
  ultimately show ?case using tb'(2) by blast
qed

text \<open>Writing at the place of bytes of the same number.\<close>

lemma buf_write_replace:
  assumes "p = length pre" "length old = length bs"
  shows "buf_write p bs \<lparr>nb_data = pre @ old @ post, nb_room = room\<rparr> =
    Some \<lparr>nb_data = pre @ bs @ post, nb_room = room\<rparr>"
  using assms by (simp add: buf_write_def mem_write_def)

lemma raw_nla_put_encodes:
  assumes ok: "attr_ok (ty, payload)" and room: "nb_room skb = old @ rest"
    and len: "length old = length (nla_encode ty payload)"
  shows "raw_nla_put ty payload skb =
    Some \<lparr>nb_data = nb_data skb @ nla_encode ty payload, nb_room = rest\<rparr>"
proof -
  let ?n = "length payload"
  let ?d = "nb_data skb"
  let ?l = "put_u16 (word_of_int (4 + int ?n))"
  let ?t = "put_u16 (word_of_int ty)"
  let ?pad = "nat (nla_padlen (int ?n))"
  have len': "length old = 2 + (2 + (?n + ?pad))" using len by (simp add: nla_encode_def)
  then obtain o1 o2 o3 o4 where old: "old = o1 @ o2 @ o3 @ o4" "length o1 = 2" "length o2 = 2"
      "length o3 = ?n" "length o4 = ?pad"
    by (elim length_eq_addE) auto
  have put: "skb_put (nla_total_size (int ?n)) skb =
      Some (length ?d, \<lparr>nb_data = ?d @ o1 @ o2 @ o3 @ o4, nb_room = rest\<rparr>)"
    using len room old(1) length_nla_encode [of ty payload]
    by (simp add: skb_put_def nla_total_size_def nla_attr_size_def)
  have unat: "unat (word_of_int (4 + int ?n) :: u16) = 4 + ?n"
    using attr_ok_len [OF ok] by (simp only: unat_eq_nat_uint)
  have w1: "buf_write (length ?d + 2) ?t \<lparr>nb_data = ?d @ o1 @ o2 @ o3 @ o4, nb_room = rest\<rparr> =
      Some \<lparr>nb_data = ?d @ o1 @ ?t @ o3 @ o4, nb_room = rest\<rparr>"
    using buf_write_replace [of "length ?d + 2" "?d @ o1" o2 ?t "o3 @ o4" rest] old by simp
  have w2: "buf_write (length ?d) ?l \<lparr>nb_data = ?d @ o1 @ ?t @ o3 @ o4, nb_room = rest\<rparr> =
      Some \<lparr>nb_data = ?d @ ?l @ ?t @ o3 @ o4, nb_room = rest\<rparr>"
    using buf_write_replace [of "length ?d" ?d o1 ?l "?t @ o3 @ o4" rest] old by simp
  have w3: "buf_write (length ?d + (4 + ?n)) (replicate ?pad 0)
        \<lparr>nb_data = ?d @ ?l @ ?t @ o3 @ o4, nb_room = rest\<rparr> =
      Some \<lparr>nb_data = ?d @ ?l @ ?t @ o3 @ replicate ?pad 0, nb_room = rest\<rparr>"
    using buf_write_replace [of "length ?d + (4 + ?n)" "?d @ ?l @ ?t @ o3" o4
        "replicate ?pad 0" "[]" rest] old by simp
  have w4: "buf_write (length ?d + 4) payload
        \<lparr>nb_data = ?d @ ?l @ ?t @ o3 @ replicate ?pad 0, nb_room = rest\<rparr> =
      Some \<lparr>nb_data = ?d @ nla_encode ty payload, nb_room = rest\<rparr>"
    using buf_write_replace [of "length ?d + 4" "?d @ ?l @ ?t" o3
        payload "replicate ?pad 0" rest] old by (simp add: nla_encode_def)
  show ?thesis
    by (simp only: raw_nla_put_def raw_nla_reserve_def put unat w1 w2 w3 w4 Let_def
        nla_attr_size_def NLA_HDRLEN_def bind.bind_lunit prod.case)
qed

lemma nla_put_encodes:
  assumes "attr_ok (ty, payload)" and "nb_room skb = old @ rest"
    and "length old = length (nla_encode ty payload)"
  shows "nla_put ty payload skb =
    Some (Inr (), \<lparr>nb_data = nb_data skb @ nla_encode ty payload, nb_room = rest\<rparr>)"
  using assms length_nla_encode [of ty payload] raw_nla_put_encodes [OF assms]
  by (simp add: nla_put_def skb_tailroom_def nla_total_size_def nla_attr_size_def)

lemma nla_puts_encode:
  assumes "\<forall>a \<in> set attrs. attr_ok a" and "nb_room skb = old @ rest"
    and "length old = length (nla_stream attrs)"
  shows "nla_puts attrs skb =
    Some (Inr (), \<lparr>nb_data = nb_data skb @ nla_stream attrs, nb_room = rest\<rparr>)"
  using assms
proof (induction attrs skb arbitrary: old rule: nla_puts.induct)
  case (1 skb)
  then show ?case by (cases skb) auto
next
  case (2 ty payload attrs skb)
  from "2.prems"(3) obtain o1 o2 where old: "old = o1 @ o2"
      "length o1 = length (nla_encode ty payload)" "length o2 = length (nla_stream attrs)"
    by (auto elim: length_eq_addE)
  have "nla_put ty payload skb =
      Some (Inr (), \<lparr>nb_data = nb_data skb @ nla_encode ty payload, nb_room = o2 @ rest\<rparr>)"
    using "2.prems" old by (intro nla_put_encodes [where old = o1]) auto
  with "2.IH" "2.prems"(1) old(3) show ?case by simp
qed

text \<open>
  C6. What is put is what is parsed. If every attribute has a type between 1 and \<open>2\<^sup>1\<^sup>4 - 1\<close> and a
  payload that fits the 16-bit length field, and the tailroom suffices for the padded stream,
  then putting the attributes one after the other succeeds whatever bytes the tailroom held,
  and in the message so built \<open>nla_find\<close> returns the first attribute of a type and
  \<open>nla_parse\<close> stores the last one of each type up to \<open>maxtype\<close>, with the payloads that were put.
\<close>

theorem nla_put_parse_round_trip:
  assumes "\<forall>a \<in> set attrs. attr_ok a" and "length (nla_stream attrs) \<le> length (nb_room skb)"
  shows "\<exists>skb' tb. nla_puts attrs skb = Some (Inr (), skb') \<and>
    nla_parse maxtype (nb_data skb') (length (nb_data skb)) (int (length (nla_stream attrs))) None =
      Some (tb, Inr ()) \<and>
    (\<forall>t \<le> maxtype. Option.bind (tb ! t) (nla_payload (nb_data skb')) = map_of (rev attrs) (int t)) \<and>
    (\<forall>ty. \<exists>r. nla_find (nb_data skb') (length (nb_data skb)) (int (length (nla_stream attrs))) ty =
        Some r \<and> Option.bind r (nla_payload (nb_data skb')) = map_of attrs ty)"
proof -
  let ?n = "length (nla_stream attrs)"
  define d where "d = nb_data skb @ nla_stream attrs"
  define skb' where "skb' = \<lparr>nb_data = d, nb_room = drop ?n (nb_room skb)\<rparr>"
  have puts: "nla_puts attrs skb = Some (Inr (), skb')"
    using nla_puts_encode [of attrs skb "take ?n (nb_room skb)" "drop ?n (nb_room skb)"] assms
    by (simp add: skb'_def d_def)
  have d: "d = nb_data skb @ nla_stream attrs @ []" by (simp add: d_def)
  obtain tb where tb: "nla_parse maxtype d (length (nb_data skb)) (int ?n) None = Some (tb, Inr ())"
      "\<forall>t \<le> maxtype. Option.bind (tb ! t) (nla_payload d) =
        (case map_of (rev attrs) (int t) of Some payload \<Rightarrow> Some payload
         | None \<Rightarrow> Option.bind (replicate (Suc maxtype) None ! t) (nla_payload d))"
    using nla_parse_stream [where 'e = "nat option list \<times> errno", OF assms(1) d,
        of "replicate (Suc maxtype) None" maxtype]
    unfolding nla_parse_def option.case sum.case by (auto simp del: replicate_Suc)
  have "\<forall>t \<le> maxtype. Option.bind (tb ! t) (nla_payload d) = map_of (rev attrs) (int t)"
    using tb(2) by (simp del: replicate_Suc split: option.split)
  moreover have "nb_data skb' = d" by (simp add: skb'_def)
  ultimately show ?thesis using puts tb(1) nla_find_stream [OF assms(1) d] by auto
qed

definition nl_attrs :: "(int \<times> u8 list) list" where
  "nl_attrs = [(1, [7, 0, 0, 0]), (2, [9]), (1, [5])]"

theorem nla_put_parse_round_trip_witness:
  "\<exists>skb' tb. nla_puts nl_attrs \<lparr>nb_data = [3, 3], nb_room = replicate 30 0xAA\<rparr> =
      Some (Inr (), skb') \<and>
    nla_parse 2 (nb_data skb') 2 24 None = Some (tb, Inr ()) \<and>
    Option.bind (tb ! 1) (nla_payload (nb_data skb')) = Some [5]"
proof -
  let ?skb = "\<lparr>nb_data = [3, 3], nb_room = replicate 30 0xAA\<rparr> :: nlbuf"
  have len: "length (nla_stream nl_attrs) = 24" and ok: "\<forall>a \<in> set nl_attrs. attr_ok a"
    by (simp_all add: nl_attrs_def attr_ok_def nla_stream_def nla_encode_def nla_padlen_def
        nla_total_size_def nla_attr_size_def nla_align_eq)
  have last: "map_of (rev nl_attrs) (int 1) = Some [5]" by (simp add: nl_attrs_def)
  obtain skb' tb where *: "nla_puts nl_attrs ?skb = Some (Inr (), skb')"
      "nla_parse 2 (nb_data skb') (length (nb_data ?skb)) (int (length (nla_stream nl_attrs))) None =
        Some (tb, Inr ())"
      "\<forall>t \<le> 2. Option.bind (tb ! t) (nla_payload (nb_data skb')) = map_of (rev nl_attrs) (int t)"
    using nla_put_parse_round_trip [of nl_attrs ?skb 2] ok len by auto
  then show ?thesis using len last * by (intro exI [of _ skb'] exI [of _ tb]) (simp add: numeral_2_eq_2)
qed

text \<open>
  \<open>nla_policy_len\<close> ignores every policy but the first: for a non-empty policy array the
  result is the count times the contribution of the first entry.
\<close>

definition nla_policy_entry_len :: "nla_policy \<Rightarrow> int" where
  "nla_policy_entry_len p =
     (if pol_len p \<noteq> 0 then nla_total_size (uint (pol_len p))
      else if nla_attr_minlen (pol_type p) \<noteq> 0
           then nla_total_size (nla_attr_minlen (pol_type p)) else 0)"

lemma nla_policy_len_first_only:
  "nla_policy_len (p # ps) n = Some (int n * nla_policy_entry_len p)"
  by (induction n) (simp_all add: nla_policy_entry_len_def algebra_simps)

end
