(* ===== verification/Bpf_Filter.thy ===== *)
theory Bpf_Filter
  imports Skbuff Nlattr
begin

text \<open>
  Socket filters, \<^verbatim>\<open>net/core/filter.c\<close> and \<^verbatim>\<open>include/linux/filter.h\<close>: the checker
  \<open>sk_chk_filter\<close> and the interpreter \<open>sk_run_filter\<close> with its loads from the packet and from
  ancillary data. The two switch statements go over the same case labels, a datatype with one
  constructor per label. Everything C leaves undefined is an explicit fault: a fetch or a
  scratch access out of range, a division by zero, a shift by the width or more, a read
  past the tail of the packet, a missing device.
\<close>

section \<open>Instructions\<close>

record sock_filter =
  bf_code :: u16
  bf_jt :: u8
  bf_jf :: u8
  bf_k :: u32

text \<open>The fields an operation code is made of.\<close>

definition BPF_CLASS :: "u16 \<Rightarrow> u16" where "BPF_CLASS code = code AND 0x07"
definition BPF_LD :: u16 where [simp]: "BPF_LD = 0x00"
definition BPF_LDX :: u16 where [simp]: "BPF_LDX = 0x01"
definition BPF_ST :: u16 where [simp]: "BPF_ST = 0x02"
definition BPF_STX :: u16 where [simp]: "BPF_STX = 0x03"
definition BPF_ALU :: u16 where [simp]: "BPF_ALU = 0x04"
definition BPF_JMP :: u16 where [simp]: "BPF_JMP = 0x05"
definition BPF_RET :: u16 where [simp]: "BPF_RET = 0x06"
definition BPF_MISC :: u16 where [simp]: "BPF_MISC = 0x07"
definition BPF_W :: u16 where [simp]: "BPF_W = 0x00"
definition BPF_H :: u16 where [simp]: "BPF_H = 0x08"
definition BPF_B :: u16 where [simp]: "BPF_B = 0x10"
definition BPF_IMM :: u16 where [simp]: "BPF_IMM = 0x00"
definition BPF_ABS :: u16 where [simp]: "BPF_ABS = 0x20"
definition BPF_IND :: u16 where [simp]: "BPF_IND = 0x40"
definition BPF_MEM :: u16 where [simp]: "BPF_MEM = 0x60"
definition BPF_LEN :: u16 where [simp]: "BPF_LEN = 0x80"
definition BPF_MSH :: u16 where [simp]: "BPF_MSH = 0xa0"
definition BPF_ADD :: u16 where [simp]: "BPF_ADD = 0x00"
definition BPF_SUB :: u16 where [simp]: "BPF_SUB = 0x10"
definition BPF_MUL :: u16 where [simp]: "BPF_MUL = 0x20"
definition BPF_DIV :: u16 where [simp]: "BPF_DIV = 0x30"
definition BPF_OR :: u16 where [simp]: "BPF_OR = 0x40"
definition BPF_AND :: u16 where [simp]: "BPF_AND = 0x50"
definition BPF_LSH :: u16 where [simp]: "BPF_LSH = 0x60"
definition BPF_RSH :: u16 where [simp]: "BPF_RSH = 0x70"
definition BPF_NEG :: u16 where [simp]: "BPF_NEG = 0x80"
definition BPF_JA :: u16 where [simp]: "BPF_JA = 0x00"
definition BPF_JEQ :: u16 where [simp]: "BPF_JEQ = 0x10"
definition BPF_JGT :: u16 where [simp]: "BPF_JGT = 0x20"
definition BPF_JGE :: u16 where [simp]: "BPF_JGE = 0x30"
definition BPF_JSET :: u16 where [simp]: "BPF_JSET = 0x40"
definition BPF_K :: u16 where [simp]: "BPF_K = 0x00"
definition BPF_X :: u16 where [simp]: "BPF_X = 0x08"
definition BPF_A :: u16 where [simp]: "BPF_A = 0x10"
definition BPF_TAX :: u16 where [simp]: "BPF_TAX = 0x00"
definition BPF_TXA :: u16 where [simp]: "BPF_TXA = 0x80"
definition BPF_MAXINSNS :: int where [simp]: "BPF_MAXINSNS = 4096"
definition BPF_MEMWORDS :: nat where [simp]: "BPF_MEMWORDS = 16"

datatype alu_op = ADD | SUB | MUL | DIV | AND_op | OR_op | LSH | RSH
datatype jmp_op = JGT | JGE | JEQ | JSET
datatype operand = SrcK | SrcX
datatype load_size = SizeW | SizeH | SizeB

datatype bpf_insn =
    Alu alu_op operand | Alu_NEG
  | Jmp_JA | Jmp jmp_op operand
  | Ld_ABS load_size | Ld_IND load_size | Ld_W_LEN | Ldx_W_LEN | Ldx_B_MSH
  | Ld_IMM | Ldx_IMM | Ld_MEM | Ldx_MEM | Misc_TAX | Misc_TXA | Ret_K | Ret_A | St | Stx

text \<open>The case labels, in the order of \<open>sk_run_filter\<close>.\<close>

definition bpf_cases :: "(u16 \<times> bpf_insn) list" where
  "bpf_cases =
    [(BPF_ALU OR BPF_ADD OR BPF_X, Alu ADD SrcX), (BPF_ALU OR BPF_ADD OR BPF_K, Alu ADD SrcK),
     (BPF_ALU OR BPF_SUB OR BPF_X, Alu SUB SrcX), (BPF_ALU OR BPF_SUB OR BPF_K, Alu SUB SrcK),
     (BPF_ALU OR BPF_MUL OR BPF_X, Alu MUL SrcX), (BPF_ALU OR BPF_MUL OR BPF_K, Alu MUL SrcK),
     (BPF_ALU OR BPF_DIV OR BPF_X, Alu DIV SrcX), (BPF_ALU OR BPF_DIV OR BPF_K, Alu DIV SrcK),
     (BPF_ALU OR BPF_AND OR BPF_X, Alu AND_op SrcX), (BPF_ALU OR BPF_AND OR BPF_K, Alu AND_op SrcK),
     (BPF_ALU OR BPF_OR OR BPF_X, Alu OR_op SrcX), (BPF_ALU OR BPF_OR OR BPF_K, Alu OR_op SrcK),
     (BPF_ALU OR BPF_LSH OR BPF_X, Alu LSH SrcX), (BPF_ALU OR BPF_LSH OR BPF_K, Alu LSH SrcK),
     (BPF_ALU OR BPF_RSH OR BPF_X, Alu RSH SrcX), (BPF_ALU OR BPF_RSH OR BPF_K, Alu RSH SrcK),
     (BPF_ALU OR BPF_NEG, Alu_NEG),
     (BPF_JMP OR BPF_JA, Jmp_JA),
     (BPF_JMP OR BPF_JGT OR BPF_K, Jmp JGT SrcK), (BPF_JMP OR BPF_JGE OR BPF_K, Jmp JGE SrcK),
     (BPF_JMP OR BPF_JEQ OR BPF_K, Jmp JEQ SrcK), (BPF_JMP OR BPF_JSET OR BPF_K, Jmp JSET SrcK),
     (BPF_JMP OR BPF_JGT OR BPF_X, Jmp JGT SrcX), (BPF_JMP OR BPF_JGE OR BPF_X, Jmp JGE SrcX),
     (BPF_JMP OR BPF_JEQ OR BPF_X, Jmp JEQ SrcX), (BPF_JMP OR BPF_JSET OR BPF_X, Jmp JSET SrcX),
     (BPF_LD OR BPF_W OR BPF_ABS, Ld_ABS SizeW), (BPF_LD OR BPF_H OR BPF_ABS, Ld_ABS SizeH),
     (BPF_LD OR BPF_B OR BPF_ABS, Ld_ABS SizeB),
     (BPF_LD OR BPF_W OR BPF_LEN, Ld_W_LEN), (BPF_LDX OR BPF_W OR BPF_LEN, Ldx_W_LEN),
     (BPF_LD OR BPF_W OR BPF_IND, Ld_IND SizeW), (BPF_LD OR BPF_H OR BPF_IND, Ld_IND SizeH),
     (BPF_LD OR BPF_B OR BPF_IND, Ld_IND SizeB),
     (BPF_LDX OR BPF_B OR BPF_MSH, Ldx_B_MSH),
     (BPF_LD OR BPF_IMM, Ld_IMM), (BPF_LDX OR BPF_IMM, Ldx_IMM),
     (BPF_LD OR BPF_MEM, Ld_MEM), (BPF_LDX OR BPF_MEM, Ldx_MEM),
     (BPF_MISC OR BPF_TAX, Misc_TAX), (BPF_MISC OR BPF_TXA, Misc_TXA),
     (BPF_RET OR BPF_K, Ret_K), (BPF_RET OR BPF_A, Ret_A),
     (BPF_ST, St), (BPF_STX, Stx)]"

definition bpf_decode :: "u16 \<Rightarrow> bpf_insn option" where
  "bpf_decode code = map_of bpf_cases code"

section \<open>The checker\<close>

text \<open>The switch statement of \<open>sk_chk_filter\<close> at \<open>pc\<close>: whether the loop goes on.\<close>

definition chk_insn :: "int \<Rightarrow> int \<Rightarrow> sock_filter \<Rightarrow> bool" where
  "chk_insn flen pc ftest =
     (case bpf_decode (bf_code ftest) of
        None \<Rightarrow> False
      | Some (Alu DIV SrcK) \<Rightarrow> bf_k ftest \<noteq> 0
      | Some Ld_MEM \<Rightarrow> \<not> unat (bf_k ftest) \<ge> BPF_MEMWORDS
      | Some Ldx_MEM \<Rightarrow> \<not> unat (bf_k ftest) \<ge> BPF_MEMWORDS
      | Some St \<Rightarrow> \<not> unat (bf_k ftest) \<ge> BPF_MEMWORDS
      | Some Stx \<Rightarrow> \<not> unat (bf_k ftest) \<ge> BPF_MEMWORDS
      | Some Jmp_JA \<Rightarrow> \<not> bf_k ftest \<ge> word_of_int (flen - pc - 1)
      | Some (Jmp _ _) \<Rightarrow>
          \<not> (pc + uint (bf_jt ftest) + 1 \<ge> flen \<or> pc + uint (bf_jf ftest) + 1 \<ge> flen)
      | Some _ \<Rightarrow> True)"

text \<open>The loop over the program from \<open>pc\<close> on; running past the array is \<open>None\<close>.\<close>

fun chk_loop :: "int \<Rightarrow> int \<Rightarrow> sock_filter list \<Rightarrow> bool option" where
  "chk_loop flen pc [] = (if pc < flen then None else Some True)"
| "chk_loop flen pc (ftest # insns) =
     (if pc < flen then
        (if chk_insn flen pc ftest then chk_loop flen (pc + 1) insns else Some False)
      else Some True)"

definition sk_chk_filter :: "sock_filter list \<Rightarrow> int \<Rightarrow> unit result option" where
  "sk_chk_filter insns flen =
     (if flen = 0 \<or> flen > BPF_MAXINSNS then Some (Inl EINVAL)
      else (case chk_loop flen 0 insns of
              None \<Rightarrow> None
            | Some False \<Rightarrow> Some (Inl EINVAL)
            | Some True \<Rightarrow>
                (if 0 \<le> flen - 1 \<and> flen - 1 < int (length insns) then
                   Some (if BPF_CLASS (bf_code (insns ! nat (flen - 1))) = BPF_RET
                         then Inr () else Inl EINVAL)
                 else None)))"

section \<open>Packets\<close>

text \<open>
  What the filter sees of a \<open>struct sk_buff\<close>: the contents, the bytes from \<open>skb->head\<close> to
  \<open>skb->data\<close>, the network and link-layer headers as offsets from \<open>skb->head\<close>, the
  protocol as stored (network byte order, little-endian machine), the packet type and
  the interface index of the device, if there is one.
\<close>

record packet =
  pk_data :: skb_data
  pk_headroom :: "u8 list"
  pk_network_header :: int
  pk_mac_header :: int
  pk_protocol :: u16
  pk_pkt_type :: u8
  pk_dev_ifindex :: "u32 option"

datatype bpf_fault = Bad_fetch | Bad_mem | Div_zero | Bad_shift | Past_tail | Null_dev | Bad_attr

definition SKF_AD_OFF :: int where [simp]: "SKF_AD_OFF = -0x1000"
definition SKF_NET_OFF :: int where [simp]: "SKF_NET_OFF = -0x100000"
definition SKF_LL_OFF :: int where [simp]: "SKF_LL_OFF = -0x200000"

text \<open>
  \<open>__load_pointer\<close>: the offset of the returned pointer from \<open>skb->head\<close>; only the first byte
  is checked to lie before the tail. \<open>load_pointer\<close> followed by the read of \<open>size\<close> bytes
  through the pointer: \<open>Inr None\<close> is the null pointer.
\<close>

definition raw_load_pointer :: "packet \<Rightarrow> int \<Rightarrow> nat option" where
  "raw_load_pointer skb k =
     (let tail = int (length (pk_headroom skb) + length (skb_lin (pk_data skb))) in
      if k \<ge> SKF_NET_OFF then
        (let ptr = pk_network_header skb + k - SKF_NET_OFF in
         if 0 \<le> ptr \<and> ptr < tail then Some (nat ptr) else None)
      else if k \<ge> SKF_LL_OFF then
        (let ptr = pk_mac_header skb + k - SKF_LL_OFF in
         if 0 \<le> ptr \<and> ptr < tail then Some (nat ptr) else None)
      else None)"

definition load_pointer :: "packet \<Rightarrow> int \<Rightarrow> nat \<Rightarrow> bpf_fault + u8 list option" where
  "load_pointer skb k n =
     (if k \<ge> 0 then
        (case skb_header_pointer (pk_data skb) k (int n) of
           None \<Rightarrow> Inl Past_tail
         | Some (Inl _) \<Rightarrow> Inr None
         | Some (Inr bs) \<Rightarrow> Inr (Some bs))
      else if k \<ge> SKF_AD_OFF then Inr None
      else (case raw_load_pointer skb k of
              None \<Rightarrow> Inr None
            | Some ptr \<Rightarrow>
                (case mem_read ptr n (pk_headroom skb @ skb_lin (pk_data skb)) of
                   None \<Rightarrow> Inl Past_tail
                 | Some bs \<Rightarrow> Inr (Some bs))))"

section \<open>The interpreter\<close>

record bpf =
  bpf_A :: u32
  bpf_X :: u32
  bpf_mem :: "u32 list"
  bpf_pc :: int

datatype bpf_outcome = Next bpf | Ret u32 | Warned | Fault bpf_fault

fun be_bytes :: "u8 list \<Rightarrow> u32 \<Rightarrow> u32" where
  "be_bytes [] acc = acc"
| "be_bytes (b # bs) acc = be_bytes bs (push_bit 8 acc OR ucast b)"

definition ntohs :: "u16 \<Rightarrow> u16" where
  "ntohs v = push_bit 8 v OR drop_bit 8 v"

fun size_bytes :: "load_size \<Rightarrow> nat" where
  "size_bytes SizeW = 4"
| "size_bytes SizeH = 2"
| "size_bytes SizeB = 1"

text \<open>The test of both attribute loads, in 64-bit arithmetic because of the \<open>sizeof\<close>.\<close>

definition nlattr_out_of_range :: "u32 \<Rightarrow> nat \<Rightarrow> bool" where
  "nlattr_out_of_range A len \<longleftrightarrow> (ucast A :: u64) > ucast (of_nat len :: u32) - 4"

definition nla_pos :: "nat option option \<Rightarrow> bpf \<Rightarrow> bpf_outcome" where
  "nla_pos r st =
     (case r of
        None \<Rightarrow> Fault Bad_attr
      | Some None \<Rightarrow> Next (st\<lparr>bpf_A := 0\<rparr>)
      | Some (Some nla) \<Rightarrow> Next (st\<lparr>bpf_A := of_nat nla\<rparr>))"

text \<open>The second switch statement, for loads that returned the null pointer.\<close>

definition bpf_ancillary :: "packet \<Rightarrow> int \<Rightarrow> bpf \<Rightarrow> bpf_outcome" where
  "bpf_ancillary skb k st =
     (let A = bpf_A st; X = bpf_X st; len = skb_len (pk_data skb); d = skb_lin (pk_data skb) in
      if k - SKF_AD_OFF = 0 then Next (st\<lparr>bpf_A := ucast (ntohs (pk_protocol skb))\<rparr>)
      else if k - SKF_AD_OFF = 4 then Next (st\<lparr>bpf_A := ucast (pk_pkt_type skb)\<rparr>)
      else if k - SKF_AD_OFF = 8 then
        (case pk_dev_ifindex skb of
           None \<Rightarrow> Fault Null_dev
         | Some i \<Rightarrow> Next (st\<lparr>bpf_A := i\<rparr>))
      else if k - SKF_AD_OFF = 12 then
        (if skb_is_nonlinear (pk_data skb) then Ret 0
         else if nlattr_out_of_range A len then Ret 0
         else nla_pos (nla_find d (unat A) (sint (of_nat len - A)) (sint X)) st)
      else if k - SKF_AD_OFF = 16 then
        (if skb_is_nonlinear (pk_data skb) then Ret 0
         else if nlattr_out_of_range A len then Ret 0
         else (case get_u16 d (unat A) of
                 None \<Rightarrow> Fault Bad_attr
               | Some l \<Rightarrow>
                   if ucast l > A - of_nat len then Ret 0
                   else nla_pos (nla_find_nested d (unat A) (sint X)) st))
      else Ret 0)"

text \<open>The labels \<open>load_w\<close>, \<open>load_h\<close> and \<open>load_b\<close>.\<close>

definition bpf_load :: "packet \<Rightarrow> load_size \<Rightarrow> int \<Rightarrow> bpf \<Rightarrow> bpf_outcome" where
  "bpf_load skb sz k st =
     (case load_pointer skb k (size_bytes sz) of
        Inl f \<Rightarrow> Fault f
      | Inr (Some bs) \<Rightarrow> Next (st\<lparr>bpf_A := be_bytes bs 0\<rparr>)
      | Inr None \<Rightarrow> bpf_ancillary skb k st)"

definition bpf_alu :: "alu_op \<Rightarrow> u32 \<Rightarrow> u32 \<Rightarrow> bpf_fault + u32" where
  "bpf_alu f A s =
     (case f of
        ADD \<Rightarrow> Inr (A + s)
      | SUB \<Rightarrow> Inr (A - s)
      | MUL \<Rightarrow> Inr (A * s)
      | DIV \<Rightarrow> if s = 0 then Inl Div_zero else Inr (A div s)
      | AND_op \<Rightarrow> Inr (A AND s)
      | OR_op \<Rightarrow> Inr (A OR s)
      | LSH \<Rightarrow> if unat s \<ge> 32 then Inl Bad_shift else Inr (push_bit (unat s) A)
      | RSH \<Rightarrow> if unat s \<ge> 32 then Inl Bad_shift else Inr (drop_bit (unat s) A))"

definition bpf_test :: "jmp_op \<Rightarrow> u32 \<Rightarrow> u32 \<Rightarrow> bool" where
  "bpf_test f A s =
     (case f of JGT \<Rightarrow> A > s | JGE \<Rightarrow> A \<ge> s | JEQ \<Rightarrow> A = s | JSET \<Rightarrow> A AND s \<noteq> 0)"

definition bpf_src :: "operand \<Rightarrow> sock_filter \<Rightarrow> bpf \<Rightarrow> u32" where
  "bpf_src s fentry st = (case s of SrcK \<Rightarrow> bf_k fentry | SrcX \<Rightarrow> bpf_X st)"

definition mem_load :: "u32 \<Rightarrow> bpf \<Rightarrow> (u32 \<Rightarrow> bpf) \<Rightarrow> bpf_outcome" where
  "mem_load k st upd =
     (if unat k < length (bpf_mem st) then Next (upd (bpf_mem st ! unat k)) else Fault Bad_mem)"

definition mem_store :: "u32 \<Rightarrow> u32 \<Rightarrow> bpf \<Rightarrow> bpf_outcome" where
  "mem_store k v st =
     (if unat k < length (bpf_mem st) then Next (st\<lparr>bpf_mem := (bpf_mem st)[unat k := v]\<rparr>)
      else Fault Bad_mem)"

text \<open>One iteration of \<open>sk_run_filter\<close>: the first switch statement. \<open>pc\<close> is advanced by the loop.\<close>

definition bpf_exec :: "packet \<Rightarrow> sock_filter \<Rightarrow> bpf \<Rightarrow> bpf_outcome" where
  "bpf_exec skb fentry st =
     (let A = bpf_A st; X = bpf_X st; k = bf_k fentry in
      case bpf_decode (bf_code fentry) of
        None \<Rightarrow> Warned
      | Some i \<Rightarrow>
          (case i of
             Alu f s \<Rightarrow>
               if f = DIV \<and> s = SrcX \<and> X = 0 then Ret 0
               else (case bpf_alu f A (bpf_src s fentry st) of
                       Inl flt \<Rightarrow> Fault flt
                     | Inr v \<Rightarrow> Next (st\<lparr>bpf_A := v\<rparr>))
           | Alu_NEG \<Rightarrow> Next (st\<lparr>bpf_A := - A\<rparr>)
           | Jmp_JA \<Rightarrow> Next (st\<lparr>bpf_pc := sint (word_of_int (bpf_pc st) + k)\<rparr>)
           | Jmp f s \<Rightarrow>
               Next (st\<lparr>bpf_pc := bpf_pc st +
                 uint (if bpf_test f A (bpf_src s fentry st) then bf_jt fentry else bf_jf fentry)\<rparr>)
           | Ld_ABS sz \<Rightarrow> bpf_load skb sz (sint k) st
           | Ld_W_LEN \<Rightarrow> Next (st\<lparr>bpf_A := of_nat (skb_len (pk_data skb))\<rparr>)
           | Ldx_W_LEN \<Rightarrow> Next (st\<lparr>bpf_X := of_nat (skb_len (pk_data skb))\<rparr>)
           | Ld_IND sz \<Rightarrow> bpf_load skb sz (sint (X + k)) st
           | Ldx_B_MSH \<Rightarrow>
               (case load_pointer skb (sint k) 1 of
                  Inl flt \<Rightarrow> Fault flt
                | Inr (Some bs) \<Rightarrow> Next (st\<lparr>bpf_X := push_bit 2 (be_bytes bs 0 AND 0xf)\<rparr>)
                | Inr None \<Rightarrow> Ret 0)
           | Ld_IMM \<Rightarrow> Next (st\<lparr>bpf_A := k\<rparr>)
           | Ldx_IMM \<Rightarrow> Next (st\<lparr>bpf_X := k\<rparr>)
           | Ld_MEM \<Rightarrow> mem_load k st (\<lambda>v. st\<lparr>bpf_A := v\<rparr>)
           | Ldx_MEM \<Rightarrow> mem_load k st (\<lambda>v. st\<lparr>bpf_X := v\<rparr>)
           | Misc_TAX \<Rightarrow> Next (st\<lparr>bpf_X := A\<rparr>)
           | Misc_TXA \<Rightarrow> Next (st\<lparr>bpf_A := X\<rparr>)
           | Ret_K \<Rightarrow> Ret k
           | Ret_A \<Rightarrow> Ret A
           | St \<Rightarrow> mem_store k A st
           | Stx \<Rightarrow> mem_store k X st))"

text \<open>
  The loop. \<open>None\<close> is a run that does not end; \<open>pc\<close> is fetched only while it is below \<open>flen\<close>.
\<close>

partial_function (option) bpf_loop ::
  "packet \<Rightarrow> sock_filter list \<Rightarrow> int \<Rightarrow> bpf \<Rightarrow> bpf_outcome option" where
  "bpf_loop skb insns flen st =
     (if bpf_pc st < flen then
        (if 0 \<le> bpf_pc st \<and> bpf_pc st < int (length insns) then
           (case bpf_exec skb (insns ! nat (bpf_pc st)) st of
              Next st' \<Rightarrow> bpf_loop skb insns flen (st'\<lparr>bpf_pc := bpf_pc st' + 1\<rparr>)
            | Ret v \<Rightarrow> Some (Ret v)
            | Warned \<Rightarrow> Some Warned
            | Fault f \<Rightarrow> Some (Fault f))
         else Some (Fault Bad_fetch))
      else Some (Ret 0))"

text \<open>\<open>mem[]\<close> is not initialised: its contents on entry are an argument.\<close>

definition sk_run_filter :: "u32 list \<Rightarrow> packet \<Rightarrow> sock_filter list \<Rightarrow> int \<Rightarrow> bpf_outcome option" where
  "sk_run_filter mem0 skb insns flen =
     bpf_loop skb insns flen \<lparr>bpf_A = 0, bpf_X = 0, bpf_mem = mem0, bpf_pc = 0\<rparr>"

text \<open>
  \<open>sk_filter\<close>: the security hook and \<open>pskb_trim\<close> are parameters; the result is the error code,
  or the trimmed packet.
\<close>

definition sk_filter ::
  "(packet \<Rightarrow> unit result) \<Rightarrow> (packet \<Rightarrow> u32 \<Rightarrow> packet result) \<Rightarrow> u32 list \<Rightarrow>
   (sock_filter list \<times> int) option \<Rightarrow> packet \<Rightarrow> packet result option" where
  "sk_filter security_sock_rcv_skb pskb_trim mem0 filt skb =
     (case security_sock_rcv_skb skb of
        Inl e \<Rightarrow> Some (Inl e)
      | Inr _ \<Rightarrow>
          (case filt of
             None \<Rightarrow> Some (Inr skb)
           | Some (insns, flen) \<Rightarrow>
               (case sk_run_filter mem0 skb insns flen of
                  Some (Ret pkt_len) \<Rightarrow>
                    Some (if pkt_len \<noteq> 0 then pskb_trim skb pkt_len else Inl EPERM)
                | Some Warned \<Rightarrow> Some (Inl EPERM)
                | _ \<Rightarrow> None)))"

section \<open>Checked filters are safe\<close>

lemma bpf_decode_ret:
  assumes "bpf_decode code = Some i" and "BPF_CLASS code = BPF_RET"
  shows "i = Ret_K \<or> i = Ret_A"
  using assms by (auto simp: bpf_decode_def bpf_cases_def BPF_CLASS_def split: if_splits)

text \<open>What \<open>sk_chk_filter\<close> establishes for every instruction.\<close>

lemma chk_loop_insns:
  assumes "chk_loop flen pc insns = Some True" "pc \<le> i" "i < flen"
  shows "i - pc < int (length insns) \<and> chk_insn flen i (insns ! nat (i - pc))"
  using assms
proof (induction flen pc insns rule: chk_loop.induct)
  case (1 flen pc)
  then show ?case by (simp split: if_splits)
next
  case (2 flen pc ftest insns)
  show ?case
  proof (cases "i = pc")
    case False
    with "2.prems" have "nat (i - pc) = Suc (nat (i - (pc + 1)))" by simp
    with "2" False show ?thesis by (auto split: if_splits)
  qed (use "2.prems" in \<open>auto split: if_splits\<close>)
qed

definition filter_checked :: "sock_filter list \<Rightarrow> int \<Rightarrow> bool" where
  "filter_checked insns flen \<longleftrightarrow> 0 < flen \<and> flen \<le> 4096 \<and> flen \<le> int (length insns) \<and>
     (\<forall>i. 0 \<le> i \<and> i < flen \<longrightarrow> chk_insn flen i (insns ! nat i)) \<and>
     BPF_CLASS (bf_code (insns ! nat (flen - 1))) = BPF_RET"

lemma sk_chk_filter_checked:
  assumes "sk_chk_filter insns flen = Some (Inr ())"
  shows "filter_checked insns flen"
proof -
  from assms have *: "flen \<noteq> 0" "flen \<le> 4096" "chk_loop flen 0 insns = Some True"
      "0 \<le> flen - 1" "flen - 1 < int (length insns)"
      "BPF_CLASS (bf_code (insns ! nat (flen - 1))) = BPF_RET"
    by (auto simp: sk_chk_filter_def split: if_splits option.splits bool.splits)
  then show ?thesis
    using chk_loop_insns [OF *(3)] by (simp add: filter_checked_def)
qed

text \<open>The faults the checker does not exclude.\<close>

definition unchecked_fault :: "bpf_fault \<Rightarrow> bool" where
  "unchecked_fault f \<longleftrightarrow> f \<in> {Bad_shift, Past_tail, Null_dev, Bad_attr}"

text \<open>One iteration on a checked instruction: the outcome, and where the loop goes on.\<close>

definition good_outcome :: "int \<Rightarrow> int \<Rightarrow> bpf_outcome \<Rightarrow> bool" where
  "good_outcome flen pc out =
     (case out of
        Next st' \<Rightarrow> length (bpf_mem st') = 16 \<and> pc \<le> bpf_pc st' \<and>
          (bpf_pc st' = pc \<or> bpf_pc st' + 1 < flen)
      | Ret v \<Rightarrow> True
      | Warned \<Rightarrow> False
      | Fault f \<Rightarrow> unchecked_fault f)"

lemma good_outcome_simps [simp]:
  "good_outcome flen pc (Next st') \<longleftrightarrow> length (bpf_mem st') = 16 \<and> pc \<le> bpf_pc st' \<and>
     (bpf_pc st' = pc \<or> bpf_pc st' + 1 < flen)"
  "good_outcome flen pc (Ret v)"
  "\<not> good_outcome flen pc Warned"
  "good_outcome flen pc (Fault f) \<longleftrightarrow> unchecked_fault f"
  by (simp_all add: good_outcome_def)

lemma load_pointer_fault: "load_pointer skb k n = Inl f \<Longrightarrow> f = Past_tail"
  by (auto simp: load_pointer_def split: if_splits option.splits sum.splits)

lemma bpf_ancillary_good:
  "length (bpf_mem st) = 16 \<Longrightarrow> bpf_pc st = pc \<Longrightarrow> good_outcome flen pc (bpf_ancillary skb k st)"
  by (auto simp: bpf_ancillary_def nla_pos_def Let_def unchecked_fault_def split: option.split)

lemma bpf_load_good:
  "length (bpf_mem st) = 16 \<Longrightarrow> bpf_pc st = pc \<Longrightarrow> good_outcome flen pc (bpf_load skb sz k st)"
  by (auto simp: bpf_load_def unchecked_fault_def bpf_ancillary_good
      dest: load_pointer_fault split: sum.split option.split)

lemma jump_target:
  assumes "0 \<le> pc" "pc < flen" "flen \<le> 4096" "\<not> k \<ge> (word_of_int (flen - pc - 1) :: u32)"
  shows "sint (word_of_int pc + k) = pc + uint k \<and> pc + uint k + 1 < flen"
proof -
  have "uint (word_of_int (flen - pc - 1) :: u32) = flen - pc - 1"
    using assms by (simp only: uint_word_of_int) simp
  then have k: "uint k < flen - pc - 1" using assms(4) by (simp add: word_le_def not_le)
  have "word_of_int pc + k = (word_of_int (pc + uint k) :: u32)" by simp
  moreover have "0 \<le> pc + uint k" "pc + uint k < 4096" using k assms(1-3) by simp_all
  then have "sint (word_of_int (pc + uint k) :: u32) = pc + uint k"
    by (simp only: sint_sbintrunc') (simp add: signed_take_bit_int_eq_self)
  ultimately show ?thesis using k by simp
qed

lemma bpf_alu_good:
  "bpf_alu f A s = Inl flt \<Longrightarrow> f = DIV \<and> s = 0 \<or> unchecked_fault flt"
  by (cases f) (auto simp: bpf_alu_def unchecked_fault_def split: if_splits)

lemma bpf_exec_good:
  assumes chk: "chk_insn flen pc fentry" and pc: "0 \<le> pc" "pc < flen" "flen \<le> 4096" "bpf_pc st = pc"
    and mem: "length (bpf_mem st) = 16"
  shows "good_outcome flen pc (bpf_exec skb fentry st)"
proof -
  obtain i where i: "bpf_decode (bf_code fentry) = Some i"
    using chk by (auto simp: chk_insn_def split: option.splits)
  note rules = bpf_exec_def Let_def i pc(4) mem
  show ?thesis
  proof (cases i)
    case (Alu f s)
    have "good_outcome flen pc (case bpf_alu f (bpf_A st) (bpf_src s fentry st) of
        Inl flt \<Rightarrow> Fault flt | Inr v \<Rightarrow> Next (st\<lparr>bpf_A := v\<rparr>))"
      if "\<not> (f = DIV \<and> s = SrcX \<and> bpf_X st = 0)"
    proof (cases "bpf_alu f (bpf_A st) (bpf_src s fentry st)")
      case (Inl flt)
      have "\<not> (f = DIV \<and> bpf_src s fentry st = 0)"
        using that chk by (cases s) (auto simp: chk_insn_def i Alu bpf_src_def)
      with bpf_alu_good [OF Inl] Inl show ?thesis by simp
    qed (use pc(4) mem in simp)
    then show ?thesis by (simp add: rules Alu)
  next
    case Jmp_JA
    with chk have "\<not> bf_k fentry \<ge> word_of_int (flen - pc - 1)" by (simp add: chk_insn_def i)
    from jump_target [OF pc(1-3) this] show ?thesis by (simp add: rules Jmp_JA)
  next
    case (Jmp f s)
    with chk show ?thesis by (simp add: rules chk_insn_def)
  next
    case Ldx_B_MSH
    then show ?thesis
      by (auto simp: rules unchecked_fault_def dest: load_pointer_fault split: sum.split option.split)
  qed (use chk in \<open>simp_all add: rules bpf_load_good mem_load_def mem_store_def chk_insn_def\<close>)
qed

lemma bpf_loop_checked:
  assumes chk: "filter_checked insns flen" and "0 \<le> bpf_pc st" "bpf_pc st < flen"
    and "length (bpf_mem st) = 16"
  shows "\<exists>out. bpf_loop skb insns flen st = Some out \<and>
    (case out of Next _ \<Rightarrow> False | Ret _ \<Rightarrow> True | Warned \<Rightarrow> False | Fault f \<Rightarrow> unchecked_fault f)"
  using assms(2-)
proof (induction "nat (flen - bpf_pc st)" arbitrary: st rule: less_induct)
  case less
  let ?pc = "bpf_pc st"
  let ?i = "insns ! nat ?pc"
  have len: "flen \<le> int (length insns)" "flen \<le> 4096" using chk by (auto simp: filter_checked_def)
  have chk_i: "chk_insn flen ?pc ?i" using chk less.prems by (simp add: filter_checked_def)
  have good: "good_outcome flen ?pc (bpf_exec skb ?i st)"
    using bpf_exec_good [OF chk_i less.prems(1,2) len(2) refl less.prems(3)] .
  show ?case
  proof (cases "bpf_exec skb ?i st")
    case (Next st')
    have "?pc \<noteq> flen - 1"
    proof
      assume last: "?pc = flen - 1"
      obtain i where "bpf_decode (bf_code ?i) = Some i"
        using chk_i by (auto simp: chk_insn_def split: option.splits)
      then have "\<exists>v. bpf_exec skb ?i st = Ret v"
        using bpf_decode_ret [of "bf_code ?i" i] chk last
        by (auto simp: filter_checked_def bpf_exec_def Let_def)
      with Next show False by simp
    qed
    with good Next less.prems
    have "\<exists>out. bpf_loop skb insns flen (st'\<lparr>bpf_pc := bpf_pc st' + 1\<rparr>) = Some out \<and>
        (case out of Next _ \<Rightarrow> False | Ret _ \<Rightarrow> True | Warned \<Rightarrow> False | Fault f \<Rightarrow> unchecked_fault f)"
      by (intro less.hyps) auto
    then show ?thesis
      using Next less.prems len by (subst bpf_loop.simps) simp
  qed (use good less.prems len in \<open>simp_all add: bpf_loop.simps [of skb insns flen st]\<close>)
qed

text \<open>
  C7. A program that \<open>sk_chk_filter\<close> accepts runs to an end on every packet and with every
  initial contents of the scratch memory, although nothing bounds the number of iterations:
  all jumps go forward. The interpreter never fetches outside the program, never
  touches \<open>mem[]\<close> out of range, never divides by zero and never reaches the
  \<open>WARN_ON\<close> for an unknown operation code.
\<close>

theorem sk_run_filter_checked_safe:
  assumes "sk_chk_filter insns flen = Some (Inr ())" and "length mem0 = BPF_MEMWORDS"
  shows "\<exists>out. sk_run_filter mem0 skb insns flen = Some out \<and>
    ((\<exists>v. out = Ret v) \<or> (\<exists>f. out = Fault f \<and> f \<notin> {Bad_fetch, Bad_mem, Div_zero}))"
proof -
  have chk: "filter_checked insns flen" by (rule sk_chk_filter_checked [OF assms(1)])
  then have "0 < flen" by (simp add: filter_checked_def)
  then obtain out where out: "sk_run_filter mem0 skb insns flen = Some out"
      "case out of Next _ \<Rightarrow> False | Ret _ \<Rightarrow> True | Warned \<Rightarrow> False | Fault f \<Rightarrow> unchecked_fault f"
    using bpf_loop_checked [OF chk, of "\<lparr>bpf_A = 0, bpf_X = 0, bpf_mem = mem0, bpf_pc = 0\<rparr>" skb] assms(2)
    by (auto simp: sk_run_filter_def)
  then show ?thesis by (cases out) (auto simp: unchecked_fault_def)
qed

text \<open>An example: accept IPv4 packets (the ethernet type at offset 12) completely.\<close>

definition bpf_ip :: "sock_filter list" where
  "bpf_ip =
    [\<lparr>bf_code = 0x28, bf_jt = 0, bf_jf = 0, bf_k = 12\<rparr>,
     \<lparr>bf_code = 0x15, bf_jt = 0, bf_jf = 1, bf_k = 0x800\<rparr>,
     \<lparr>bf_code = 0x06, bf_jt = 0, bf_jf = 0, bf_k = 0xFFFF\<rparr>,
     \<lparr>bf_code = 0x06, bf_jt = 0, bf_jf = 0, bf_k = 0\<rparr>]"

lemmas bpf_eval = sk_chk_filter_def chk_insn_def bpf_decode_def bpf_cases_def BPF_CLASS_def

lemma bpf_ip_checked: "sk_chk_filter bpf_ip 4 = Some (Inr ())"
  by (simp add: bpf_ip_def bpf_eval)

theorem sk_run_filter_checked_safe_witness:
  "\<forall>skb. \<exists>out. sk_run_filter (replicate 16 7) skb bpf_ip 4 = Some out \<and>
    ((\<exists>v. out = Ret v) \<or> (\<exists>f. out = Fault f \<and> f \<notin> {Bad_fetch, Bad_mem, Div_zero}))"
  using sk_run_filter_checked_safe [OF bpf_ip_checked, of "replicate 16 7"] by simp

section \<open>Filters that only look at the packet bytes\<close>

text \<open>
  Programs without shifts by the width or more and with constant, non-negative packet offsets.
\<close>

definition plain_insn :: "sock_filter \<Rightarrow> bool" where
  "plain_insn fentry =
     (case bpf_decode (bf_code fentry) of
        Some (Alu LSH s) \<Rightarrow> s = SrcK \<and> unat (bf_k fentry) < 32
      | Some (Alu RSH s) \<Rightarrow> s = SrcK \<and> unat (bf_k fentry) < 32
      | Some (Ld_ABS _) \<Rightarrow> 0 \<le> sint (bf_k fentry)
      | Some Ldx_B_MSH \<Rightarrow> 0 \<le> sint (bf_k fentry)
      | Some (Ld_IND _) \<Rightarrow> False
      | _ \<Rightarrow> True)"

text \<open>The same packet with all its bytes in the linear area.\<close>

definition linearized :: "packet \<Rightarrow> packet" where
  "linearized skb = skb\<lparr>pk_data :=
     Skb (skb_len (pk_data skb)) (skb_bytes (pk_data skb)) [] []\<rparr>"

lemma linearized_wf: "skb_wf (pk_data skb) \<Longrightarrow> skb_wf (pk_data (linearized skb))"
  by (cases "pk_data skb") (simp add: linearized_def)

lemma load_pointer_plain:
  assumes "skb_wf (pk_data skb)" "0 \<le> k"
  shows "load_pointer (linearized skb) k n = load_pointer skb k n \<and>
    (\<exists>r. load_pointer skb k n = Inr r)"
proof -
  have "load_pointer skb k n = Inr (if k + int n \<le> int (skb_len (pk_data skb))
      then Some (segment (skb_bytes (pk_data skb)) k (int n)) else None)"
    if "skb_wf (pk_data skb)" for skb
    using skb_header_pointer_correct [OF that assms(2), of "int n"] assms(2)
    by (simp add: load_pointer_def)
  from this [OF assms(1)] this [OF linearized_wf [OF assms(1)]] show ?thesis
    by (simp add: linearized_def)
qed

lemma bpf_load_plain:
  assumes "skb_wf (pk_data skb)" "0 \<le> k"
  shows "bpf_load (linearized skb) sz k st = bpf_load skb sz k st \<and> bpf_load skb sz k st \<noteq> Fault f"
  using load_pointer_plain [OF assms, of "size_bytes sz"] assms(2)
  by (auto simp: bpf_load_def bpf_ancillary_def split: option.splits)

lemma bpf_exec_plain:
  assumes wf: "skb_wf (pk_data skb)" and plain: "plain_insn fentry"
    and chk: "chk_insn flen pc fentry" and mem: "length (bpf_mem st) = 16"
  shows "bpf_exec (linearized skb) fentry st = bpf_exec skb fentry st \<and>
    bpf_exec skb fentry st \<noteq> Fault flt"
proof -
  obtain i where i: "bpf_decode (bf_code fentry) = Some i"
    using chk by (auto simp: chk_insn_def split: option.splits)
  note rules = bpf_exec_def Let_def i mem chk_insn_def plain_insn_def
  show ?thesis
  proof (cases i)
    case (Alu f s)
    then show ?thesis
      using plain chk by (cases f; cases s) (auto simp: rules bpf_alu_def bpf_src_def)
  next
    case (Ld_ABS sz)
    then show ?thesis using plain bpf_load_plain [OF wf] by (simp add: rules)
  next
    case Ldx_B_MSH
    then show ?thesis
      using plain load_pointer_plain [OF wf, of "sint (bf_k fentry)" 1]
      by (auto simp: rules split: option.splits)
  qed (use plain chk in \<open>simp_all add: rules mem_load_def mem_store_def linearized_def\<close>)
qed

text \<open>Running a program for some iterations.\<close>

lemma bpf_loop_Next:
  assumes "0 \<le> bpf_pc st" "bpf_pc st < flen" "bpf_pc st < int (length insns)"
    and "bpf_exec skb (insns ! nat (bpf_pc st)) st = Next st'"
  shows "bpf_loop skb insns flen st = bpf_loop skb insns flen (st'\<lparr>bpf_pc := bpf_pc st' + 1\<rparr>)"
  using assms by (subst bpf_loop.simps) simp

lemma bpf_loop_end:
  assumes "0 \<le> bpf_pc st" "bpf_pc st < flen" "bpf_pc st < int (length insns)"
    and "bpf_exec skb (insns ! nat (bpf_pc st)) st = out" "\<forall>st'. out \<noteq> Next st'"
  shows "bpf_loop skb insns flen st = Some out"
  using assms by (subst bpf_loop.simps) (auto split: bpf_outcome.split)

lemma bpf_loop_plain:
  assumes chk: "filter_checked insns flen" and wf: "skb_wf (pk_data skb)"
    and plain: "\<forall>i \<in> set insns. plain_insn i"
    and "0 \<le> bpf_pc st" "bpf_pc st < flen" "length (bpf_mem st) = 16"
  shows "bpf_loop (linearized skb) insns flen st = bpf_loop skb insns flen st \<and>
    bpf_loop skb insns flen st \<noteq> Some (Fault f)"
  using assms(4-)
proof (induction "nat (flen - bpf_pc st)" arbitrary: st rule: less_induct)
  case less
  let ?pc = "bpf_pc st"
  let ?i = "insns ! nat ?pc"
  have len: "flen \<le> int (length insns)" "flen \<le> 4096" using chk by (auto simp: filter_checked_def)
  then have in_range: "?pc < int (length insns)" "plain_insn ?i"
    using less.prems plain by (auto simp: nat_less_iff)
  have chk_i: "chk_insn flen ?pc ?i" using chk less.prems by (simp add: filter_checked_def)
  have good: "good_outcome flen ?pc (bpf_exec skb ?i st)"
    using bpf_exec_good [OF chk_i less.prems(1,2) len(2) refl less.prems(3)] .
  note same = bpf_exec_plain [OF wf in_range(2) chk_i less.prems(3)]
  show ?case
  proof (cases "\<exists>st'. bpf_exec skb ?i st = Next st'")
    case True
    then obtain st' where st': "bpf_exec skb ?i st = Next st'" ..
    let ?st = "st'\<lparr>bpf_pc := bpf_pc st' + 1\<rparr>"
    have st: "length (bpf_mem ?st) = 16" "?pc < bpf_pc ?st" using good st' by auto
    have "bpf_loop (linearized skb) insns flen ?st = bpf_loop skb insns flen ?st \<and>
        bpf_loop skb insns flen ?st \<noteq> Some (Fault f)"
    proof (cases "bpf_pc ?st < flen")
      case True
      with st less.prems show ?thesis by (intro less.hyps) auto
    next
      case False
      then show ?thesis
        by (simp add: bpf_loop.simps [of skb insns flen ?st]
            bpf_loop.simps [of "linearized skb" insns flen ?st])
    qed
    then show ?thesis
      using st' same less.prems in_range bpf_loop_Next [of st flen insns _ st'] by auto
  next
    case False
    then show ?thesis
      using same less.prems in_range bpf_loop_end [of st flen insns] by simp
  qed
qed

text \<open>
  C8. A checked program whose packet offsets are non-negative constants and whose shift counts are
  constants below 32 always returns a value, and the value depends on the bytes of the
  packet only: how they are spread over the linear area, the page fragments and the
  chained buffers makes no difference.
\<close>

theorem sk_run_filter_plain_returns:
  assumes "sk_chk_filter insns flen = Some (Inr ())" and "\<forall>i \<in> set insns. plain_insn i"
    and "skb_wf (pk_data skb)" and "length mem0 = BPF_MEMWORDS"
  shows "\<exists>v. sk_run_filter mem0 skb insns flen = Some (Ret v) \<and>
    sk_run_filter mem0 (linearized skb) insns flen = Some (Ret v)"
proof -
  have chk: "filter_checked insns flen" by (rule sk_chk_filter_checked [OF assms(1)])
  let ?st = "\<lparr>bpf_A = 0, bpf_X = 0, bpf_mem = mem0, bpf_pc = 0\<rparr>"
  have st: "0 \<le> bpf_pc ?st" "bpf_pc ?st < flen" "length (bpf_mem ?st) = 16"
    using chk assms(4) by (auto simp: filter_checked_def)
  obtain out where out: "bpf_loop skb insns flen ?st = Some out"
      "case out of Next _ \<Rightarrow> False | Ret _ \<Rightarrow> True | Warned \<Rightarrow> False | Fault f \<Rightarrow> unchecked_fault f"
    using bpf_loop_checked [OF chk st] by blast
  with bpf_loop_plain [OF chk assms(3,2) st] show ?thesis
    by (cases out) (auto simp: sk_run_filter_def)
qed

definition packet_of :: "skb_data \<Rightarrow> packet" where
  "packet_of d = \<lparr>pk_data = d, pk_headroom = [], pk_network_header = 0, pk_mac_header = 0,
     pk_protocol = 8, pk_pkt_type = 0, pk_dev_ifindex = None\<rparr>"

theorem sk_run_filter_plain_returns_witness:
  "\<exists>v. sk_run_filter (replicate 16 0) (packet_of skb_example) bpf_ip 4 = Some (Ret v) \<and>
    sk_run_filter (replicate 16 0) (linearized (packet_of skb_example)) bpf_ip 4 = Some (Ret v)"
  using sk_run_filter_plain_returns [OF bpf_ip_checked, of "packet_of skb_example" "replicate 16 0"]
  by (simp add: bpf_ip_def plain_insn_def bpf_decode_def bpf_cases_def packet_of_def skb_example_def)

section \<open>What the checker does not exclude\<close>

definition bpf_stmt :: "u16 \<Rightarrow> u32 \<Rightarrow> sock_filter" where
  "bpf_stmt code k = \<lparr>bf_code = code, bf_jt = 0, bf_jf = 0, bf_k = k\<rparr>"

lemmas bpf_run_eval = bpf_exec_def bpf_decode_def bpf_cases_def bpf_stmt_def Let_def

text \<open>Reading a scratch word that was never written returns the bytes of the kernel stack.\<close>

lemma bpf_mem_leak:
  assumes "length mem0 = 16"
  shows "sk_run_filter mem0 skb [bpf_stmt 0x60 3, bpf_stmt 0x16 0] 2 = Some (Ret (mem0 ! 3))"
  unfolding sk_run_filter_def
  by (subst bpf_loop_Next, simp_all add: bpf_run_eval mem_load_def assms)
    (subst bpf_loop_end, simp_all add: bpf_run_eval)

text \<open>A shift count that is not checked.\<close>

lemma bpf_shift_fault:
  "sk_run_filter mem0 skb [bpf_stmt 0x64 32, bpf_stmt 0x16 0] 2 = Some (Fault Bad_shift)"
  unfolding sk_run_filter_def
  by (subst bpf_loop_end, simp_all add: bpf_run_eval bpf_alu_def bpf_src_def)

text \<open>A load of the interface index from a packet without a device.\<close>

lemma bpf_null_dev_fault:
  "sk_run_filter mem0 (packet_of d) [bpf_stmt 0x20 (- 0x1000 + 8), bpf_stmt 0x16 0] 2 =
    Some (Fault Null_dev)"
  unfolding sk_run_filter_def
  by (subst bpf_loop_end, simp_all add: bpf_run_eval bpf_load_def load_pointer_def
      bpf_ancillary_def packet_of_def)

text \<open>
  A nested attribute whose length field points behind the packet: the bound is compared the
  wrong way round (\<open>A - skb->len\<close> instead of \<open>skb->len - A\<close>), so the search runs out of the packet.
\<close>

lemma bpf_nest_fault:
  "sk_run_filter mem0 (packet_of (Skb 4 [0xFF, 0xFF, 1, 0] [] []))
     [bpf_stmt 0x20 (- 0x1000 + 16), bpf_stmt 0x16 0] 2 = Some (Fault Bad_attr)"
proof -
  let ?d = "[0xFF, 0xFF, 1, 0] :: u8 list"
  have "get_u16 ?d 0 = Some 0xFFFF" by (simp add: get_u16_def)
  then have "nla_find_nested ?d 0 0 = None"
    by (simp add: nla_find_nested_def nla_len_def nlattr_len_def nla_find_def
        nla_for_each_attr.simps [of ?d] nla_ok_def get_u16_def)
  then show ?thesis
    unfolding sk_run_filter_def
    by (subst bpf_loop_end, simp_all add: bpf_run_eval bpf_load_def load_pointer_def
        bpf_ancillary_def packet_of_def skb_is_nonlinear_def nlattr_out_of_range_def
        get_u16_def nla_pos_def)
qed

text \<open>
  On a packet of fewer than four bytes the test \<open>A > skb->len - sizeof(struct nlattr)\<close> wraps
  around and lets every \<open>A\<close> through.
\<close>

lemma bpf_nlattr_fault:
  "sk_run_filter mem0 (packet_of (Skb 0 [] [] []))
     [bpf_stmt 0x00 0x80000001, bpf_stmt 0x20 (- 0x1000 + 12), bpf_stmt 0x16 0] 3 =
    Some (Fault Bad_attr)"
proof -
  have "nla_find [] 0x80000001 0x7FFFFFFF 0 = None"
    by (simp add: nla_find_def nla_for_each_attr.simps nla_ok_def nlattr_len_def get_u16_def)
  then show ?thesis
    unfolding sk_run_filter_def
    by (subst bpf_loop_Next, simp_all add: bpf_run_eval)
      (subst bpf_loop_end, simp_all add: bpf_run_eval bpf_load_def load_pointer_def
        bpf_ancillary_def packet_of_def skb_is_nonlinear_def nlattr_out_of_range_def nla_pos_def)
qed

text \<open>
  A word load relative to the link-layer header whose first byte is the last byte of the
  packet: only that byte is compared with the tail.
\<close>

lemma bpf_tail_fault:
  "sk_run_filter mem0 (packet_of (Skb 1 [7] [] []))
     [bpf_stmt 0x20 (- 0x200000), bpf_stmt 0x16 0] 2 = Some (Fault Past_tail)"
  unfolding sk_run_filter_def
  by (subst bpf_loop_end, simp_all add: bpf_run_eval bpf_load_def load_pointer_def
      raw_load_pointer_def packet_of_def mem_read_def)

text \<open>
  C10. The limits of the checker: programs it accepts that return an uninitialised word of the
  kernel stack, shift by the width, dereference a null device, read past the tail of
  the packet, and read a netlink attribute outside the packet because of the reversed bound
  of \<open>SKF_AD_NLATTR_NEST\<close> or of the wrap-around on packets shorter than a header.
\<close>

theorem sk_chk_filter_gaps:
  "(let leak = [bpf_stmt 0x60 3, bpf_stmt 0x16 0]; shift = [bpf_stmt 0x64 32, bpf_stmt 0x16 0];
        dev = [bpf_stmt 0x20 (- 0x1000 + 8), bpf_stmt 0x16 0];
        tail = [bpf_stmt 0x20 (- 0x200000), bpf_stmt 0x16 0];
        nest = [bpf_stmt 0x20 (- 0x1000 + 16), bpf_stmt 0x16 0];
        attr = [bpf_stmt 0x00 0x80000001, bpf_stmt 0x20 (- 0x1000 + 12), bpf_stmt 0x16 0]
    in sk_chk_filter leak 2 = Some (Inr ()) \<and>
       sk_run_filter (replicate 16 stale) (packet_of (Skb 0 [] [] [])) leak 2 = Some (Ret stale) \<and>
       sk_chk_filter shift 2 = Some (Inr ()) \<and>
       sk_run_filter mem0 (packet_of (Skb 0 [] [] [])) shift 2 = Some (Fault Bad_shift) \<and>
       sk_chk_filter dev 2 = Some (Inr ()) \<and>
       sk_run_filter mem0 (packet_of (Skb 0 [] [] [])) dev 2 = Some (Fault Null_dev) \<and>
       sk_chk_filter tail 2 = Some (Inr ()) \<and>
       sk_run_filter mem0 (packet_of (Skb 1 [7] [] [])) tail 2 = Some (Fault Past_tail) \<and>
       sk_chk_filter nest 2 = Some (Inr ()) \<and>
       sk_run_filter mem0 (packet_of (Skb 4 [0xFF, 0xFF, 1, 0] [] [])) nest 2 = Some (Fault Bad_attr) \<and>
       sk_chk_filter attr 3 = Some (Inr ()) \<and>
       sk_run_filter mem0 (packet_of (Skb 0 [] [] [])) attr 3 = Some (Fault Bad_attr))"
proof -
  have "sk_chk_filter [bpf_stmt 0x60 3, bpf_stmt 0x16 0] 2 = Some (Inr ())"
    "sk_chk_filter [bpf_stmt 0x64 32, bpf_stmt 0x16 0] 2 = Some (Inr ())"
    "sk_chk_filter [bpf_stmt 0x20 k, bpf_stmt 0x16 0] 2 = Some (Inr ())"
    "sk_chk_filter [bpf_stmt 0x00 k', bpf_stmt 0x20 k, bpf_stmt 0x16 0] 3 = Some (Inr ())" for k k'
    by (simp_all add: bpf_eval bpf_stmt_def)
  then show ?thesis
    unfolding Let_def
    by (intro conjI bpf_shift_fault bpf_null_dev_fault bpf_tail_fault bpf_nest_fault
        bpf_nlattr_fault) (simp_all add: bpf_mem_leak)
qed

end
