(* ===== verification/Bpf_Socket.thy ===== *)
theory Bpf_Socket
  imports Bpf_Filter "HOL-Library.Multiset"
begin

text \<open>
  The life of a socket filter: attaching, replacing, sharing between cloned sockets, detaching
  and freeing (\<^verbatim>\<open>net/core/filter.c\<close>, \<^verbatim>\<open>net/core/sock.c\<close>, \<^verbatim>\<open>include/net/sock.h\<close>), with the
  reference counts, the option-memory charge, the callbacks deferred by \<open>call_rcu_bh\<close> and the
  readers inside \<open>rcu_read_lock_bh\<close>. Filters and sockets are objects of explicit stores;
  \<open>None\<close> is an access to an object that is not allocated, or the queueing of a callback head
  that is still queued, which corrupts the callback list.
\<close>

section \<open>State\<close>

record filter_obj =
  fo_refcnt :: int
  fo_insns :: "sock_filter list"

record sock =
  sk_filter_ptr :: "nat option"
  sk_omem_alloc :: int

text \<open>
  \<open>w_rcu\<close> holds the pending callbacks, each with the readers that were active when it was
  queued: a grace period ends only after they have left. \<open>w_readers\<close> gives for every
  active run of \<open>sk_filter\<close> the socket and the filter it has loaded.
\<close>

record world =
  w_filters :: "nat \<Rightarrow> filter_obj option"
  w_socks :: "nat \<Rightarrow> sock option"
  w_rcu :: "(nat \<times> nat set) list"
  w_readers :: "nat \<Rightarrow> (nat \<times> nat) option"

definition sk_filter_len :: "filter_obj \<Rightarrow> int" where
  "sk_filter_len fp = int (length (fo_insns fp)) * 8 + 24"

definition upd_sock :: "nat \<Rightarrow> (sock \<Rightarrow> sock) \<Rightarrow> world \<Rightarrow> world option" where
  "upd_sock s g w = (case w_socks w s of None \<Rightarrow> None
     | Some sk \<Rightarrow> Some (w\<lparr>w_socks := (w_socks w)(s \<mapsto> g sk)\<rparr>))"

section \<open>Operations\<close>

text \<open>
  \<open>sock_kmalloc\<close> with \<open>kmalloc\<close>'s answer \<open>mem\<close> as an argument: the address, or \<open>None\<close>.
\<close>

definition sock_kmalloc :: "int \<Rightarrow> nat option \<Rightarrow> nat \<Rightarrow> int \<Rightarrow> world \<Rightarrow> (nat option \<times> world) option" where
  "sock_kmalloc optmem_max mem s n w =
     (case w_socks w s of
        None \<Rightarrow> None
      | Some sk \<Rightarrow>
          if n \<le> optmem_max \<and> sk_omem_alloc sk + n < optmem_max then
            do {
              w \<leftarrow> upd_sock s (\<lambda>sk. sk\<lparr>sk_omem_alloc := sk_omem_alloc sk + n\<rparr>) w;
              (case mem of
                 Some p \<Rightarrow> Some (Some p, w)
               | None \<Rightarrow> do {
                   w \<leftarrow> upd_sock s (\<lambda>sk. sk\<lparr>sk_omem_alloc := sk_omem_alloc sk - n\<rparr>) w;
                   Some (None, w) })
            }
          else Some (None, w))"

definition sock_kfree_s :: "nat \<Rightarrow> nat \<Rightarrow> int \<Rightarrow> world \<Rightarrow> world option" where
  "sock_kfree_s s p n w =
     upd_sock s (\<lambda>sk. sk\<lparr>sk_omem_alloc := sk_omem_alloc sk - n\<rparr>)
       (w\<lparr>w_filters := (w_filters w)(p := None)\<rparr>)"

definition sk_filter_release :: "nat \<Rightarrow> world \<Rightarrow> world option" where
  "sk_filter_release p w =
     (case w_filters w p of
        None \<Rightarrow> None
      | Some fp \<Rightarrow>
          if fo_refcnt fp - 1 = 0 then Some (w\<lparr>w_filters := (w_filters w)(p := None)\<rparr>)
          else Some (w\<lparr>w_filters := (w_filters w)(p \<mapsto> fp\<lparr>fo_refcnt := fo_refcnt fp - 1\<rparr>)\<rparr>))"

definition sk_filter_uncharge :: "nat \<Rightarrow> nat \<Rightarrow> world \<Rightarrow> world option" where
  "sk_filter_uncharge s p w =
     (case w_filters w p of
        None \<Rightarrow> None
      | Some fp \<Rightarrow>
          do {
            w \<leftarrow> upd_sock s (\<lambda>sk. sk\<lparr>sk_omem_alloc := sk_omem_alloc sk - sk_filter_len fp\<rparr>) w;
            sk_filter_release p w
          })"

definition sk_filter_charge :: "nat \<Rightarrow> nat \<Rightarrow> world \<Rightarrow> world option" where
  "sk_filter_charge s p w =
     (case w_filters w p of
        None \<Rightarrow> None
      | Some fp \<Rightarrow>
          upd_sock s (\<lambda>sk. sk\<lparr>sk_omem_alloc := sk_omem_alloc sk + sk_filter_len fp\<rparr>)
            (w\<lparr>w_filters := (w_filters w)(p \<mapsto> fp\<lparr>fo_refcnt := fo_refcnt fp + 1\<rparr>)\<rparr>))"

text \<open>\<open>sk_filter_rcu_release\<close> is the callback.\<close>

definition sk_filter_rcu_release :: "nat \<Rightarrow> world \<Rightarrow> world option" where
  "sk_filter_rcu_release p w = sk_filter_release p w"

text \<open>
  \<open>call_rcu_bh\<close> links the one \<open>rcu_head\<close> embedded in the filter into the callback list (the lists
  of the processors are one list here). If that head is still linked, \<open>head->next = NULL\<close> cuts the
  list behind it: the fault of the model.
\<close>

definition call_rcu_bh :: "nat \<Rightarrow> world \<Rightarrow> world option" where
  "call_rcu_bh p w =
     (if p \<in> fst ` set (w_rcu w) then None
      else Some (w\<lparr>w_rcu := w_rcu w @ [(p, dom (w_readers w))]\<rparr>))"

definition sk_filter_delayed_uncharge :: "nat \<Rightarrow> nat \<Rightarrow> world \<Rightarrow> world option" where
  "sk_filter_delayed_uncharge s p w =
     (case w_filters w p of
        None \<Rightarrow> None
      | Some fp \<Rightarrow>
          do {
            w \<leftarrow> upd_sock s (\<lambda>sk. sk\<lparr>sk_omem_alloc := sk_omem_alloc sk - sk_filter_len fp\<rparr>) w;
            call_rcu_bh p w
          })"

text \<open>
  \<open>sk_attach_filter\<close>: \<open>fprog\<close> is the user's program (\<open>None\<close> a null pointer), \<open>mem\<close> the answer of
  \<open>kmalloc\<close> and \<open>fault\<close> whether \<open>copy_from_user\<close> fails.
\<close>

definition sk_attach_filter ::
  "int \<Rightarrow> nat option \<Rightarrow> bool \<Rightarrow> sock_filter list option \<Rightarrow> nat \<Rightarrow> world \<Rightarrow> (unit result \<times> world) option" where
  "sk_attach_filter optmem_max mem fault fprog s w =
     (case fprog of
        None \<Rightarrow> Some (Inl EINVAL, w)
      | Some insns \<Rightarrow>
          let fsize = 8 * int (length insns) in
          do {
            (fp, w) \<leftarrow> sock_kmalloc optmem_max mem s (fsize + 24) w;
            (case fp of
               None \<Rightarrow> Some (Inl ENOMEM, w)
             | Some p \<Rightarrow>
                 if fault then do {
                   w \<leftarrow> sock_kfree_s s p (fsize + 24) w;
                   Some (Inl EFAULT, w) }
                 else do {
                   let w = w\<lparr>w_filters := (w_filters w)(p \<mapsto> \<lparr>fo_refcnt = 1, fo_insns = insns\<rparr>)\<rparr>;
                   err \<leftarrow> sk_chk_filter insns (int (length insns));
                   (case err of
                      Inl e \<Rightarrow> do {
                        w \<leftarrow> sk_filter_uncharge s p w;
                        Some (Inl e, w) }
                    | Inr _ \<Rightarrow> do {
                        sk \<leftarrow> w_socks w s;
                        let old_fp = sk_filter_ptr sk;
                        w \<leftarrow> upd_sock s (\<lambda>sk. sk\<lparr>sk_filter_ptr := Some p\<rparr>) w;
                        w \<leftarrow> (case old_fp of
                               None \<Rightarrow> Some w
                             | Some old \<Rightarrow> sk_filter_delayed_uncharge s old w);
                        Some (Inr (), w) })
                 })
          })"

definition sk_detach_filter :: "nat \<Rightarrow> world \<Rightarrow> (unit result \<times> world) option" where
  "sk_detach_filter s w =
     do {
       sk \<leftarrow> w_socks w s;
       (case sk_filter_ptr sk of
          None \<Rightarrow> Some (Inl ENOENT, w)
        | Some p \<Rightarrow> do {
            w \<leftarrow> upd_sock s (\<lambda>sk. sk\<lparr>sk_filter_ptr := None\<rparr>) w;
            w \<leftarrow> sk_filter_delayed_uncharge s p w;
            Some (Inr (), w) })
     }"

text \<open>
  \<open>sk_clone\<close>, as far as the filter is concerned: the copy has the filter pointer of the parent
  and an option-memory counter of 0, then it is charged. \<open>__sk_free\<close> releases it.
\<close>

definition raw_sk_free :: "nat \<Rightarrow> world \<Rightarrow> world option" where
  "raw_sk_free s w =
     do {
       sk \<leftarrow> w_socks w s;
       w \<leftarrow> (case sk_filter_ptr sk of
               None \<Rightarrow> Some w
             | Some p \<Rightarrow> do {
                 w \<leftarrow> sk_filter_uncharge s p w;
                 upd_sock s (\<lambda>sk. sk\<lparr>sk_filter_ptr := None\<rparr>) w });
       Some (w\<lparr>w_socks := (w_socks w)(s := None)\<rparr>)
     }"

definition sk_clone :: "nat \<Rightarrow> nat \<Rightarrow> bool \<Rightarrow> world \<Rightarrow> (nat option \<times> world) option" where
  "sk_clone s newsk xfrm_fails w =
     do {
       sk \<leftarrow> w_socks w s;
       let w = w\<lparr>w_socks := (w_socks w)(newsk \<mapsto> sk\<lparr>sk_omem_alloc := 0\<rparr>)\<rparr>;
       w \<leftarrow> (case sk_filter_ptr sk of None \<Rightarrow> Some w | Some p \<Rightarrow> sk_filter_charge newsk p w);
       if xfrm_fails then do { w \<leftarrow> raw_sk_free newsk w; Some (None, w) }
       else Some (Some newsk, w)
     }"

section \<open>Reachable states\<close>

inductive sk_step :: "int \<Rightarrow> world \<Rightarrow> world \<Rightarrow> bool" for optmem_max where
  new_sock: "w_socks w s = None \<Longrightarrow>
    sk_step optmem_max w (w\<lparr>w_socks := (w_socks w)(s \<mapsto> \<lparr>sk_filter_ptr = None, sk_omem_alloc = 0\<rparr>)\<rparr>)"
| attach: "w_socks w s \<noteq> None \<Longrightarrow> (\<forall>p. mem = Some p \<longrightarrow> w_filters w p = None) \<Longrightarrow>
    sk_attach_filter optmem_max mem fault fprog s w = Some (r, w') \<Longrightarrow> sk_step optmem_max w w'"
| detach: "w_socks w s \<noteq> None \<Longrightarrow> sk_detach_filter s w = Some (r, w') \<Longrightarrow> sk_step optmem_max w w'"
| clone: "w_socks w s \<noteq> None \<Longrightarrow> w_socks w n = None \<Longrightarrow> sk_clone s n xfrm_fails w = Some (r', w') \<Longrightarrow>
    sk_step optmem_max w w'"
| free: "w_socks w s \<noteq> None \<Longrightarrow> (\<forall>r p. w_readers w r \<noteq> Some (s, p)) \<Longrightarrow> raw_sk_free s w = Some w' \<Longrightarrow>
    sk_step optmem_max w w'"
| grace_period: "w_rcu w = xs @ (p, R) # ys \<Longrightarrow> R \<inter> dom (w_readers w) = {} \<Longrightarrow>
    sk_filter_rcu_release p (w\<lparr>w_rcu := xs @ ys\<rparr>) = Some w' \<Longrightarrow> sk_step optmem_max w w'"
| read_begin: "w_readers w r = None \<Longrightarrow> w_socks w s = Some sk \<Longrightarrow> sk_filter_ptr sk = Some p \<Longrightarrow>
    sk_step optmem_max w (w\<lparr>w_readers := (w_readers w)(r \<mapsto> (s, p))\<rparr>)"
| read_end: "w_readers w r \<noteq> None \<Longrightarrow>
    sk_step optmem_max w (w\<lparr>w_readers := (w_readers w)(r := None)\<rparr>)"

definition empty_world :: world where
  "empty_world = \<lparr>w_filters = (\<lambda>_. None), w_socks = (\<lambda>_. None), w_rcu = [], w_readers = (\<lambda>_. None)\<rparr>"

definition sk_reachable :: "int \<Rightarrow> world \<Rightarrow> bool" where
  "sk_reachable optmem_max w \<longleftrightarrow> (sk_step optmem_max)\<^sup>*\<^sup>* empty_world w"

section \<open>The invariant\<close>

definition ptr_of :: "sock option \<Rightarrow> nat option" where
  "ptr_of x = Option.bind x sk_filter_ptr"

definition sock_refs :: "(nat \<Rightarrow> sock option) \<Rightarrow> nat \<Rightarrow> nat" where
  "sock_refs socks p = card {s. ptr_of (socks s) = Some p}"

definition rcu_refs :: "(nat \<times> nat set) list \<Rightarrow> nat \<Rightarrow> nat" where
  "rcu_refs rcu p = count (mset (map fst rcu)) p"

definition filter_ok :: "filter_obj \<Rightarrow> bool" where
  "filter_ok fp \<longleftrightarrow> sk_chk_filter (fo_insns fp) (int (length (fo_insns fp))) = Some (Inr ())"

text \<open>
  The reference count of a filter is the number of sockets that point to it plus the number of
  pending callbacks for it, an address with no reference is free, every allocated filter
  has passed the checker; a socket's option memory is the size of its filter; a reader's filter
  is still attached to its socket or waits for the reader in a pending callback; no filter has
  two pending callbacks.
\<close>

definition refs :: "world \<Rightarrow> nat \<Rightarrow> nat" where
  "refs w p = sock_refs (w_socks w) p + rcu_refs (w_rcu w) p"

definition filter_inv :: "world \<Rightarrow> nat \<Rightarrow> bool" where
  "filter_inv w p \<longleftrightarrow>
     (w_filters w p = None \<longrightarrow> refs w p = 0) \<and>
     (\<forall>fp. w_filters w p = Some fp \<longrightarrow>
        fo_refcnt fp = int (refs w p) \<and> 0 < fo_refcnt fp \<and> filter_ok fp)"

definition charge :: "(nat \<Rightarrow> filter_obj option) \<Rightarrow> nat option \<Rightarrow> int" where
  "charge filters ptr = (case ptr of None \<Rightarrow> 0
     | Some p \<Rightarrow> (case filters p of None \<Rightarrow> 0 | Some fp \<Rightarrow> sk_filter_len fp))"

definition reader_inv :: "world \<Rightarrow> bool" where
  "reader_inv w \<longleftrightarrow> (\<forall>r s p. w_readers w r = Some (s, p) \<longrightarrow>
     (\<exists>sk. w_socks w s = Some sk \<and>
       (sk_filter_ptr sk = Some p \<or> (\<exists>R. (p, R) \<in> set (w_rcu w) \<and> r \<in> R))))"

definition sk_inv :: "world \<Rightarrow> bool" where
  "sk_inv w \<longleftrightarrow> finite (dom (w_socks w)) \<and> distinct (map fst (w_rcu w)) \<and> (\<forall>p. filter_inv w p) \<and>
     (\<forall>s sk. w_socks w s = Some sk \<longrightarrow> sk_omem_alloc sk = charge (w_filters w) (sk_filter_ptr sk)) \<and>
     reader_inv w"

lemma finite_ptrs: "finite (dom socks) \<Longrightarrow> finite {s. ptr_of (socks s) = Some p}"
  by (rule finite_subset [of _ "dom socks"]) (auto simp: ptr_of_def split: bind_splits)

lemma sock_refs_upd:
  assumes "finite (dom socks)"
  shows "sock_refs (socks(s := x)) p + (if ptr_of (socks s) = Some p then 1 else 0) =
    sock_refs socks p + (if ptr_of x = Some p then 1 else 0)"
proof -
  let ?S = "{t. ptr_of (socks t) = Some p} - {s}"
  have fin: "finite ?S" using finite_ptrs [OF assms] by simp
  have "{t. ptr_of ((socks(s := x)) t) = Some p} =
      (if ptr_of x = Some p then insert s ?S else ?S)" by auto
  moreover have "{t. ptr_of (socks t) = Some p} =
      (if ptr_of (socks s) = Some p then insert s ?S else ?S)" by auto
  moreover have "card (insert s ?S) = Suc (card ?S)"
    using fin by (intro card_insert_disjoint) auto
  ultimately show ?thesis unfolding sock_refs_def by (auto split: if_splits)
qed

lemma sock_refs_pos:
  assumes "finite (dom socks)" "socks s = Some sk" "sk_filter_ptr sk = Some p"
  shows "0 < sock_refs socks p"
proof -
  have "s \<in> {s. ptr_of (socks s) = Some p}" using assms by (simp add: ptr_of_def)
  then show ?thesis unfolding sock_refs_def
    using finite_ptrs [OF assms(1)] card_gt_0_iff by blast
qed

lemma rcu_refs_append [simp]: "rcu_refs (xs @ ys) p = rcu_refs xs p + rcu_refs ys p"
  by (simp add: rcu_refs_def)

lemma rcu_refs_Cons [simp]: "rcu_refs ((q, R) # ys) p = (if p = q then 1 else 0) + rcu_refs ys p"
  by (simp add: rcu_refs_def)

lemma rcu_refs_Nil [simp]: "rcu_refs [] p = 0"
  by (simp add: rcu_refs_def)

text \<open>What the invariant says of a socket's filter.\<close>

lemma sk_inv_filter_inv: "sk_inv w \<Longrightarrow> filter_inv w p"
  by (simp add: sk_inv_def)

lemma sk_inv_filter:
  assumes "sk_inv w" "w_socks w s = Some sk" "sk_filter_ptr sk = Some p"
  shows "\<exists>fp. w_filters w p = Some fp \<and> filter_ok fp \<and> 0 < fo_refcnt fp \<and>
    sk_omem_alloc sk = sk_filter_len fp"
proof -
  have "0 < sock_refs (w_socks w) p"
    using assms by (intro sock_refs_pos) (auto simp: sk_inv_def)
  moreover have "filter_inv w p" using assms(1) by (simp add: sk_inv_def)
  ultimately obtain fp where "w_filters w p = Some fp" "filter_ok fp" "0 < fo_refcnt fp"
    by (auto simp: filter_inv_def refs_def split: option.splits)
  with assms show ?thesis by (auto simp: sk_inv_def charge_def)
qed

section \<open>The operations on good states\<close>

text \<open>The filter of a socket has a callback pending: a clone that shared it has dropped it.\<close>

definition pending :: "sock \<Rightarrow> world \<Rightarrow> bool" where
  "pending sk w \<longleftrightarrow> (\<exists>p. sk_filter_ptr sk = Some p \<and> p \<in> fst ` set (w_rcu w))"

text \<open>The state after a successful attachment.\<close>

definition attached :: "nat \<Rightarrow> nat \<Rightarrow> sock_filter list \<Rightarrow> sock \<Rightarrow> world \<Rightarrow> world" where
  "attached s p insns sk w =
     w\<lparr>w_filters := (w_filters w)(p \<mapsto> \<lparr>fo_refcnt = 1, fo_insns = insns\<rparr>),
       w_socks := (w_socks w)(s \<mapsto>
         \<lparr>sk_filter_ptr = Some p, sk_omem_alloc = 8 * int (length insns) + 24\<rparr>),
       w_rcu := w_rcu w @ (case sk_filter_ptr sk of None \<Rightarrow> [] | Some q \<Rightarrow> [(q, dom (w_readers w))])\<rparr>"

lemma sk_attach_filter_effect:
  assumes inv: "sk_inv w" and sk: "w_socks w s = Some sk"
    and fresh: "\<forall>p. mem = Some p \<longrightarrow> w_filters w p = None"
    and chk: "\<forall>insns. fprog = Some insns \<longrightarrow>
      (\<exists>r. sk_chk_filter insns (int (length insns)) = Some r)"
  shows "sk_attach_filter optmem_max mem fault fprog s w = None \<and> pending sk w \<or>
    (\<exists>r w'. sk_attach_filter optmem_max mem fault fprog s w = Some (r, w') \<and>
    (case r of
       Inl e \<Rightarrow> w' = w
     | Inr _ \<Rightarrow> \<not> pending sk w \<and> (\<exists>p insns. mem = Some p \<and> fprog = Some insns \<and>
         w' = attached s p insns sk w \<and> sk_chk_filter insns (int (length insns)) = Some (Inr ()))))"
proof -
  have same: "(w_socks w)(s \<mapsto> sk) = w_socks w" "w_filters w p = None \<Longrightarrow> (w_filters w)(p := None) = w_filters w" for p
    using sk by (auto simp: fun_eq_iff)
  have sk_eta: "sk\<lparr>sk_omem_alloc := sk_omem_alloc sk\<rparr> = sk" by simp
  show ?thesis
  proof (cases fprog)
    case None
    then show ?thesis by (simp add: sk_attach_filter_def)
  next
    case prog: (Some insns)
    let ?n = "8 * int (length insns) + 24"
    obtain r where r: "sk_chk_filter insns (int (length insns)) = Some r" using chk prog by blast
    note rules = sk_attach_filter_def sock_kmalloc_def sock_kfree_s_def upd_sock_def Let_def sk prog r
    show ?thesis
    proof (cases "?n \<le> optmem_max \<and> sk_omem_alloc sk + ?n < optmem_max")
      case False
      then show ?thesis by (auto simp: rules)
    next
      case room: True
      show ?thesis
      proof (cases mem)
        case None
        with room same show ?thesis by (simp add: rules)
      next
        case (Some p)
        with fresh have p: "w_filters w p = None" by simp
        show ?thesis
        proof (cases "fault \<or> (\<exists>e. r = Inl e)")
          case True
          with room same p Some show ?thesis
            by (auto simp: rules sk_filter_uncharge_def sk_filter_release_def sk_filter_len_def)
        next
          case False
          then have ok: "\<not> fault" "r = Inr ()" by (cases r; auto)+
          have "sk_attach_filter optmem_max mem fault fprog s w =
              (if pending sk w then None else Some (Inr (), attached s p insns sk w))"
          proof (cases "sk_filter_ptr sk")
            case None
            then have "sk_omem_alloc sk = 0" using inv sk by (auto simp: sk_inv_def charge_def)
            with None ok room Some show ?thesis
              by (cases sk) (simp add: rules attached_def pending_def)
          next
            case old: (Some q)
            obtain fp where "w_filters w q = Some fp" "sk_omem_alloc sk = sk_filter_len fp"
              using sk_inv_filter [OF inv sk old] by blast
            with old ok room Some p show ?thesis
              by (cases sk) (auto simp: rules attached_def sk_filter_delayed_uncharge_def call_rcu_bh_def pending_def)
          qed
          with ok Some prog r show ?thesis by simp
        qed
      qed
    qed
  qed
qed

lemma sk_inv_no_filter:
  "sk_inv w \<Longrightarrow> w_socks w s = Some sk \<Longrightarrow> sk_filter_ptr sk = None \<Longrightarrow> sk_omem_alloc sk = 0"
  by (auto simp: sk_inv_def charge_def)

definition detached :: "nat \<Rightarrow> nat \<Rightarrow> world \<Rightarrow> world" where
  "detached s p w =
     w\<lparr>w_socks := (w_socks w)(s \<mapsto> \<lparr>sk_filter_ptr = None, sk_omem_alloc = 0\<rparr>),
       w_rcu := w_rcu w @ [(p, dom (w_readers w))]\<rparr>"

lemma sk_detach_filter_effect:
  assumes inv: "sk_inv w" and sk: "w_socks w s = Some sk"
  shows "sk_detach_filter s w =
    (if pending sk w then None
     else Some (case sk_filter_ptr sk of None \<Rightarrow> (Inl ENOENT, w) | Some p \<Rightarrow> (Inr (), detached s p w)))"
proof (cases "sk_filter_ptr sk")
  case None
  then show ?thesis by (simp add: sk_detach_filter_def sk pending_def)
next
  case (Some p)
  obtain fp where "w_filters w p = Some fp" "sk_omem_alloc sk = sk_filter_len fp"
    using sk_inv_filter [OF inv sk Some] by blast
  with Some sk show ?thesis
    by (cases sk) (simp add: sk_detach_filter_def detached_def sk_filter_delayed_uncharge_def upd_sock_def
        call_rcu_bh_def pending_def)
qed

text \<open>Dropping one reference.\<close>

definition released :: "nat \<Rightarrow> filter_obj \<Rightarrow> world \<Rightarrow> world" where
  "released p fp w = w\<lparr>w_filters := (w_filters w)(p :=
     if fo_refcnt fp = 1 then None else Some (fp\<lparr>fo_refcnt := fo_refcnt fp - 1\<rparr>))\<rparr>"

lemma sk_filter_release_effect:
  "w_filters w p = Some fp \<Longrightarrow> sk_filter_release p w = Some (released p fp w)"
  by (simp add: sk_filter_release_def released_def)

definition freed :: "nat \<Rightarrow> sock \<Rightarrow> world \<Rightarrow> world" where
  "freed s sk w =
     (case sk_filter_ptr sk of
        None \<Rightarrow> w
      | Some p \<Rightarrow> (case w_filters w p of None \<Rightarrow> w | Some fp \<Rightarrow> released p fp w))
     \<lparr>w_socks := (w_socks w)(s := None)\<rparr>"

lemma raw_sk_free_effect:
  assumes sk: "w_socks w s = Some sk"
    and fp: "\<forall>p. sk_filter_ptr sk = Some p \<longrightarrow> w_filters w p \<noteq> None"
  shows "raw_sk_free s w = Some (freed s sk w)"
  using assms
  by (auto simp: raw_sk_free_def freed_def sk_filter_uncharge_def upd_sock_def released_def
      sk_filter_release_def split: option.split)

definition cloned :: "nat \<Rightarrow> sock \<Rightarrow> world \<Rightarrow> world" where
  "cloned n sk w =
     w\<lparr>w_filters := (case sk_filter_ptr sk of None \<Rightarrow> w_filters w
         | Some p \<Rightarrow> (w_filters w)(p := map_option (\<lambda>fp. fp\<lparr>fo_refcnt := fo_refcnt fp + 1\<rparr>) (w_filters w p))),
       w_socks := (w_socks w)(n \<mapsto> sk)\<rparr>"

lemma sk_clone_effect:
  assumes inv: "sk_inv w" and sk: "w_socks w s = Some sk" and n: "w_socks w n = None"
  shows "sk_clone s n fails w = Some (if fails then (None, w) else (Some n, cloned n sk w))"
proof (cases "sk_filter_ptr sk")
  case None
  with sk_inv_no_filter [OF inv sk None] n show ?thesis
    by (cases sk) (auto simp: sk_clone_def sk cloned_def raw_sk_free_effect freed_def fun_upd_idem)
next
  case (Some p)
  obtain fp where fp: "w_filters w p = Some fp" "0 < fo_refcnt fp" "sk_omem_alloc sk = sk_filter_len fp"
    using sk_inv_filter [OF inv sk Some] by blast
  have charge: "sk_filter_charge n p (w\<lparr>w_socks := (w_socks w)(n \<mapsto> sk\<lparr>sk_omem_alloc := 0\<rparr>)\<rparr>) =
      Some (cloned n sk w)"
    using fp Some by (cases sk) (simp add: sk_filter_charge_def upd_sock_def cloned_def)
  have "raw_sk_free n (cloned n sk w) = Some w"
    using fp Some n by (subst raw_sk_free_effect [of _ n sk])
      (simp_all add: cloned_def freed_def released_def fun_upd_idem)
  with charge Some sk show ?thesis by (simp add: sk_clone_def Let_def)
qed

section \<open>Preservation\<close>

lemma sk_invI:
  assumes "finite (dom (w_socks w))" "distinct (map fst (w_rcu w))" "\<And>p. filter_inv w p"
    "\<And>s sk. w_socks w s = Some sk \<Longrightarrow> sk_omem_alloc sk = charge (w_filters w) (sk_filter_ptr sk)" "reader_inv w"
  shows "sk_inv w"
  using assms by (simp add: sk_inv_def)

lemma charge_upd_refcnt:
  "filters p = Some fp \<Longrightarrow> charge (filters(p \<mapsto> fp\<lparr>fo_refcnt := n\<rparr>)) ptr = charge filters ptr"
  by (auto simp: charge_def sk_filter_len_def split: option.split)

lemma charge_other: "ptr \<noteq> Some p \<Longrightarrow> charge (filters(p := x)) ptr = charge filters ptr"
  by (auto simp: charge_def split: option.split)

lemma unref_free:
  assumes "sk_inv w" "w_filters w p = None" "w_socks w s = Some sk"
  shows "sk_filter_ptr sk \<noteq> Some p"
  using sk_inv_filter [OF assms(1,3)] assms(2) by auto

text \<open>How the number of references changes with the filter pointer of a socket.\<close>

lemma refs_set_ptr:
  assumes "finite (dom (w_socks w))"
  shows "refs (w\<lparr>w_socks := (w_socks w)(s := x)\<rparr>) p + (if ptr_of (w_socks w s) = Some p then 1 else 0) =
    refs w p + (if ptr_of x = Some p then 1 else 0)"
  using sock_refs_upd [OF assms, of s x p] by (simp add: refs_def)

lemma refs_rcu_append:
  "refs (w\<lparr>w_rcu := w_rcu w @ [(q, R)]\<rparr>) p = refs w p + (if p = q then 1 else 0)"
  by (simp add: refs_def)

lemma refs_cong: "w_socks w' = w_socks w \<Longrightarrow> w_rcu w' = w_rcu w \<Longrightarrow> refs w' p = refs w p"
  by (simp add: refs_def)

lemma ptr_of_Some [simp]: "ptr_of (Some sk) = sk_filter_ptr sk" "ptr_of None = None"
  by (simp_all add: ptr_of_def)

lemma reader_invD:
  assumes "sk_inv w" "w_readers w r = Some (s, p)"
  obtains sk where "w_socks w s = Some sk"
    "sk_filter_ptr sk = Some p \<or> (\<exists>R. (p, R) \<in> set (w_rcu w) \<and> r \<in> R)"
  using assms unfolding sk_inv_def reader_inv_def by blast

lemma reader_invI:
  assumes "\<And>r s p. w_readers w r = Some (s, p) \<Longrightarrow>
     \<exists>sk. w_socks w s = Some sk \<and>
       (sk_filter_ptr sk = Some p \<or> (\<exists>R. (p, R) \<in> set (w_rcu w) \<and> r \<in> R))"
  shows "reader_inv w"
  using assms unfolding reader_inv_def by blast

text \<open>Moving a reference from a socket to a callback that waits for all readers.\<close>

lemma refs_attached:
  assumes "finite (dom (w_socks w))" "w_socks w s = Some sk" "sk_filter_ptr sk \<noteq> Some p"
  shows "refs (attached s p insns sk w) q = refs w q + (if q = p then 1 else 0)"
  using sock_refs_upd [OF assms(1), of s
      "Some \<lparr>sk_filter_ptr = Some p, sk_omem_alloc = 8 * int (length insns) + 24\<rparr>" q] assms(2,3)
  by (cases "sk_filter_ptr sk") (auto simp: refs_def attached_def split: if_splits)

lemma refs_detached:
  assumes "finite (dom (w_socks w))" "w_socks w s = Some sk" "sk_filter_ptr sk = Some p"
  shows "refs (detached s p w) q = refs w q"
  using sock_refs_upd [OF assms(1), of s "Some \<lparr>sk_filter_ptr = None, sk_omem_alloc = 0\<rparr>" q] assms(2,3)
  by (auto simp: refs_def detached_def split: if_splits)

text \<open>A reader of the socket whose filter pointer changes is one the new callback waits for.\<close>

lemma reader_inv_swap:
  assumes inv: "sk_inv w" and sk: "w_socks w s = Some sk"
    and readers: "w_readers w' = w_readers w" and socks: "w_socks w' = (w_socks w)(s \<mapsto> sk')"
    and rcu: "set (w_rcu w) \<subseteq> set (w_rcu w')"
    and old: "\<And>p. sk_filter_ptr sk = Some p \<Longrightarrow> (p, dom (w_readers w)) \<in> set (w_rcu w')"
  shows "reader_inv w'"
proof (rule reader_invI)
  fix r t q
  assume "w_readers w' r = Some (t, q)"
  then have r: "w_readers w r = Some (t, q)" by (simp add: readers)
  then obtain tk where tk: "w_socks w t = Some tk"
      "sk_filter_ptr tk = Some q \<or> (\<exists>R. (q, R) \<in> set (w_rcu w) \<and> r \<in> R)"
    by (rule reader_invD [OF inv])
  have r_dom: "r \<in> dom (w_readers w)" using r by blast
  have "\<exists>R. (q, R) \<in> set (w_rcu w') \<and> r \<in> R"
    if "t = s"
    using that tk sk old r_dom rcu by fastforce
  then show "\<exists>sk. w_socks w' t = Some sk \<and>
      (sk_filter_ptr sk = Some q \<or> (\<exists>R. (q, R) \<in> set (w_rcu w') \<and> r \<in> R))"
    using tk rcu by (cases "t = s") (auto simp: socks)
qed

lemma attached_inv:
  assumes inv: "sk_inv w" and sk: "w_socks w s = Some sk" and idle: "\<not> pending sk w" and p: "w_filters w p = None"
    and chk: "sk_chk_filter insns (int (length insns)) = Some (Inr ())"
  shows "sk_inv (attached s p insns sk w)" (is "sk_inv ?w'")
proof (rule sk_invI)
  let ?sk = "\<lparr>sk_filter_ptr = Some p, sk_omem_alloc = 8 * int (length insns) + 24\<rparr>"
  have fin: "finite (dom (w_socks w))" using inv by (simp add: sk_inv_def)
  have f: "w_filters ?w' = (w_filters w)(p \<mapsto> \<lparr>fo_refcnt = 1, fo_insns = insns\<rparr>)"
    and socks: "w_socks ?w' = (w_socks w)(s \<mapsto> ?sk)"
    by (simp_all add: attached_def)
  show "finite (dom (w_socks ?w'))" using fin by (simp add: socks)
  show "distinct (map fst (w_rcu ?w'))"
    using inv idle by (simp add: sk_inv_def attached_def pending_def split: option.split)
  show "filter_inv ?w' q" for q
  proof (cases "q = p")
    case True
    then show ?thesis
      using inv p chk refs_attached [OF fin sk unref_free [OF inv p sk], of insns p]
      by (simp add: sk_inv_def filter_inv_def f filter_ok_def)
  next
    case False
    then show ?thesis
      using sk_inv_filter_inv [OF inv, of q]
        refs_attached [OF fin sk unref_free [OF inv p sk], of insns q]
      by (auto simp: filter_inv_def f)
  qed
  show "sk_omem_alloc sk' = charge (w_filters ?w') (sk_filter_ptr sk')"
    if t: "w_socks ?w' t = Some sk'" for t sk'
  proof (cases "t = s")
    case True
    with t have "sk' = ?sk" by (simp add: socks)
    then show ?thesis by (simp add: f charge_def sk_filter_len_def)
  next
    case False
    with t have t': "w_socks w t = Some sk'" by (simp add: socks)
    then have "sk_omem_alloc sk' = charge (w_filters w) (sk_filter_ptr sk')"
      using inv by (simp add: sk_inv_def)
    then show ?thesis using unref_free [OF inv p t'] by (simp add: f charge_other)
  qed
  show "reader_inv ?w'"
    by (rule reader_inv_swap [OF inv sk _ socks]) (auto simp: attached_def)
qed

lemma detached_inv:
  assumes inv: "sk_inv w" and sk: "w_socks w s = Some sk" and idle: "\<not> pending sk w" and p: "sk_filter_ptr sk = Some p"
  shows "sk_inv (detached s p w)" (is "sk_inv ?w'")
proof (rule sk_invI)
  let ?sk = "\<lparr>sk_filter_ptr = None, sk_omem_alloc = 0\<rparr>"
  have fin: "finite (dom (w_socks w))" using inv by (simp add: sk_inv_def)
  have f: "w_filters ?w' = w_filters w" and socks: "w_socks ?w' = (w_socks w)(s \<mapsto> ?sk)"
    by (simp_all add: detached_def)
  show "finite (dom (w_socks ?w'))" using fin by (simp add: socks)
  show "distinct (map fst (w_rcu ?w'))"
    using inv idle p by (simp add: sk_inv_def detached_def pending_def)
  show "filter_inv ?w' q" for q
    using sk_inv_filter_inv [OF inv, of q] refs_detached [OF fin sk p, of q]
    by (auto simp: filter_inv_def f)
  show "sk_omem_alloc sk' = charge (w_filters ?w') (sk_filter_ptr sk')"
    if t: "w_socks ?w' t = Some sk'" for t sk'
  proof (cases "t = s")
    case True
    with t have "sk' = ?sk" by (simp add: socks)
    then show ?thesis by (simp add: charge_def)
  next
    case False
    with t inv show ?thesis by (simp add: socks f sk_inv_def)
  qed
  show "reader_inv ?w'"
    by (rule reader_inv_swap [OF inv sk _ socks]) (auto simp: detached_def p)
qed

lemma filter_inv_released:
  assumes "w_filters w p = Some fp" "filter_inv w p" "refs w' p + 1 = refs w p"
    "w_filters w' = w_filters (released p fp w)"
  shows "filter_inv w' p"
  using assms by (auto simp: filter_inv_def released_def filter_ok_def)

lemma charge_released:
  assumes "filters p = Some fp" "fo_refcnt fp = 1 \<longrightarrow> ptr \<noteq> Some p"
  shows "charge (filters(p := if fo_refcnt fp = 1 then None
      else Some (fp\<lparr>fo_refcnt := fo_refcnt fp - 1\<rparr>))) ptr = charge filters ptr"
  using assms by (simp add: charge_other charge_upd_refcnt)

lemma sk_inv_rcu: "sk_inv w \<Longrightarrow> distinct (map fst (w_rcu w))"
  by (simp add: sk_inv_def)

lemma freed_inv:
  assumes inv: "sk_inv w" and sk: "w_socks w s = Some sk"
    and idle: "\<forall>r p. w_readers w r \<noteq> Some (s, p)"
  shows "sk_inv (freed s sk w)" (is "sk_inv ?w'")
proof -
  have fin: "finite (dom (w_socks w))" using inv by (simp add: sk_inv_def)
  have socks: "w_socks ?w' = (w_socks w)(s := None)" and rest: "w_rcu ?w' = w_rcu w"
      "w_readers ?w' = w_readers w"
    by (auto simp: freed_def released_def split: option.split)
  have refs': "refs ?w' q + (if sk_filter_ptr sk = Some q then 1 else 0) = refs w q" for q
    using sock_refs_upd [OF fin, of s None q] sk by (simp add: refs_def socks rest)
  have readers: "reader_inv ?w'"
  proof (rule reader_invI)
    fix r t p
    assume "w_readers ?w' r = Some (t, p)"
    then have r: "w_readers w r = Some (t, p)" by (simp add: rest)
    then obtain tk where "w_socks w t = Some tk"
        "sk_filter_ptr tk = Some p \<or> (\<exists>R. (p, R) \<in> set (w_rcu w) \<and> r \<in> R)"
      by (rule reader_invD [OF inv])
    moreover have "t \<noteq> s" using idle r by blast
    ultimately show "\<exists>sk. w_socks ?w' t = Some sk \<and>
       (sk_filter_ptr sk = Some p \<or> (\<exists>R. (p, R) \<in> set (w_rcu ?w') \<and> r \<in> R))"
      by (simp add: socks rest)
  qed
  show ?thesis
  proof (cases "sk_filter_ptr sk")
    case None
    then have f: "w_filters ?w' = w_filters w" by (simp add: freed_def)
    show ?thesis
    proof (rule sk_invI)
      show "filter_inv ?w' q" for q
        using sk_inv_filter_inv [OF inv, of q] refs' [of q] None by (auto simp: filter_inv_def f)
      show "sk_omem_alloc sk' = charge (w_filters ?w') (sk_filter_ptr sk')"
        if "w_socks ?w' t = Some sk'" for t sk'
        using that inv by (simp add: socks f sk_inv_def split: if_splits)
    qed (use fin socks readers rest sk_inv_rcu [OF inv] in simp_all)
  next
    case (Some p)
    obtain fp where fp: "w_filters w p = Some fp" using sk_inv_filter [OF inv sk Some] by blast
    with Some have f: "w_filters ?w' = w_filters (released p fp w)" by (simp add: freed_def)
    show ?thesis
    proof (rule sk_invI)
      show "filter_inv ?w' q" for q
      proof (cases "q = p")
        case True
        then show ?thesis
          using filter_inv_released [OF fp sk_inv_filter_inv [OF inv] _ f] refs' [of p] Some by simp
      next
        case False
        then show ?thesis
          using sk_inv_filter_inv [OF inv, of q] refs' [of q] Some
          by (auto simp: filter_inv_def f released_def)
      qed
      show "sk_omem_alloc sk' = charge (w_filters ?w') (sk_filter_ptr sk')"
        if t: "w_socks ?w' t = Some sk'" for t sk'
      proof -
        have t': "t \<noteq> s" "w_socks w t = Some sk'" using t by (auto simp: socks split: if_splits)
        have "sk_filter_ptr sk' \<noteq> Some p" if one: "fo_refcnt fp = 1"
        proof
          assume "sk_filter_ptr sk' = Some p"
          moreover have "finite (dom (w_socks ?w'))" using fin by (simp add: socks)
          ultimately have "0 < sock_refs (w_socks ?w') p" using t sock_refs_pos by blast
          then have "0 < refs ?w' p" by (simp add: refs_def)
          with refs' [of p] Some have "1 < refs w p" by simp
          with sk_inv_filter_inv [OF inv, of p] fp one show False by (simp add: filter_inv_def)
        qed
        then show ?thesis
          using t'(2) inv charge_released [of "w_filters w" p fp, OF fp]
          by (simp add: f released_def sk_inv_def)
      qed
    qed (use fin socks readers rest sk_inv_rcu [OF inv] in simp_all)
  qed
qed

lemma rcu_inv:
  assumes inv: "sk_inv w" and rcu: "w_rcu w = xs @ (p, R) # ys"
    and gp: "R \<inter> dom (w_readers w) = {}"
  shows "\<exists>w'. sk_filter_rcu_release p (w\<lparr>w_rcu := xs @ ys\<rparr>) = Some w' \<and> sk_inv w'"
proof -
  let ?w = "w\<lparr>w_rcu := xs @ ys\<rparr>"
  have pos: "0 < refs w p" by (simp add: refs_def rcu)
  then obtain fp where fp: "w_filters w p = Some fp"
    using sk_inv_filter_inv [OF inv, of p] by (cases "w_filters w p") (auto simp: filter_inv_def)
  define w' where "w' = released p fp ?w"
  have step: "sk_filter_rcu_release p ?w = Some w'"
    using fp by (simp add: sk_filter_rcu_release_def sk_filter_release_effect w'_def)
  have f: "w_filters w' = w_filters (released p fp w)" and socks: "w_socks w' = w_socks w"
    and rest: "w_rcu w' = xs @ ys" "w_readers w' = w_readers w"
    by (simp_all add: w'_def released_def)
  have refs': "refs w' q + (if q = p then 1 else 0) = refs w q" for q
    by (simp add: refs_def socks rest rcu)
  have "sk_inv w'"
  proof (rule sk_invI)
    show "finite (dom (w_socks w'))" using inv by (simp add: socks sk_inv_def)
    show "distinct (map fst (w_rcu w'))" using sk_inv_rcu [OF inv] by (simp add: rest rcu)
    show "filter_inv w' q" for q
    proof (cases "q = p")
      case True
      then show ?thesis
        using filter_inv_released [OF fp sk_inv_filter_inv [OF inv] _ f] refs' [of p] by simp
    next
      case False
      then show ?thesis
        using sk_inv_filter_inv [OF inv, of q] refs' [of q]
        by (auto simp: filter_inv_def f released_def)
    qed
    show "sk_omem_alloc sk' = charge (w_filters w') (sk_filter_ptr sk')"
      if t: "w_socks w' t = Some sk'" for t sk'
    proof -
      have t': "w_socks w t = Some sk'" using t by (simp add: socks)
      have "sk_filter_ptr sk' \<noteq> Some p" if one: "fo_refcnt fp = 1"
      proof
        assume "sk_filter_ptr sk' = Some p"
        then have "0 < sock_refs (w_socks w) p"
          using sock_refs_pos [of "w_socks w" t sk' p] t' inv by (simp add: sk_inv_def)
        then have "1 < refs w p" using refs' [of p] by (simp add: refs_def socks)
        with sk_inv_filter_inv [OF inv, of p] fp one show False by (simp add: filter_inv_def)
      qed
      then show ?thesis
        using t' inv charge_released [of "w_filters w" p fp, OF fp]
        by (simp add: f released_def sk_inv_def)
    qed
    show "reader_inv w'"
    proof (rule reader_invI)
      fix r t q
      assume "w_readers w' r = Some (t, q)"
      then have r: "w_readers w r = Some (t, q)" by (simp add: rest)
      then obtain tk where "w_socks w t = Some tk"
          "sk_filter_ptr tk = Some q \<or> (\<exists>R. (q, R) \<in> set (w_rcu w) \<and> r \<in> R)"
        by (rule reader_invD [OF inv])
      moreover have "r \<notin> R" using r gp by blast
      ultimately show "\<exists>sk. w_socks w' t = Some sk \<and>
         (sk_filter_ptr sk = Some q \<or> (\<exists>R. (q, R) \<in> set (w_rcu w') \<and> r \<in> R))"
        by (auto simp: socks rest rcu)
    qed
  qed
  with step show ?thesis by blast
qed

text \<open>A socket that appears with a filter already counted, and a changed set of readers.\<close>

lemma new_sock_readers:
  assumes inv: "sk_inv w" and "w_socks w n = None" and "w_readers w' = w_readers w"
    "w_socks w' = (w_socks w)(n \<mapsto> sk)" "w_rcu w' = w_rcu w"
  shows "reader_inv w'"
  using assms by (fastforce simp: sk_inv_def reader_inv_def)

lemma cloned_inv:
  assumes inv: "sk_inv w" and sk: "w_socks w s = Some sk" and n: "w_socks w n = None"
  shows "sk_inv (cloned n sk w)" (is "sk_inv ?w'")
proof -
  have fin: "finite (dom (w_socks w))" using inv by (simp add: sk_inv_def)
  have socks: "w_socks ?w' = (w_socks w)(n \<mapsto> sk)" and rest: "w_rcu ?w' = w_rcu w"
      "w_readers ?w' = w_readers w"
    by (simp_all add: cloned_def)
  have refs': "refs ?w' q = refs w q + (if sk_filter_ptr sk = Some q then 1 else 0)" for q
    using sock_refs_upd [OF fin, of n "Some sk" q] n by (simp add: refs_def socks rest)
  have charge': "charge (w_filters ?w') ptr = charge (w_filters w) ptr" for ptr
  proof (cases "sk_filter_ptr sk")
    case (Some p)
    obtain fp where "w_filters w p = Some fp" using sk_inv_filter [OF inv sk Some] by blast
    with Some show ?thesis by (simp add: cloned_def charge_upd_refcnt)
  qed (simp add: cloned_def)
  show ?thesis
  proof (rule sk_invI)
    show "finite (dom (w_socks ?w'))" using fin by (simp add: socks)
    show "distinct (map fst (w_rcu ?w'))" using sk_inv_rcu [OF inv] by (simp add: rest)
    show "filter_inv ?w' q" for q
      using sk_inv_filter_inv [OF inv, of q] refs' [of q] sk_inv_filter [OF inv sk]
      by (cases "sk_filter_ptr sk")
        (auto simp: filter_inv_def cloned_def filter_ok_def)
    show "sk_omem_alloc sk' = charge (w_filters ?w') (sk_filter_ptr sk')"
      if "w_socks ?w' t = Some sk'" for t sk'
      using that inv sk by (auto simp: charge' socks sk_inv_def split: if_splits)
    show "reader_inv ?w'" by (rule new_sock_readers [OF inv n rest(2) socks rest(1)])
  qed
qed

lemma new_sock_inv:
  assumes inv: "sk_inv w" and n: "w_socks w s = None"
  shows "sk_inv (w\<lparr>w_socks := (w_socks w)(s \<mapsto> \<lparr>sk_filter_ptr = None, sk_omem_alloc = 0\<rparr>)\<rparr>)"
    (is "sk_inv ?w'")
proof (rule sk_invI)
  have fin: "finite (dom (w_socks w))" using inv by (simp add: sk_inv_def)
  then show "finite (dom (w_socks ?w'))" by simp
  show "distinct (map fst (w_rcu ?w'))" using sk_inv_rcu [OF inv] by simp
  have "refs ?w' q = refs w q" for q
    using sock_refs_upd [OF fin, of s "Some \<lparr>sk_filter_ptr = None, sk_omem_alloc = 0\<rparr>" q] n
    by (simp add: refs_def)
  then show "filter_inv ?w' q" for q
    using sk_inv_filter_inv [OF inv, of q] by (auto simp: filter_inv_def)
  show "sk_omem_alloc sk' = charge (w_filters ?w') (sk_filter_ptr sk')"
    if "w_socks ?w' t = Some sk'" for t sk'
    using that inv by (auto simp: sk_inv_def charge_def [of _ None] split: if_splits)
  show "reader_inv ?w'" by (rule new_sock_readers [OF inv n]) simp_all
qed

lemma readers_inv:
  assumes "sk_inv w" "reader_inv (w\<lparr>w_readers := rds\<rparr>)"
  shows "sk_inv (w\<lparr>w_readers := rds\<rparr>)"
proof (rule sk_invI)
  have "refs (w\<lparr>w_readers := rds\<rparr>) p = refs w p" for p by (simp add: refs_def)
  then show "filter_inv (w\<lparr>w_readers := rds\<rparr>) p" for p
    using sk_inv_filter_inv [OF assms(1), of p] by (auto simp: filter_inv_def)
qed (use assms in \<open>simp_all add: sk_inv_def\<close>)

text \<open>The checker answers for every program of the recorded length.\<close>

lemma chk_loop_total: "flen \<le> pc + int (length insns) \<Longrightarrow> \<exists>b. chk_loop flen pc insns = Some b"
  by (induction flen pc insns rule: chk_loop.induct) auto

lemma sk_chk_filter_total: "\<exists>r. sk_chk_filter insns (int (length insns)) = Some r"
  using chk_loop_total [of "int (length insns)" 0 insns]
  by (auto simp: sk_chk_filter_def split: bool.split)

lemma sk_step_inv:
  assumes "sk_step optmem_max w w'" "sk_inv w"
  shows "sk_inv w'"
  using assms
proof (cases rule: sk_step.cases)
  case (new_sock s)
  with assms(2) new_sock_inv show ?thesis by blast
next
  case (attach s mem fault fprog r)
  then obtain sk where sk: "w_socks w s = Some sk" by blast
  show ?thesis
    using sk_attach_filter_effect [OF assms(2) sk attach(2), of fprog optmem_max fault] sk_chk_filter_total
      attach(2,3) assms(2) sk
    by (cases r) (auto intro: attached_inv)
next
  case (detach s r)
  then obtain sk where sk: "w_socks w s = Some sk" by blast
  with detach(2) sk_detach_filter_effect [OF assms(2) sk] detached_inv [OF assms(2) sk] assms(2)
  show ?thesis by (auto split: option.splits if_splits)
next
  case (clone s n fails r')
  then obtain sk where sk: "w_socks w s = Some sk" by blast
  with clone sk_clone_effect [OF assms(2) sk clone(2), of fails] cloned_inv [OF assms(2) sk clone(2)]
    assms(2)
  show ?thesis by (auto split: if_splits)
next
  case (free s)
  then obtain sk where sk: "w_socks w s = Some sk" by blast
  have "raw_sk_free s w = Some (freed s sk w)"
    using raw_sk_free_effect [OF sk] sk_inv_filter [OF assms(2) sk] by fastforce
  with free freed_inv [OF assms(2) sk] show ?thesis by simp
next
  case (grace_period xs p R ys)
  with rcu_inv [OF assms(2)] show ?thesis by fastforce
next
  case (read_begin r s sk p)
  have "reader_inv (w\<lparr>w_readers := (w_readers w)(r \<mapsto> (s, p))\<rparr>)"
    using assms(2) read_begin by (auto simp: sk_inv_def reader_inv_def)
  with assms(2) read_begin show ?thesis by (simp add: readers_inv)
next
  case (read_end r)
  have "reader_inv (w\<lparr>w_readers := (w_readers w)(r := None)\<rparr>)"
    using assms(2) by (auto simp: sk_inv_def reader_inv_def)
  with assms(2) read_end show ?thesis by (simp add: readers_inv)
qed

lemma sk_reachable_inv: "sk_reachable optmem_max w \<Longrightarrow> sk_inv w"
  unfolding sk_reachable_def
proof (induction rule: rtranclp_induct)
  case base
  show ?case
    by (auto simp: sk_inv_def empty_world_def filter_inv_def refs_def sock_refs_def
        rcu_refs_def reader_inv_def)
qed (rule sk_step_inv)





text \<open>A socket with a filter, and the state after a reader has loaded it and it has been replaced.\<close>

definition sock_world :: world where
  "sock_world = empty_world\<lparr>w_socks := (\<lambda>_. None)(1 \<mapsto> \<lparr>sk_filter_ptr = None, sk_omem_alloc = 0\<rparr>)\<rparr>"

definition filtered_world :: world where
  "filtered_world = attached 1 7 bpf_ip \<lparr>sk_filter_ptr = None, sk_omem_alloc = 0\<rparr> sock_world"

definition busy_world :: world where
  "busy_world = attached 1 8 bpf_ip \<lparr>sk_filter_ptr = Some 7, sk_omem_alloc = 56\<rparr>
     (filtered_world\<lparr>w_readers := (\<lambda>_. None)(0 \<mapsto> (1, 7))\<rparr>)"

lemma bpf_ip_length: "length bpf_ip = 4"
  by (simp add: bpf_ip_def)

lemmas attach_rules = sk_attach_filter_def sock_kmalloc_def upd_sock_def Let_def bpf_ip_length bpf_ip_checked
  attached_def sock_world_def empty_world_def filtered_world_def busy_world_def

lemma filtered_world_reachable: "sk_reachable 20480 filtered_world"
proof -
  have s1: "sk_step 20480 empty_world sock_world"
    using sk_step.new_sock [of empty_world 1 20480] by (simp add: sock_world_def empty_world_def)
  have s2: "sk_step 20480 sock_world filtered_world"
    by (rule sk_step.attach [of _ 1 "Some 7" _ False "Some bpf_ip" "Inr ()"]) (simp_all add: attach_rules)
  show ?thesis unfolding sk_reachable_def
    using s1 s2 by (blast intro: converse_rtranclp_into_rtranclp)
qed


text \<open>
  Two sockets share a filter after \<open>sk_clone\<close>. The clone detaches it; detaching it from the parent
  before the grace period has ended queues the same \<open>rcu_head\<close> again.
\<close>

lemma shared_filter_queued_twice:
  "\<exists>w w'. sk_reachable 20480 w \<and> sk_clone 1 2 False filtered_world = Some (Some 2, w) \<and>
     sk_detach_filter 2 w = Some (Inr (), w') \<and> sk_detach_filter 1 w' = None"
proof -
  let ?sk = "\<lparr>sk_filter_ptr = Some 7, sk_omem_alloc = 56\<rparr>"
  let ?w = "cloned 2 ?sk filtered_world"
  have inv: "sk_inv filtered_world" by (rule sk_reachable_inv [OF filtered_world_reachable])
  have rcu: "w_rcu filtered_world = []"
    by (simp add: filtered_world_def attached_def sock_world_def empty_world_def)
  have one: "w_socks filtered_world 1 = Some ?sk" "w_socks filtered_world 2 = None"
    by (simp_all add: filtered_world_def attached_def sock_world_def bpf_ip_def)
  have clone: "sk_clone 1 2 False filtered_world = Some (Some 2, ?w)"
    using sk_clone_effect [OF inv one, of False] by simp
  then have "sk_step 20480 filtered_world ?w"
    using sk_step.clone [of filtered_world 1 2 False "Some 2" ?w] one by simp
  then have reach: "sk_reachable 20480 ?w"
    using filtered_world_reachable unfolding sk_reachable_def by (rule rtranclp.rtrancl_into_rtrancl [rotated])
  have w: "w_socks ?w 1 = Some ?sk" "w_socks ?w 2 = Some ?sk" "w_rcu ?w = []"
    using one rcu by (simp_all add: cloned_def)
  have idle: "\<not> pending ?sk ?w" by (simp add: pending_def w)
  have detach: "sk_detach_filter 2 ?w = Some (Inr (), detached 2 7 ?w)"
    using sk_detach_filter_effect [OF sk_reachable_inv [OF reach] w(2)] idle by simp
  have "sk_detach_filter 1 (detached 2 7 ?w) = None"
  proof -
    have "w_socks (detached 2 7 ?w) 1 = Some ?sk" "pending ?sk (detached 2 7 ?w)"
      using w by (simp_all add: detached_def pending_def)
    with sk_detach_filter_effect [OF detached_inv [OF sk_reachable_inv [OF reach] w(2) idle, of 7]]
    show ?thesis by simp
  qed
  with reach clone detach show ?thesis by blast
qed


end
