(* ===== verification/Lmb.thy ===== *)
theory Lmb
  imports Kernel_Prelude
begin

text \<open>
  Logical memory blocks, \<^verbatim>\<open>lib/lmb.c\<close> and \<^verbatim>\<open>include/linux/lmb.h\<close>: the boot-time tables of
  memory and reserved regions and the allocator over them. A table is the array of the
  source with its count; base addresses and sizes are 64-bit words that wrap around, the
  count is a natural number whose decrement wraps as \<open>unsigned long\<close>. \<open>None\<close> is an access
  outside the array, a \<open>BUG_ON\<close> or a \<open>panic\<close>.
\<close>

section \<open>Tables\<close>

definition MAX_LMB_REGIONS :: nat where [simp]: "MAX_LMB_REGIONS = 128"

record lmb_property =
  lp_base :: u64
  lp_size :: u64

record lmb_region =
  rg_cnt :: nat
  rg_size :: u64
  rg_region :: "lmb_property list"

record lmb =
  lmb_rmo_size :: u64
  lmb_memory :: lmb_region
  lmb_reserved :: lmb_region

definition cnt_dec :: "nat \<Rightarrow> nat" where
  "cnt_dec n = (if n = 0 then 2 ^ 64 - 1 else n - 1)"

definition rgn_at :: "lmb_region \<Rightarrow> nat \<Rightarrow> lmb_property option" where
  "rgn_at rgn i = (if i < length (rg_region rgn) then Some (rg_region rgn ! i) else None)"

definition rgn_set :: "lmb_region \<Rightarrow> nat \<Rightarrow> lmb_property \<Rightarrow> lmb_region option" where
  "rgn_set rgn i p =
     (if i < length (rg_region rgn) then Some (rgn\<lparr>rg_region := (rg_region rgn)[i := p]\<rparr>) else None)"

section \<open>Adding and removing regions\<close>

definition lmb_addrs_overlap :: "u64 \<Rightarrow> u64 \<Rightarrow> u64 \<Rightarrow> u64 \<Rightarrow> bool" where
  "lmb_addrs_overlap base1 size1 base2 size2 \<longleftrightarrow> base1 < base2 + size2 \<and> base2 < base1 + size1"

definition lmb_addrs_adjacent :: "u64 \<Rightarrow> u64 \<Rightarrow> u64 \<Rightarrow> u64 \<Rightarrow> int" where
  "lmb_addrs_adjacent base1 size1 base2 size2 =
     (if base2 = base1 + size1 then 1 else if base1 = base2 + size2 then -1 else 0)"

definition lmb_regions_adjacent :: "lmb_region \<Rightarrow> nat \<Rightarrow> nat \<Rightarrow> int option" where
  "lmb_regions_adjacent rgn r1 r2 =
     do {
       p1 \<leftarrow> rgn_at rgn r1;
       p2 \<leftarrow> rgn_at rgn r2;
       Some (lmb_addrs_adjacent (lp_base p1) (lp_size p1) (lp_base p2) (lp_size p2))
     }"

function lmb_remove_region :: "lmb_region \<Rightarrow> nat \<Rightarrow> lmb_region option" where
  "lmb_remove_region rgn i =
     (if i < cnt_dec (rg_cnt rgn) then
        (case rgn_at rgn (i + 1) of
           None \<Rightarrow> None
         | Some p \<Rightarrow>
             (case rgn_set rgn i p of
                None \<Rightarrow> None
              | Some rgn' \<Rightarrow> lmb_remove_region rgn' (i + 1)))
      else Some (rgn\<lparr>rg_cnt := cnt_dec (rg_cnt rgn)\<rparr>))"
  by pat_completeness auto
termination
  by (relation "measure (\<lambda>(rgn, i). cnt_dec (rg_cnt rgn) - i)")
    (auto simp: rgn_set_def split: if_splits)

definition lmb_coalesce_regions :: "lmb_region \<Rightarrow> nat \<Rightarrow> nat \<Rightarrow> lmb_region option" where
  "lmb_coalesce_regions rgn r1 r2 =
     do {
       p1 \<leftarrow> rgn_at rgn r1;
       p2 \<leftarrow> rgn_at rgn r2;
       rgn \<leftarrow> rgn_set rgn r1 (p1\<lparr>lp_size := lp_size p1 + lp_size p2\<rparr>);
       lmb_remove_region rgn r2
     }"

definition lmb_init :: "lmb \<Rightarrow> lmb option" where
  "lmb_init l =
     do {
       m \<leftarrow> rgn_set (lmb_memory l) 0 \<lparr>lp_base = 0, lp_size = 0\<rparr>;
       r \<leftarrow> rgn_set (lmb_reserved l) 0 \<lparr>lp_base = 0, lp_size = 0\<rparr>;
       Some (l\<lparr>lmb_memory := m\<lparr>rg_cnt := 1\<rparr>, lmb_reserved := r\<lparr>rg_cnt := 1\<rparr>\<rparr>)
     }"

fun sum_sizes :: "lmb_property list \<Rightarrow> u64" where
  "sum_sizes [] = 0"
| "sum_sizes (p # ps) = lp_size p + sum_sizes ps"

definition lmb_analyze :: "lmb \<Rightarrow> lmb option" where
  "lmb_analyze l =
     (let m = lmb_memory l in
      if rg_cnt m \<le> length (rg_region m)
      then Some (l\<lparr>lmb_memory := m\<lparr>rg_size := sum_sizes (take (rg_cnt m) (rg_region m))\<rparr>\<rparr>)
      else None)"

text \<open>
  The first loop of \<open>lmb_add_region\<close>: it finds the region itself, enlarges an adjacent region
  at the index it stops at, or runs through the table.
\<close>

datatype coalesce = Already | Enlarged nat lmb_region | Through

function coalesce_loop :: "lmb_region \<Rightarrow> u64 \<Rightarrow> u64 \<Rightarrow> nat \<Rightarrow> coalesce option" where
  "coalesce_loop rgn base n i =
     (if i < rg_cnt rgn then
        (case rgn_at rgn i of
           None \<Rightarrow> None
         | Some p \<Rightarrow>
             if lp_base p = base \<and> lp_size p = n then Some Already
             else
               let adjacent = lmb_addrs_adjacent base n (lp_base p) (lp_size p) in
               if adjacent > 0 then
                 map_option (Enlarged i)
                   (rgn_set rgn i \<lparr>lp_base = lp_base p - n, lp_size = lp_size p + n\<rparr>)
               else if adjacent < 0 then
                 map_option (Enlarged i) (rgn_set rgn i (p\<lparr>lp_size := lp_size p + n\<rparr>))
               else coalesce_loop rgn base n (i + 1))
      else Some Through)"
  by pat_completeness auto
termination by (relation "measure (\<lambda>(rgn, base, n, i). rg_cnt rgn - i)") auto

text \<open>The second loop, from the index before \<open>k\<close> down: shift the larger entries up and insert.\<close>

fun insert_loop :: "lmb_region \<Rightarrow> lmb_property \<Rightarrow> nat \<Rightarrow> lmb_region option" where
  "insert_loop rgn new 0 = Some rgn"
| "insert_loop rgn new (Suc i) =
     do {
       p \<leftarrow> rgn_at rgn i;
       if lp_base new < lp_base p then do {
         rgn \<leftarrow> rgn_set rgn (i + 1) p;
         insert_loop rgn new i
       } else rgn_set rgn (i + 1) new
     }"

definition lmb_add_region :: "lmb_region \<Rightarrow> u64 \<Rightarrow> u64 \<Rightarrow> (int \<times> lmb_region) option" where
  "lmb_add_region rgn base n =
     do {
       p0 \<leftarrow> rgn_at rgn 0;
       if rg_cnt rgn = 1 \<and> lp_size p0 = 0 then do {
         rgn \<leftarrow> rgn_set rgn 0 \<lparr>lp_base = base, lp_size = n\<rparr>;
         Some (0, rgn)
       } else do {
         c \<leftarrow> coalesce_loop rgn base n 0;
         (case c of
            Already \<Rightarrow> Some (0, rgn)
          | Enlarged i rgn \<Rightarrow>
              do {
                adj \<leftarrow> (if i < cnt_dec (rg_cnt rgn) then lmb_regions_adjacent rgn i (i + 1) else Some 0);
                if adj \<noteq> 0 then do {
                  rgn \<leftarrow> lmb_coalesce_regions rgn i (i + 1);
                  Some (2, rgn)
                } else Some (1, rgn)
              }
          | Through \<Rightarrow>
              do {
                let i = rg_cnt rgn;
                adj \<leftarrow> (if i < cnt_dec (rg_cnt rgn) then lmb_regions_adjacent rgn i (i + 1) else Some 0);
                if adj \<noteq> 0 then do {
                  rgn \<leftarrow> lmb_coalesce_regions rgn i (i + 1);
                  Some (1, rgn)
                }
                else if rg_cnt rgn \<ge> MAX_LMB_REGIONS then Some (-1, rgn)
                else do {
                  let new = \<lparr>lp_base = base, lp_size = n\<rparr>;
                  rgn \<leftarrow> insert_loop rgn new (rg_cnt rgn);
                  p0 \<leftarrow> rgn_at rgn 0;
                  rgn \<leftarrow> (if base < lp_base p0 then rgn_set rgn 0 new else Some rgn);
                  Some (0, rgn\<lparr>rg_cnt := rg_cnt rgn + 1\<rparr>)
                }
              })
       }
     }"

definition lmb_add :: "lmb \<Rightarrow> u64 \<Rightarrow> u64 \<Rightarrow> (int \<times> lmb) option" where
  "lmb_add l base n =
     (let l = (if base = 0 then l\<lparr>lmb_rmo_size := n\<rparr> else l) in
      map_option (\<lambda>(r, m). (r, l\<lparr>lmb_memory := m\<rparr>)) (lmb_add_region (lmb_memory l) base n))"

text \<open>The loop of \<open>lmb_remove\<close>: the index of the first region that contains the range.\<close>

function find_containing :: "lmb_region \<Rightarrow> u64 \<Rightarrow> u64 \<Rightarrow> nat \<Rightarrow> nat option option" where
  "find_containing rgn base endp i =
     (if i < rg_cnt rgn then
        (case rgn_at rgn i of
           None \<Rightarrow> None
         | Some p \<Rightarrow>
             if lp_base p \<le> base \<and> endp \<le> lp_base p + lp_size p then Some (Some i)
             else find_containing rgn base endp (i + 1))
      else Some None)"
  by pat_completeness auto
termination by (relation "measure (\<lambda>(rgn, base, endp, i). rg_cnt rgn - i)") auto

definition lmb_remove :: "lmb \<Rightarrow> u64 \<Rightarrow> u64 \<Rightarrow> (int \<times> lmb) option" where
  "lmb_remove l base n =
     (let rgn = lmb_memory l; endp = base + n in
      map_option (\<lambda>(r, m). (r, l\<lparr>lmb_memory := m\<rparr>))
        (do {
           f \<leftarrow> find_containing rgn base endp 0;
           (case f of
              None \<Rightarrow> Some (-1, rgn)
            | Some i \<Rightarrow> do {
                p \<leftarrow> rgn_at rgn i;
                let rgnbegin = lp_base p;
                let rgnend = rgnbegin + lp_size p;
                if rgnbegin = base \<and> rgnend = endp then
                  map_option (\<lambda>rgn. (0, rgn)) (lmb_remove_region rgn i)
                else if rgnbegin = base then
                  map_option (\<lambda>rgn. (0, rgn)) (rgn_set rgn i \<lparr>lp_base = endp, lp_size = lp_size p - n\<rparr>)
                else if rgnend = endp then
                  map_option (\<lambda>rgn. (0, rgn)) (rgn_set rgn i (p\<lparr>lp_size := lp_size p - n\<rparr>))
                else do {
                  rgn \<leftarrow> rgn_set rgn i (p\<lparr>lp_size := base - lp_base p\<rparr>);
                  lmb_add_region rgn endp (rgnend - endp)
                }
              })
         }))"

definition lmb_reserve :: "lmb \<Rightarrow> u64 \<Rightarrow> u64 \<Rightarrow> (int \<times> lmb) option" where
  "lmb_reserve l base n =
     (if n = 0 then None
      else map_option (\<lambda>(r, m). (r, l\<lparr>lmb_reserved := m\<rparr>)) (lmb_add_region (lmb_reserved l) base n))"

section \<open>The allocator\<close>

text \<open>The index of the first region that overlaps the range, or -1.\<close>

function overlaps_loop :: "lmb_region \<Rightarrow> u64 \<Rightarrow> u64 \<Rightarrow> nat \<Rightarrow> nat option" where
  "overlaps_loop rgn base n i =
     (if i < rg_cnt rgn then
        (case rgn_at rgn i of
           None \<Rightarrow> None
         | Some p \<Rightarrow>
             if lmb_addrs_overlap base n (lp_base p) (lp_size p) then Some i
             else overlaps_loop rgn base n (i + 1))
      else Some i)"
  by pat_completeness auto
termination by (relation "measure (\<lambda>(rgn, base, n, i). rg_cnt rgn - i)") auto

definition lmb_overlaps_region :: "lmb_region \<Rightarrow> u64 \<Rightarrow> u64 \<Rightarrow> int option" where
  "lmb_overlaps_region rgn base n =
     map_option (\<lambda>i. if i < rg_cnt rgn then int i else -1) (overlaps_loop rgn base n 0)"

definition lmb_align_down :: "u64 \<Rightarrow> u64 \<Rightarrow> u64" where
  "lmb_align_down addr n = addr AND NOT (n - 1)"

definition lmb_align_up :: "u64 \<Rightarrow> u64 \<Rightarrow> u64" where
  "lmb_align_up addr n = (addr + (n - 1)) AND NOT (n - 1)"

text \<open>
  The search loop that both allocators share, from a candidate \<open>base\<close> downwards while
  \<open>cond base\<close>: take a candidate that overlaps no reserved region, otherwise go on below the
  region it overlaps. \<open>Some None\<close> means the loop ended without a result. The loop is a partial
  function; that it returns is a theorem.
\<close>

partial_function (option) search_down ::
  "(u64 \<Rightarrow> bool) \<Rightarrow> lmb_region \<Rightarrow> u64 \<Rightarrow> u64 \<Rightarrow> u64 \<Rightarrow> u64 option option" where
  "search_down cond rsv n align base =
     (if cond base then
        do {
          j \<leftarrow> lmb_overlaps_region rsv base n;
          if j < 0 then Some (Some base)
          else do {
            p \<leftarrow> rgn_at rsv (nat j);
            if lp_base p < n then Some None
            else search_down cond rsv n align (lmb_align_down (lp_base p - n) align)
          }
        }
      else Some None)"

definition lmb_alloc_nid_unreserved :: "lmb \<Rightarrow> u64 \<Rightarrow> u64 \<Rightarrow> u64 \<Rightarrow> u64 \<Rightarrow> (u64 \<times> lmb) option" where
  "lmb_alloc_nid_unreserved l start endp n align =
     do {
       r \<leftarrow> search_down (\<lambda>base. start \<le> base) (lmb_reserved l) n align (lmb_align_down (endp - n) align);
       (case r of
          None \<Rightarrow> Some (-1, l)
        | Some base \<Rightarrow> do {
            (err, rsv) \<leftarrow> lmb_add_region (lmb_reserved l) base n;
            Some (if err < 0 then -1 else base, l\<lparr>lmb_reserved := rsv\<rparr>)
          })
     }"

text \<open>\<open>nid_range\<close> is the caller's function: the end of the node's range, and the node.\<close>

partial_function (option) alloc_nid_loop ::
  "(u64 \<Rightarrow> u64 \<Rightarrow> u64 \<times> int) \<Rightarrow> lmb \<Rightarrow> u64 \<Rightarrow> u64 \<Rightarrow> u64 \<Rightarrow> u64 \<Rightarrow> int \<Rightarrow> (u64 \<times> lmb) option" where
  "alloc_nid_loop nid_range l start endp n align nid =
     (if start < endp then
        (case nid_range start endp of
           (this_end, this_nid) \<Rightarrow>
             if this_nid = nid then
               do {
                 (ret, l') \<leftarrow> lmb_alloc_nid_unreserved l start this_end n align;
                 if ret \<noteq> -1 then Some (ret, l')
                 else alloc_nid_loop nid_range l' this_end endp n align nid
               }
             else alloc_nid_loop nid_range l this_end endp n align nid)
      else Some (-1, l))"

definition lmb_alloc_nid_region ::
  "(u64 \<Rightarrow> u64 \<Rightarrow> u64 \<times> int) \<Rightarrow> lmb \<Rightarrow> lmb_property \<Rightarrow> u64 \<Rightarrow> u64 \<Rightarrow> int \<Rightarrow> (u64 \<times> lmb) option" where
  "lmb_alloc_nid_region nid_range l mp n align nid =
     alloc_nid_loop nid_range l (lmb_align_up (lp_base mp) align) (lp_base mp + lp_size mp) n align nid"

text \<open>
  The loop of \<open>__lmb_alloc_base\<close> over the memory regions before index \<open>k\<close>, from the highest
  down; \<open>max_addr = 0\<close> is \<open>LMB_ALLOC_ANYWHERE\<close>.
\<close>

fun alloc_base_loop :: "lmb \<Rightarrow> u64 \<Rightarrow> u64 \<Rightarrow> u64 \<Rightarrow> nat \<Rightarrow> (u64 \<times> lmb) option" where
  "alloc_base_loop l n align max_addr 0 = Some (0, l)"
| "alloc_base_loop l n align max_addr (Suc i) =
     do {
       p \<leftarrow> rgn_at (lmb_memory l) i;
       let lmbbase = lp_base p;
       let lmbsize = lp_size p;
       if lmbsize < n \<or> max_addr \<noteq> 0 \<and> \<not> lmbbase < max_addr
       then alloc_base_loop l n align max_addr i
       else do {
         let base = (if max_addr = 0 then lmb_align_down (lmbbase + lmbsize - n) align
                     else lmb_align_down (min (lmbbase + lmbsize) max_addr - n) align);
         r \<leftarrow> search_down (\<lambda>base. base \<noteq> 0 \<and> lmbbase \<le> base) (lmb_reserved l) n align base;
         (case r of
            Some base \<Rightarrow> do {
              (err, rsv) \<leftarrow> lmb_add_region (lmb_reserved l) base n;
              Some (if err < 0 then 0 else base, l\<lparr>lmb_reserved := rsv\<rparr>)
            }
          | None \<Rightarrow> alloc_base_loop l n align max_addr i)
       }
     }"

text \<open>\<open>LMB_REAL_LIMIT\<close> is an architecture constant, an argument here.\<close>

definition raw_lmb_alloc_base :: "u64 \<Rightarrow> lmb \<Rightarrow> u64 \<Rightarrow> u64 \<Rightarrow> u64 \<Rightarrow> (u64 \<times> lmb) option" where
  "raw_lmb_alloc_base real_limit l n align max_addr =
     (if n = 0 then None
      else alloc_base_loop l (lmb_align_up n align) align
             (if max_addr = 0 then real_limit else max_addr) (rg_cnt (lmb_memory l)))"

definition lmb_alloc_base :: "u64 \<Rightarrow> lmb \<Rightarrow> u64 \<Rightarrow> u64 \<Rightarrow> u64 \<Rightarrow> (u64 \<times> lmb) option" where
  "lmb_alloc_base real_limit l n align max_addr =
     do {
       (alloc, l) \<leftarrow> raw_lmb_alloc_base real_limit l n align max_addr;
       if alloc = 0 then None else Some (alloc, l)
     }"

definition lmb_alloc :: "u64 \<Rightarrow> lmb \<Rightarrow> u64 \<Rightarrow> u64 \<Rightarrow> (u64 \<times> lmb) option" where
  "lmb_alloc real_limit l n align = lmb_alloc_base real_limit l n align 0"

fun alloc_nid_regions ::
  "(u64 \<Rightarrow> u64 \<Rightarrow> u64 \<times> int) \<Rightarrow> lmb \<Rightarrow> lmb_property list \<Rightarrow> u64 \<Rightarrow> u64 \<Rightarrow> int \<Rightarrow> (u64 \<times> lmb) option" where
  "alloc_nid_regions nid_range l [] n align nid = Some (-1, l)"
| "alloc_nid_regions nid_range l (mp # mps) n align nid =
     do {
       (ret, l) \<leftarrow> lmb_alloc_nid_region nid_range l mp n align nid;
       if ret \<noteq> -1 then Some (ret, l) else alloc_nid_regions nid_range l mps n align nid
     }"

definition lmb_alloc_nid ::
  "u64 \<Rightarrow> (u64 \<Rightarrow> u64 \<Rightarrow> u64 \<times> int) \<Rightarrow> lmb \<Rightarrow> u64 \<Rightarrow> u64 \<Rightarrow> int \<Rightarrow> (u64 \<times> lmb) option" where
  "lmb_alloc_nid real_limit nid_range l n align nid =
     (if n = 0 \<or> length (rg_region (lmb_memory l)) < rg_cnt (lmb_memory l) then None
      else do {
        let n = lmb_align_up n align;
        (ret, l) \<leftarrow> alloc_nid_regions nid_range l
          (take (rg_cnt (lmb_memory l)) (rg_region (lmb_memory l))) n align nid;
        if ret \<noteq> -1 then Some (ret, l) else lmb_alloc real_limit l n align
      })"

section \<open>Queries and the memory limit\<close>

definition lmb_phys_mem_size :: "lmb \<Rightarrow> u64" where
  "lmb_phys_mem_size l = rg_size (lmb_memory l)"

definition lmb_end_of_DRAM :: "lmb \<Rightarrow> u64 option" where
  "lmb_end_of_DRAM l =
     do {
       p \<leftarrow> (if rg_cnt (lmb_memory l) = 0 then None else rgn_at (lmb_memory l) (rg_cnt (lmb_memory l) - 1));
       Some (lp_base p + lp_size p)
     }"

function truncate_memory :: "lmb_region \<Rightarrow> u64 \<Rightarrow> nat \<Rightarrow> lmb_region option" where
  "truncate_memory rgn limit i =
     (if i < rg_cnt rgn then
        (case rgn_at rgn i of
           None \<Rightarrow> None
         | Some p \<Rightarrow>
             if limit > lp_size p then truncate_memory rgn (limit - lp_size p) (i + 1)
             else map_option (\<lambda>rgn. rgn\<lparr>rg_cnt := i + 1\<rparr>) (rgn_set rgn i (p\<lparr>lp_size := limit\<rparr>)))
      else Some rgn)"
  by pat_completeness auto
termination by (relation "measure (\<lambda>(rgn, limit, i). rg_cnt rgn - i)") auto

declare lmb_remove_region.simps [simp del] coalesce_loop.simps [simp del] find_containing.simps [simp del]
  overlaps_loop.simps [simp del] truncate_memory.simps [simp del]

lemma lmb_remove_region_cnt:
  "lmb_remove_region rgn i = Some rgn' \<Longrightarrow> rg_cnt rgn' = cnt_dec (rg_cnt rgn)"
proof (induction rgn i rule: lmb_remove_region.induct)
  case (1 rgn i)
  then show ?case
    by (subst (asm) lmb_remove_region.simps)
      (auto simp: rgn_set_def split: if_splits option.splits)
qed

text \<open>
  The second loop of \<open>lmb_enforce_memory_limit\<close>: an entry that becomes empty is removed
  and the same index is looked at again.
\<close>

function truncate_reserved :: "lmb_region \<Rightarrow> u64 \<Rightarrow> nat \<Rightarrow> lmb_region option" where
  "truncate_reserved rgn limit i =
     (if i < rg_cnt rgn then
        (case rgn_at rgn i of
           None \<Rightarrow> None
         | Some p \<Rightarrow>
             let p' = (if lp_base p > limit then p\<lparr>lp_size := 0\<rparr>
                       else if lp_base p + lp_size p > limit then p\<lparr>lp_size := limit - lp_base p\<rparr>
                       else p) in
             (case rgn_set rgn i p' of
                None \<Rightarrow> None
              | Some rgn1 \<Rightarrow>
                  if lp_size p' = 0 then
                    (case lmb_remove_region rgn1 i of
                       None \<Rightarrow> None
                     | Some rgn2 \<Rightarrow> truncate_reserved rgn2 limit i)
                  else truncate_reserved rgn1 limit (i + 1)))
      else Some rgn)"
  by pat_completeness auto
termination
  by (relation "measure (\<lambda>(rgn, limit, i). rg_cnt rgn - i)")
    (auto simp: rgn_set_def cnt_dec_def dest!: lmb_remove_region_cnt split: if_splits)

declare truncate_reserved.simps [simp del]

definition lmb_enforce_memory_limit :: "lmb \<Rightarrow> u64 \<Rightarrow> lmb option" where
  "lmb_enforce_memory_limit l memory_limit =
     (if memory_limit = 0 then Some l
      else do {
        m \<leftarrow> truncate_memory (lmb_memory l) memory_limit 0;
        p0 \<leftarrow> rgn_at m 0;
        let l = l\<lparr>lmb_memory := m,
          lmb_rmo_size := (if lp_size p0 < lmb_rmo_size l then lp_size p0 else lmb_rmo_size l)\<rparr>;
        limit \<leftarrow> lmb_end_of_DRAM l;
        r \<leftarrow> truncate_reserved (lmb_reserved l) limit 0;
        Some (l\<lparr>lmb_reserved := r\<rparr>)
      })"

definition lmb_is_reserved :: "lmb \<Rightarrow> u64 \<Rightarrow> bool option" where
  "lmb_is_reserved l addr =
     (let r = lmb_reserved l in
      if rg_cnt r \<le> length (rg_region r) then
        Some (\<exists>p \<in> set (take (rg_cnt r) (rg_region r)).
          addr \<ge> lp_base p \<and> addr \<le> lp_base p + lp_size p - 1)
      else None)"

fun find_loop :: "lmb_property list \<Rightarrow> u64 \<Rightarrow> u64 \<Rightarrow> lmb_property option" where
  "find_loop [] rstart rend = None"
| "find_loop (p # ps) rstart rend =
     (let start = lp_base p; endp = start + lp_size p - 1 in
      if start > rend then None
      else if endp \<ge> rstart \<and> start < rend then
        (let rstart = (if rstart < start then start else rstart);
             rend = (if rend > endp then endp else rend)
         in Some \<lparr>lp_base = rstart, lp_size = rend - rstart + 1\<rparr>)
      else find_loop ps rstart rend)"

text \<open>\<open>lmb_find\<close>: the adjusted request, or \<open>None\<close> for the return value -1.\<close>

definition lmb_find :: "lmb \<Rightarrow> lmb_property \<Rightarrow> lmb_property option option" where
  "lmb_find l res =
     (let m = lmb_memory l in
      if rg_cnt m \<le> length (rg_region m)
      then Some (find_loop (take (rg_cnt m) (rg_region m)) (lp_base res) (lp_base res + lp_size res - 1))
      else None)"

section \<open>Specification: sets of addresses\<close>

definition lp_end :: "lmb_property \<Rightarrow> nat" where
  "lp_end p = unat (lp_base p) + unat (lp_size p)"

definition lp_range :: "lmb_property \<Rightarrow> nat set" where
  "lp_range p = {unat (lp_base p)..<lp_end p}"

abbreviation entries :: "lmb_region \<Rightarrow> lmb_property list" where
  "entries rgn \<equiv> take (rg_cnt rgn) (rg_region rgn)"

definition cover :: "lmb_region \<Rightarrow> nat set" where
  "cover rgn = (\<Union>p \<in> set (entries rgn). lp_range p)"

text \<open>Sorted tables of non-empty regions with gaps between them, below the end of the address space.\<close>

definition gap_sorted :: "lmb_property list \<Rightarrow> bool" where
  "gap_sorted ps \<longleftrightarrow> sorted_wrt (\<lambda>p q. lp_end p < unat (lp_base q)) ps \<and>
     (\<forall>p \<in> set ps. lp_size p \<noteq> 0 \<and> lp_end p < 2 ^ 64)"

definition rgn_fits :: "lmb_region \<Rightarrow> bool" where
  "rgn_fits rgn \<longleftrightarrow> length (rg_region rgn) = Suc MAX_LMB_REGIONS \<and> 0 < rg_cnt rgn \<and>
     rg_cnt rgn \<le> MAX_LMB_REGIONS"

definition rgn_empty :: "lmb_region \<Rightarrow> bool" where
  "rgn_empty rgn \<longleftrightarrow> rg_cnt rgn = 1 \<and> lp_size (rg_region rgn ! 0) = 0"

definition rgn_ok :: "lmb_region \<Rightarrow> bool" where
  "rgn_ok rgn \<longleftrightarrow> rgn_fits rgn \<and> (rgn_empty rgn \<or> gap_sorted (entries rgn))"

section \<open>The loops on the list of entries\<close>

lemma unat_add_nowrap [unat_simps]:
  "unat a + unat b < 2 ^ 64 \<Longrightarrow> unat (a + b :: u64) = unat a + unat b"
  by (simp add: unat_word_ariths)

lemma word_eq_add_iff:
  "unat b + unat n < 2 ^ 64 \<Longrightarrow> (a = b + n) = (unat a = unat b + unat (n :: u64))"
  by (simp add: word_unat_eq_iff unat_add_nowrap)

lemma rgn_at_entry: "i < rg_cnt rgn \<Longrightarrow> rg_cnt rgn \<le> length (rg_region rgn) \<Longrightarrow>
    rgn_at rgn i = Some (entries rgn ! i)"
  by (simp add: rgn_at_def)

text \<open>Removing entry \<open>r\<close>.\<close>

lemma lmb_remove_region_entries:
  assumes "rg_cnt rgn \<le> length (rg_region rgn)" "r < rg_cnt rgn"
  shows "\<exists>rgn'. lmb_remove_region rgn r = Some rgn' \<and> rg_cnt rgn' = rg_cnt rgn - 1 \<and>
    length (rg_region rgn') = length (rg_region rgn) \<and>
    entries rgn' = take r (entries rgn) @ drop (Suc r) (entries rgn)"
  using assms
proof (induction rgn r rule: lmb_remove_region.induct)
  case (1 rgn r)
  let ?g = "rg_region rgn"
  show ?case
  proof (cases "r < rg_cnt rgn - 1")
    case False
    with "1.prems" have "r = rg_cnt rgn - 1" by simp
    with "1.prems" show ?thesis
      by (subst lmb_remove_region.simps) (simp add: cnt_dec_def min_def)
  next
    case True
    define rgn1 where "rgn1 = rgn\<lparr>rg_region := ?g[r := ?g ! Suc r]\<rparr>"
    have step: "r < cnt_dec (rg_cnt rgn)" "rgn_at rgn (r + 1) = Some (?g ! Suc r)"
        "rgn_set rgn r (?g ! Suc r) = Some rgn1"
      using "1.prems" True by (auto simp: cnt_dec_def rgn_at_def rgn_set_def rgn1_def)
    have "\<exists>rgn'. lmb_remove_region rgn1 (r + 1) = Some rgn' \<and> rg_cnt rgn' = rg_cnt rgn1 - 1 \<and>
        length (rg_region rgn') = length (rg_region rgn1) \<and>
        entries rgn' = take (r + 1) (entries rgn1) @ drop (Suc (r + 1)) (entries rgn1)"
      using "1.prems" True by (intro "1.IH" [OF step]) (auto simp: rgn1_def)
    moreover have "take (r + 1) (entries rgn1) @ drop (Suc (r + 1)) (entries rgn1) =
        take r (entries rgn) @ drop (Suc r) (entries rgn)"
      using "1.prems" True
      by (simp add: rgn1_def take_update_swap take_Suc_conv_app_nth drop_update_swap
          Cons_nth_drop_Suc [symmetric] list_update_append)
    ultimately show ?thesis
      using step by (subst lmb_remove_region.simps) (auto simp: rgn1_def)
  qed
qed

text \<open>Inserting: the entries from the end that lie above the new one move up by one place.\<close>

lemma insert_loop_spec:
  "rg_region rgn = es @ x # rest \<Longrightarrow>
   \<exists>ys zs. es = ys @ zs \<and> (\<forall>z \<in> set zs. lp_base new < lp_base z) \<and>
     (ys \<noteq> [] \<longrightarrow> \<not> lp_base new < lp_base (last ys)) \<and>
     insert_loop rgn new (length es) = Some (rgn\<lparr>rg_region :=
       (if ys = [] then (case zs of [] \<Rightarrow> [x] | z # _ \<Rightarrow> z # zs) else ys @ new # zs) @ rest\<rparr>)"
proof (induction es arbitrary: rgn x rest rule: rev_induct)
  case Nil
  then show ?case by simp
next
  case (snoc p es)
  have p: "rgn_at rgn (length es) = Some p" using snoc.prems by (simp add: rgn_at_def)
  show ?case
  proof (cases "lp_base new < lp_base p")
    case True
    define rgn1 where "rgn1 = rgn\<lparr>rg_region := es @ p # p # rest\<rparr>"
    have set: "rgn_set rgn (length es + 1) p = Some rgn1"
      using snoc.prems by (simp add: rgn_set_def rgn1_def list_update_append)
    obtain ys zs where IH: "es = ys @ zs" "\<forall>z \<in> set zs. lp_base new < lp_base z"
        "ys \<noteq> [] \<longrightarrow> \<not> lp_base new < lp_base (last ys)"
        "insert_loop rgn1 new (length es) = Some (rgn1\<lparr>rg_region :=
          (if ys = [] then (case zs of [] \<Rightarrow> [p] | z # _ \<Rightarrow> z # zs) else ys @ new # zs) @ p # rest\<rparr>)"
      using snoc.IH [of rgn1 p "p # rest"] by (auto simp: rgn1_def)
    show ?thesis
      using IH True p set
      by (intro exI [of _ ys] exI [of _ "zs @ [p]"]) (auto simp: rgn1_def split: list.split)
  next
    case False
    then show ?thesis
      using p snoc.prems
      by (intro exI [of _ "es @ [p]"] exI [of _ "[]"]) (simp add: rgn_set_def list_update_append)
  qed
qed

text \<open>Where the first loop stops.\<close>

definition not_adjacent :: "u64 \<Rightarrow> u64 \<Rightarrow> lmb_property \<Rightarrow> bool" where
  "not_adjacent base n p \<longleftrightarrow> lp_base p \<noteq> base + n \<and> base \<noteq> lp_base p + lp_size p"

definition coalesce_spec :: "lmb_region \<Rightarrow> u64 \<Rightarrow> u64 \<Rightarrow> coalesce \<Rightarrow> bool" where
  "coalesce_spec rgn base n c =
    (case c of
       Already \<Rightarrow> \<lparr>lp_base = base, lp_size = n\<rparr> \<in> set (entries rgn)
     | Through \<Rightarrow> \<forall>p \<in> set (entries rgn). not_adjacent base n p
     | Enlarged j rgn' \<Rightarrow> \<exists>xs p ys p'. entries rgn = xs @ p # ys \<and> j = length xs \<and>
         rgn' = rgn\<lparr>rg_region := (rg_region rgn)[j := p']\<rparr> \<and>
         (\<forall>q \<in> set xs. not_adjacent base n q) \<and>
         (lp_base p = base + n \<and> p' = \<lparr>lp_base = lp_base p - n, lp_size = lp_size p + n\<rparr> \<or>
          base = lp_base p + lp_size p \<and> p' = \<lparr>lp_base = lp_base p, lp_size = lp_size p + n\<rparr>))"

lemma coalesce_loop_spec:
  assumes "rg_cnt rgn \<le> length (rg_region rgn)" "entries rgn = xs @ ys" "i = length xs"
    and "\<forall>p \<in> set xs. not_adjacent base n p"
  shows "\<exists>c. coalesce_loop rgn base n i = Some c \<and> coalesce_spec rgn base n c"
  using assms
proof (induction rgn base n i arbitrary: xs ys rule: coalesce_loop.induct)
  case (1 rgn base n i)
  have len: "length (entries rgn) = rg_cnt rgn" using "1.prems"(1) by simp
  show ?case
  proof (cases ys)
    case Nil
    with "1.prems" len show ?thesis
      by (subst coalesce_loop.simps) (simp add: coalesce_spec_def)
  next
    case (Cons p zs)
    have lt: "i < rg_cnt rgn" using len "1.prems"(2,3) Cons by simp
    have at: "rgn_at rgn i = Some p"
      using rgn_at_entry [OF lt "1.prems"(1)] "1.prems"(2,3) Cons by simp
    have upd: "rgn_set rgn i q = Some (rgn\<lparr>rg_region := (rg_region rgn)[i := q]\<rparr>)" for q
      using lt "1.prems"(1) by (simp add: rgn_set_def)
    consider (same) "lp_base p = base" "lp_size p = n"
      | (above) "\<not> (lp_base p = base \<and> lp_size p = n)" "lp_base p = base + n"
      | (below) "\<not> (lp_base p = base \<and> lp_size p = n)" "lp_base p \<noteq> base + n"
          "base = lp_base p + lp_size p"
      | (none) "\<not> (lp_base p = base \<and> lp_size p = n)" "not_adjacent base n p"
      unfolding not_adjacent_def by blast
    then show ?thesis
    proof cases
      case same
      then have "p = \<lparr>lp_base = base, lp_size = n\<rparr>" by simp
      with lt at same "1.prems"(2) Cons show ?thesis
        by (subst coalesce_loop.simps) (simp add: coalesce_spec_def)
    next
      case above
      let ?p = "\<lparr>lp_base = lp_base p - n, lp_size = lp_size p + n\<rparr>"
      let ?r = "rgn\<lparr>rg_region := (rg_region rgn)[i := ?p]\<rparr>"
      have "coalesce_loop rgn base n i = Some (Enlarged i ?r)"
        using lt at above upd by (subst coalesce_loop.simps) (simp add: lmb_addrs_adjacent_def)
      moreover have "coalesce_spec rgn base n (Enlarged i ?r)"
        using "1.prems" Cons above unfolding coalesce_spec_def coalesce.case by blast
      ultimately show ?thesis by blast
    next
      case below
      let ?p = "\<lparr>lp_base = lp_base p, lp_size = lp_size p + n\<rparr>"
      let ?r = "rgn\<lparr>rg_region := (rg_region rgn)[i := ?p]\<rparr>"
      have p: "p\<lparr>lp_size := lp_size p + n\<rparr> = ?p" by simp
      have "coalesce_loop rgn base n i = Some (Enlarged i ?r)"
        using lt at below upd by (subst coalesce_loop.simps) (simp add: lmb_addrs_adjacent_def p)
      moreover have "coalesce_spec rgn base n (Enlarged i ?r)"
        using "1.prems" Cons below unfolding coalesce_spec_def coalesce.case by blast
      ultimately show ?thesis by blast
    next
      case none
      then have no: "\<not> 0 < lmb_addrs_adjacent base n (lp_base p) (lp_size p)"
          "\<not> lmb_addrs_adjacent base n (lp_base p) (lp_size p) < 0"
        by (auto simp: lmb_addrs_adjacent_def not_adjacent_def)
      have "\<exists>c. coalesce_loop rgn base n (i + 1) = Some c \<and> coalesce_spec rgn base n c"
        using "1.prems" Cons none
        by (intro "1.IH" [OF lt at none(1) refl no, of "xs @ [p]" zs]) auto
      moreover have "coalesce_loop rgn base n i = coalesce_loop rgn base n (i + 1)"
        using lt at none(1) no
        by (subst coalesce_loop.simps) auto
      ultimately show ?thesis by simp
    qed
  qed
qed

section \<open>Adding a region refines set union\<close>

lemma gap_sorted_append:
  "gap_sorted (xs @ ys) \<longleftrightarrow> gap_sorted xs \<and> gap_sorted ys \<and>
     (\<forall>p \<in> set xs. \<forall>q \<in> set ys. lp_end p < unat (lp_base q))"
  by (auto simp: gap_sorted_def sorted_wrt_append)

lemma gap_sorted_Cons:
  "gap_sorted (p # ps) \<longleftrightarrow> lp_size p \<noteq> 0 \<and> lp_end p < 2 ^ 64 \<and> gap_sorted ps \<and>
     (\<forall>q \<in> set ps. lp_end p < unat (lp_base q))"
  by (auto simp: gap_sorted_def)

lemma gap_sorted_Nil [simp]: "gap_sorted []"
  by (simp add: gap_sorted_def)

definition cover_list :: "lmb_property list \<Rightarrow> nat set" where
  "cover_list ps = (\<Union>p \<in> set ps. lp_range p)"

lemma cover_list_simps [simp]:
  "cover_list [] = {}"
  "cover_list (p # ps) = lp_range p \<union> cover_list ps"
  "cover_list (ps @ qs) = cover_list ps \<union> cover_list qs"
  by (auto simp: cover_list_def)

lemma cover_entries: "cover rgn = cover_list (entries rgn)"
  by (simp add: cover_def cover_list_def)

lemma size_pos: "lp_size p \<noteq> 0 \<Longrightarrow> unat (lp_base p) < lp_end p"
  by (simp add: lp_end_def unat_gt_0)

text \<open>A disjoint range lies below or above a non-empty region.\<close>

lemma disjoint_cases:
  assumes "lp_range new \<inter> lp_range p = {}" "lp_size p \<noteq> 0" "lp_size new \<noteq> 0"
  shows "lp_end new \<le> unat (lp_base p) \<or> lp_end p \<le> unat (lp_base new)"
proof (rule ccontr)
  assume "\<not> ?thesis"
  then have "max (unat (lp_base p)) (unat (lp_base new)) \<in> lp_range new \<inter> lp_range p"
    using size_pos [OF assms(2)] size_pos [OF assms(3)] by (auto simp: lp_range_def max_def)
  with assms(1) show False by simp
qed

lemma gap_sorted_elem: "gap_sorted ps \<Longrightarrow> p \<in> set ps \<Longrightarrow> lp_size p \<noteq> 0 \<and> lp_end p < 2 ^ 64"
  by (auto simp: gap_sorted_def)

lemma not_adjacent_iff:
  assumes "lp_end p < 2 ^ 64" "unat base + unat n < 2 ^ 64"
  shows "not_adjacent base n p \<longleftrightarrow> unat (lp_base p) \<noteq> unat base + unat n \<and> lp_end p \<noteq> unat base"
  using assms by (auto simp: not_adjacent_def lp_end_def word_eq_add_iff)

text \<open>Enlarging a region downwards or upwards, and closing a gap completely.\<close>

lemma gap_sorted_mid:
  assumes "gap_sorted (xs @ p # ys)" "lp_size p' \<noteq> 0" "lp_end p' < 2 ^ 64"
    "\<And>q. q \<in> set xs \<Longrightarrow> lp_end q < unat (lp_base p')"
    "\<And>q. q \<in> set ys \<Longrightarrow> lp_end p' < unat (lp_base q)"
  shows "gap_sorted (xs @ p' # ys)"
  using assms by (auto simp: gap_sorted_append gap_sorted_Cons)

lemma enlarge_down:
  assumes sorted: "gap_sorted (xs @ p # ys)" and n: "lp_size new \<noteq> 0" "lp_end new < 2 ^ 64"
    and disj: "lp_range new \<inter> cover_list (xs @ p # ys) = {}"
    and na: "\<forall>q \<in> set xs. not_adjacent (lp_base new) (lp_size new) q"
    and adj: "lp_base p = lp_base new + lp_size new"
  defines "p' \<equiv> \<lparr>lp_base = lp_base p - lp_size new, lp_size = lp_size p + lp_size new\<rparr>"
  shows "gap_sorted (xs @ p' # ys) \<and> lp_range p' = lp_range new \<union> lp_range p"
proof -
  have b: "lp_base p' = lp_base new" by (simp add: p'_def adj)
  have pe: "lp_end p < 2 ^ 64" "lp_size p \<noteq> 0"
    using sorted by (auto simp: gap_sorted_append gap_sorted_Cons)
  have base: "unat (lp_base p) = lp_end new" using adj n(2) by (simp add: lp_end_def unat_add_nowrap)
  have e: "lp_end p' = lp_end p" and sz: "lp_size p' \<noteq> 0"
  proof -
    have "unat (lp_size p) + unat (lp_size new) < 2 ^ 64" using pe base by (simp add: lp_end_def)
    then have "unat (lp_size p') = unat (lp_size p) + unat (lp_size new)"
      by (simp add: p'_def unat_add_nowrap)
    then show "lp_end p' = lp_end p" "lp_size p' \<noteq> 0"
      using base b pe(2) by (auto simp: lp_end_def unat_eq_zero)
  qed
  have range: "lp_range p' = lp_range new \<union> lp_range p"
    using b e base size_pos [OF n(1)] size_pos [OF pe(2)] by (auto simp: lp_range_def)
  have "lp_end q < unat (lp_base p')" if q: "q \<in> set xs" for q
  proof -
    have q': "lp_size q \<noteq> 0" "lp_end q < unat (lp_base p)" "lp_end q < 2 ^ 64"
      using sorted q gap_sorted_elem [OF sorted, of q] by (auto simp: gap_sorted_append gap_sorted_Cons)
    have "lp_range new \<inter> lp_range q = {}" using disj q by (auto simp: cover_list_def)
    from disjoint_cases [OF this q'(1) n(1)] show ?thesis
      using q'(2) base size_pos [OF q'(1)] na q
        not_adjacent_iff [OF q'(3), of "lp_base new" "lp_size new"] n(2) b
      by (auto simp: lp_end_def)
  qed
  moreover have "lp_end p' < unat (lp_base q)" if "q \<in> set ys" for q
    using sorted that e by (auto simp: gap_sorted_append gap_sorted_Cons)
  ultimately show ?thesis using gap_sorted_mid [OF sorted sz] e pe range by simp
qed

lemma enlarge_up:
  assumes sorted: "gap_sorted (xs @ p # ys)" and n: "lp_size new \<noteq> 0" "lp_end new < 2 ^ 64"
    and disj: "lp_range new \<inter> cover_list (xs @ p # ys) = {}"
    and adj: "lp_base new = lp_base p + lp_size p"
  defines "p' \<equiv> \<lparr>lp_base = lp_base p, lp_size = lp_size p + lp_size new\<rparr>"
  shows "lp_base p' = lp_base p \<and> lp_size p' \<noteq> 0 \<and> lp_end p' = lp_end new \<and>
    lp_range p' = lp_range new \<union> lp_range p \<and> (\<forall>q \<in> set xs. lp_end q < unat (lp_base p')) \<and>
    (\<forall>q \<in> set ys. lp_end p' \<le> unat (lp_base q))"
proof -
  have pe: "lp_end p < 2 ^ 64" "lp_size p \<noteq> 0"
    using sorted by (auto simp: gap_sorted_append gap_sorted_Cons)
  have base: "unat (lp_base new) = lp_end p" using adj pe(1) by (simp add: lp_end_def unat_add_nowrap)
  have "unat (lp_size p) + unat (lp_size new) < 2 ^ 64"
    using base n(2) by (simp add: lp_end_def)
  then have size': "unat (lp_size p') = unat (lp_size p) + unat (lp_size new)"
    by (simp add: p'_def unat_add_nowrap)
  have b: "lp_base p' = lp_base p" by (simp add: p'_def)
  have e: "lp_end p' = lp_end new" and sz: "lp_size p' \<noteq> 0"
    using size' base b pe(2) by (auto simp: lp_end_def unat_eq_zero)
  have range: "lp_range p' = lp_range new \<union> lp_range p"
    using b e base size_pos [OF n(1)] size_pos [OF pe(2)] by (auto simp: lp_range_def)
  have "lp_end p' \<le> unat (lp_base q)" if q: "q \<in> set ys" for q
  proof -
    have q': "lp_size q \<noteq> 0" "lp_end p < unat (lp_base q)"
      using sorted q gap_sorted_elem [OF sorted, of q] by (auto simp: gap_sorted_append gap_sorted_Cons)
    have "lp_range new \<inter> lp_range q = {}" using disj q by (auto simp: cover_list_def)
    from disjoint_cases [OF this q'(1) n(1)] show ?thesis
      using q'(2) base e size_pos [OF q'(1)] by auto
  qed
  then show ?thesis using sorted b e sz range by (auto simp: gap_sorted_append gap_sorted_Cons)
qed

lemma close_gap:
  assumes "lp_end p' = unat (lp_base q)" "lp_end q < 2 ^ 64" "lp_size p' \<noteq> 0" "lp_size q \<noteq> 0"
  defines "p'' \<equiv> p'\<lparr>lp_size := lp_size p' + lp_size q\<rparr>"
  shows "lp_base p'' = lp_base p' \<and> lp_size p'' \<noteq> 0 \<and> lp_end p'' = lp_end q \<and>
    lp_range p'' = lp_range p' \<union> lp_range q"
proof -
  have "unat (lp_size p') + unat (lp_size q) < 2 ^ 64" using assms(1,2) by (simp add: lp_end_def)
  then have "unat (lp_size p'') = unat (lp_size p') + unat (lp_size q)"
    by (simp add: p''_def unat_add_nowrap)
  moreover have b: "lp_base p'' = lp_base p'" by (simp add: p''_def)
  ultimately have "lp_end p'' = lp_end q" "lp_size p'' \<noteq> 0"
    using assms(1,3) by (auto simp: lp_end_def unat_eq_zero)
  then show ?thesis
    using b assms(1) size_pos [OF assms(3)] size_pos [OF assms(4)] by (auto simp: lp_range_def)
qed

lemma insert_sorted_gap:
  assumes sorted: "gap_sorted (ys @ zs)" and n: "lp_size new \<noteq> 0" "lp_end new < 2 ^ 64"
    and disj: "lp_range new \<inter> cover_list (ys @ zs) = {}"
    and na: "\<forall>q \<in> set (ys @ zs). not_adjacent (lp_base new) (lp_size new) q"
    and above: "\<forall>z \<in> set zs. lp_base new < lp_base z"
    and below: "ys \<noteq> [] \<longrightarrow> \<not> lp_base new < lp_base (last ys)"
  shows "gap_sorted (ys @ new # zs)"
proof -
  have elem: "lp_size q \<noteq> 0" "lp_end q < 2 ^ 64"
      "lp_end new \<le> unat (lp_base q) \<or> lp_end q \<le> unat (lp_base new)"
      "unat (lp_base q) \<noteq> lp_end new" "lp_end q \<noteq> unat (lp_base new)"
    if "q \<in> set (ys @ zs)" for q
  proof -
    show q: "lp_size q \<noteq> 0" "lp_end q < 2 ^ 64" using gap_sorted_elem [OF sorted that] by auto
    have "lp_range new \<inter> lp_range q = {}" using disj that by (auto simp: cover_list_def)
    from disjoint_cases [OF this q(1) n(1)]
    show "lp_end new \<le> unat (lp_base q) \<or> lp_end q \<le> unat (lp_base new)" .
    show "unat (lp_base q) \<noteq> lp_end new" "lp_end q \<noteq> unat (lp_base new)"
      using not_adjacent_iff [OF q(2), of "lp_base new" "lp_size new"] na that n(2)
      by (auto simp: lp_end_def)
  qed
  have zs: "lp_end new < unat (lp_base z)" if z: "z \<in> set zs" for z
  proof -
    have "unat (lp_base new) < unat (lp_base z)" using above z by (simp add: word_less_nat_alt)
    then show ?thesis using elem [of z] z size_pos [of z] by force
  qed
  have ys: "lp_end y < unat (lp_base new)" if y: "y \<in> set ys" for y
  proof -
    have ne: "ys \<noteq> []" using y by auto
    have "unat (lp_base y) \<le> unat (lp_base (last ys))"
    proof (cases "y = last ys")
      case False
      have "ys = butlast ys @ [last ys]" using ne by simp
      with False y have "y \<in> set (butlast ys)" by (metis in_set_butlastD set_ConsD in_set_conv_decomp
            rotate1.simps(2) set_rotate1)
      then have "lp_end y < unat (lp_base (last ys))"
        using sorted \<open>ys = butlast ys @ [last ys]\<close> gap_sorted_append [of "butlast ys" "[last ys]"]
        by (metis gap_sorted_append last_in_set list.set_intros(1))
      then show ?thesis by (simp add: lp_end_def)
    qed simp
    also have "\<dots> \<le> unat (lp_base new)" using below ne by (simp add: word_less_nat_alt)
    finally show ?thesis using elem [of y] y n size_pos [of new] by force
  qed
  show ?thesis using sorted n zs ys by (auto simp: gap_sorted_append gap_sorted_Cons)
qed

lemma entries_update:
  "entries rgn = xs @ p # ys \<Longrightarrow>
   entries (rgn\<lparr>rg_region := (rg_region rgn)[length xs := p']\<rparr>) = xs @ p' # ys"
  by (simp add: take_update_swap)

text \<open>What adding a range must achieve, with the return value.\<close>

definition add_result :: "lmb_region \<Rightarrow> lmb_property \<Rightarrow> int \<times> lmb_region \<Rightarrow> bool" where
  "add_result rgn new r \<longleftrightarrow>
     (if fst r < 0 then snd r = rgn \<and> rg_cnt rgn = MAX_LMB_REGIONS \<and>
        (\<forall>p \<in> set (entries rgn). not_adjacent (lp_base new) (lp_size new) p)
      else rgn_ok (snd r) \<and> \<not> rgn_empty (snd r) \<and> cover (snd r) = cover rgn \<union> lp_range new)"

lemma gap_sorted_not_empty:
  assumes "gap_sorted (entries rgn)" "rgn_fits rgn"
  shows "\<not> rgn_empty rgn"
proof
  assume e: "rgn_empty rgn"
  have "rg_region rgn ! 0 \<in> set (entries rgn)"
    using assms(2) by (auto simp: rgn_fits_def in_set_conv_nth intro!: exI [of _ 0])
  with gap_sorted_elem [OF assms(1)] e show False by (simp add: rgn_empty_def)
qed

lemma add_resultI:
  assumes "0 \<le> r" "rgn_fits rgn'" "gap_sorted (entries rgn')"
    "cover_list (entries rgn') = cover rgn \<union> lp_range new"
  shows "add_result rgn new (r, rgn')"
  using assms gap_sorted_not_empty [OF assms(3,2)] by (simp add: add_result_def rgn_ok_def cover_entries)

lemma coalesce_entries:
  assumes "rgn_fits rgn" "entries rgn = xs @ p # q # zs"
  shows "\<exists>rgn'. lmb_coalesce_regions rgn (length xs) (length xs + 1) = Some rgn' \<and>
    rgn_fits rgn' \<and> entries rgn' = xs @ (p\<lparr>lp_size := lp_size p + lp_size q\<rparr>) # zs"
proof -
  let ?i = "length xs" and ?p = "p\<lparr>lp_size := lp_size p + lp_size q\<rparr>"
  let ?rgn1 = "rgn\<lparr>rg_region := (rg_region rgn)[?i := ?p]\<rparr>"
  have le: "rg_cnt rgn \<le> length (rg_region rgn)" using assms(1) by (simp add: rgn_fits_def)
  have len: "length xs + 2 + length zs = rg_cnt rgn"
    using arg_cong [OF assms(2), of length] le by simp
  have at: "rgn_at rgn ?i = Some p" "rgn_at rgn (?i + 1) = Some q"
    using rgn_at_entry [of _ rgn] le len assms(2) by (simp_all add: nth_append)
  have set: "rgn_set rgn ?i ?p = Some ?rgn1" using le len by (simp add: rgn_set_def)
  have es1: "entries ?rgn1 = xs @ ?p # q # zs" by (rule entries_update [OF assms(2)])
  have "rg_cnt ?rgn1 \<le> length (rg_region ?rgn1)" "?i + 1 < rg_cnt ?rgn1" using le len by simp_all
  from lmb_remove_region_entries [OF this] obtain rgn' where
      "lmb_remove_region ?rgn1 (?i + 1) = Some rgn'" "rg_cnt rgn' = rg_cnt rgn - 1"
      "length (rg_region rgn') = length (rg_region rgn)"
      "entries rgn' = take (?i + 1) (entries ?rgn1) @ drop (Suc (?i + 1)) (entries ?rgn1)" by auto
  moreover from this(4) have "entries rgn' = xs @ ?p # zs" unfolding es1 by simp
  moreover have "rgn_fits rgn'" using calculation(2,3) len assms(1) by (auto simp: rgn_fits_def)
  ultimately show ?thesis
    using at set unfolding lmb_coalesce_regions_def by simp
qed

lemma merge_next:
  assumes fits: "rgn_fits rgn1" and es: "entries rgn1 = xs @ p' # ys"
    and sorted: "gap_sorted (xs @ p # ys)" and p': "lp_size p' \<noteq> 0" "lp_end p' < 2 ^ 64"
    and below: "\<forall>q \<in> set xs. lp_end q < unat (lp_base p')"
    and above: "\<forall>q \<in> set ys. lp_end p' \<le> unat (lp_base q)"
    and cov: "cover_list xs \<union> lp_range p' \<union> cover_list ys = cover rgn \<union> lp_range new"
  shows "\<exists>r. (do {
      adj \<leftarrow> (if length xs < cnt_dec (rg_cnt rgn1)
             then lmb_regions_adjacent rgn1 (length xs) (length xs + 1) else Some 0);
      if adj \<noteq> 0 then do { rgn \<leftarrow> lmb_coalesce_regions rgn1 (length xs) (length xs + 1); Some (2, rgn) }
      else Some (1, rgn1) }) = Some r \<and> add_result rgn new r"
proof -
  have le: "rg_cnt rgn1 \<le> length (rg_region rgn1)" using fits by (simp add: rgn_fits_def)
  have len: "length xs + 1 + length ys = rg_cnt rgn1"
    using arg_cong [OF es, of length] le by simp
  show ?thesis
  proof (cases ys)
    case Nil
    then have "gap_sorted (entries rgn1)" "\<not> length xs < cnt_dec (rg_cnt rgn1)"
      using gap_sorted_mid [OF sorted p'] below len es by (auto simp: cnt_dec_def)
    moreover from this(1) have "add_result rgn new (1, rgn1)"
      by (rule add_resultI [rotated 2]) (use Nil cov es fits in simp_all)
    ultimately show ?thesis by simp
  next
    case (Cons q zs)
    have lt: "length xs < cnt_dec (rg_cnt rgn1)" using len Cons by (auto simp: cnt_dec_def)
    have at: "rgn_at rgn1 (length xs) = Some p'" "rgn_at rgn1 (length xs + 1) = Some q"
      using rgn_at_entry [of _ rgn1] le len es Cons by (simp_all add: nth_append)
    have q: "lp_size q \<noteq> 0" "lp_end q < 2 ^ 64" using gap_sorted_elem [OF sorted, of q] Cons by auto
    have pq: "lp_end p' \<le> unat (lp_base q)" using above Cons by simp
    have adj: "lmb_regions_adjacent rgn1 (length xs) (length xs + 1) =
        Some (if lp_end p' = unat (lp_base q) then 1 else 0)"
      using at pq q p' size_pos [OF p'(1)] size_pos [OF q(1)]
      by (auto simp: lmb_regions_adjacent_def lmb_addrs_adjacent_def word_eq_add_iff lp_end_def)
    show ?thesis
    proof (cases "lp_end p' = unat (lp_base q)")
      case True
      define p'' where "p'' = p'\<lparr>lp_size := lp_size p' + lp_size q\<rparr>"
      have p'': "lp_base p'' = lp_base p'" "lp_size p'' \<noteq> 0" "lp_end p'' = lp_end q"
          "lp_range p'' = lp_range p' \<union> lp_range q"
        using close_gap [OF True q(2) p'(1) q(1)] by (auto simp: p''_def)
      have "gap_sorted (xs @ p # zs)"
        using sorted Cons by (auto simp: gap_sorted_append gap_sorted_Cons)
      moreover have "\<forall>z \<in> set zs. lp_end p'' < unat (lp_base z)"
        using sorted Cons p''(3) by (auto simp: gap_sorted_append gap_sorted_Cons)
      ultimately have gs: "gap_sorted (xs @ p'' # zs)"
        using p'' q below by (intro gap_sorted_mid [of xs p zs p'']) auto
      obtain rgn' where rgn': "lmb_coalesce_regions rgn1 (length xs) (length xs + 1) = Some rgn'"
          "rgn_fits rgn'" "entries rgn' = xs @ p'' # zs"
        using coalesce_entries [OF fits es [unfolded Cons]] by (auto simp: p''_def)
      then have "add_result rgn new (2, rgn')"
        using gs p''(4) cov Cons by (intro add_resultI) (simp_all add: Un_assoc)
      then show ?thesis using lt adj True rgn'(1) by simp
    next
      case False
      have "lp_end p' < unat (lp_base z)" if "z \<in> set ys" for z
        using that False pq sorted Cons size_pos [OF q(1)]
        by (fastforce simp: gap_sorted_append gap_sorted_Cons)
      then have "gap_sorted (entries rgn1)"
        unfolding es using below by (intro gap_sorted_mid [OF sorted p']) auto
      then have "add_result rgn new (1, rgn1)"
        using cov es fits by (intro add_resultI) (simp_all add: Un_assoc)
      then show ?thesis using False lt adj by simp
    qed
  qed
qed

lemma enlarged_result:
  assumes fits: "rgn_fits rgn" and sorted: "gap_sorted (entries rgn)"
    and n: "lp_size new \<noteq> 0" "lp_end new < 2 ^ 64" and disj: "lp_range new \<inter> cover rgn = {}"
    and spec: "coalesce_spec rgn (lp_base new) (lp_size new) (Enlarged i rgn1)"
  shows "\<exists>r. (do {
      adj \<leftarrow> (if i < cnt_dec (rg_cnt rgn1) then lmb_regions_adjacent rgn1 i (i + 1) else Some 0);
      if adj \<noteq> 0 then do { rgn \<leftarrow> lmb_coalesce_regions rgn1 i (i + 1); Some (2, rgn) }
      else Some (1, rgn1) }) = Some r \<and> add_result rgn new r"
proof -
  obtain xs p ys p' where es: "entries rgn = xs @ p # ys" "i = length xs"
      "rgn1 = rgn\<lparr>rg_region := (rg_region rgn)[i := p']\<rparr>"
      "\<forall>q \<in> set xs. not_adjacent (lp_base new) (lp_size new) q"
    and adj: "lp_base p = lp_base new + lp_size new \<and>
        p' = \<lparr>lp_base = lp_base p - lp_size new, lp_size = lp_size p + lp_size new\<rparr> \<or>
      lp_base new = lp_base p + lp_size p \<and>
        p' = \<lparr>lp_base = lp_base p, lp_size = lp_size p + lp_size new\<rparr>"
    using spec unfolding coalesce_spec_def by auto
  have sorted': "gap_sorted (xs @ p # ys)" using sorted es(1) by simp
  have disj': "lp_range new \<inter> cover_list (xs @ p # ys) = {}"
    using disj es(1) unfolding cover_entries by simp
  have cov: "cover rgn = cover_list xs \<union> (lp_range p \<union> cover_list ys)"
    using es(1) unfolding cover_entries by simp
  have es1: "entries rgn1 = xs @ p' # ys" using entries_update [OF es(1)] es(2,3) by simp
  have fits1: "rgn_fits rgn1" using fits by (simp add: es(3) rgn_fits_def)
  have p': "lp_size p' \<noteq> 0 \<and> lp_end p' < 2 ^ 64 \<and> (\<forall>q \<in> set xs. lp_end q < unat (lp_base p')) \<and>
      (\<forall>q \<in> set ys. lp_end p' \<le> unat (lp_base q)) \<and> lp_range p' = lp_range new \<union> lp_range p"
    using adj
  proof
    assume "lp_base p = lp_base new + lp_size new \<and>
      p' = \<lparr>lp_base = lp_base p - lp_size new, lp_size = lp_size p + lp_size new\<rparr>"
    then have "gap_sorted (xs @ p' # ys)" "lp_range p' = lp_range new \<union> lp_range p"
      using enlarge_down [OF sorted' n disj' es(4)] by auto
    then show ?thesis by (auto simp: gap_sorted_append gap_sorted_Cons)
  next
    assume "lp_base new = lp_base p + lp_size p \<and>
      p' = \<lparr>lp_base = lp_base p, lp_size = lp_size p + lp_size new\<rparr>"
    then show ?thesis using enlarge_up [OF sorted' n disj'] n(2) by auto
  qed
  have "cover_list xs \<union> lp_range p' \<union> cover_list ys = cover rgn \<union> lp_range new"
    using p' cov by auto
  then show ?thesis
    unfolding es(2) using p' by (intro merge_next [OF fits1 es1 sorted']) auto
qed

lemma insert_result:
  assumes fits: "rgn_fits rgn" and sorted: "gap_sorted (entries rgn)"
    and n: "lp_size new \<noteq> 0" "lp_end new < 2 ^ 64" and disj: "lp_range new \<inter> cover rgn = {}"
    and spec: "coalesce_spec rgn (lp_base new) (lp_size new) Through"
    and room: "rg_cnt rgn < MAX_LMB_REGIONS"
  shows "\<exists>r. (do {
      rgn \<leftarrow> insert_loop rgn new (rg_cnt rgn);
      p0 \<leftarrow> rgn_at rgn 0;
      rgn \<leftarrow> (if lp_base new < lp_base p0 then rgn_set rgn 0 new else Some rgn);
      Some (0, rgn\<lparr>rg_cnt := rg_cnt rgn + 1\<rparr>) }) = Some r \<and> add_result rgn new r"
proof -
  let ?c = "rg_cnt rgn" and ?g = "rg_region rgn"
  have lt: "?c < length ?g" "0 < ?c" using fits room by (auto simp: rgn_fits_def)
  have g: "?g = entries rgn @ ?g ! ?c # drop (Suc ?c) ?g" by (rule id_take_nth_drop [OF lt(1)])
  have len: "length (entries rgn) = ?c" using lt by simp
  obtain ys zs where es: "entries rgn = ys @ zs" and zs: "\<forall>z \<in> set zs. lp_base new < lp_base z"
    and ys: "ys \<noteq> [] \<longrightarrow> \<not> lp_base new < lp_base (last ys)"
    and ins: "insert_loop rgn new ?c = Some (rgn\<lparr>rg_region :=
       (if ys = [] then (case zs of [] \<Rightarrow> [?g ! ?c] | z # _ \<Rightarrow> z # zs) else ys @ new # zs) @
         drop (Suc ?c) ?g\<rparr>)"
    using insert_loop_spec [OF g, of new] len by auto
  have gs: "gap_sorted (ys @ new # zs)"
    using insert_sorted_gap [OF _ n _ _ zs ys] sorted disj spec es
    by (simp add: cover_entries coalesce_spec_def)
  define rgn' where "rgn' = rgn\<lparr>rg_region := (ys @ new # zs) @ drop (Suc ?c) ?g, rg_cnt := ?c + 1\<rparr>"
  have ne: "ys @ zs \<noteq> []" using es lt by force
  have run: "(do {
      rgn \<leftarrow> insert_loop rgn new (rg_cnt rgn);
      p0 \<leftarrow> rgn_at rgn 0;
      rgn \<leftarrow> (if lp_base new < lp_base p0 then rgn_set rgn 0 new else Some rgn);
      Some (0, rgn\<lparr>rg_cnt := rg_cnt rgn + 1\<rparr>) }) = Some (0, rgn')"
  proof (cases ys)
    case Nil
    then obtain z zs' where "zs = z # zs'" using ne by (cases zs) auto
    with Nil zs show ?thesis by (simp add: ins rgn_at_def rgn_set_def rgn'_def)
  next
    case (Cons y ys')
    have "\<not> lp_base new < lp_base y"
    proof
      assume "lp_base new < lp_base y"
      moreover have "unat (lp_base y) \<le> unat (lp_base (last ys))"
        using sorted es Cons by (cases "ys' = []")
          (auto simp: gap_sorted_append gap_sorted_Cons lp_end_def dest!: bspec [where x = "last ys'"])
      ultimately show False using ys Cons by (simp add: word_less_nat_alt)
    qed
    with Cons show ?thesis by (simp add: ins rgn_at_def rgn'_def)
  qed
  have "length ys + length zs = ?c" using es len by (metis length_append)
  then have cnt': "?c + 1 = length ys + Suc (length zs)" by simp
  then have "entries rgn' = ys @ new # zs" by (simp only: rgn'_def lmb_region.simps) simp
  moreover have "rgn_fits rgn'" using fits room lt cnt' by (auto simp: rgn'_def rgn_fits_def)
  ultimately have "add_result rgn new (0, rgn')"
    using gs es by (intro add_resultI) (auto simp: cover_entries)
  with run show ?thesis by blast
qed

lemma cover_empty:
  assumes "rgn_empty rgn" "rgn_fits rgn"
  shows "cover rgn = {}"
proof -
  have "entries rgn = [rg_region rgn ! 0]"
    using assms by (cases "rg_region rgn") (auto simp: rgn_empty_def rgn_fits_def)
  then show ?thesis
    using assms(1) by (simp add: cover_entries rgn_empty_def lp_range_def lp_end_def)
qed

lemma lmb_add_region_correct:
  assumes ok: "rgn_ok rgn" and n: "lp_size new \<noteq> 0" "lp_end new < 2 ^ 64"
    and disj: "lp_range new \<inter> cover rgn = {}"
  shows "\<exists>r. lmb_add_region rgn (lp_base new) (lp_size new) = Some r \<and> add_result rgn new r"
proof -
  have fits: "rgn_fits rgn" using ok by (simp add: rgn_ok_def)
  have at0: "rgn_at rgn 0 = Some (rg_region rgn ! 0)" using fits by (simp add: rgn_at_def rgn_fits_def)
  have new: "\<lparr>lp_base = lp_base new, lp_size = lp_size new\<rparr> = new" by simp
  show ?thesis
  proof (cases "rgn_empty rgn")
    case True
    let ?rgn' = "rgn\<lparr>rg_region := (rg_region rgn)[0 := new]\<rparr>"
    have "entries ?rgn' = [new]" "rgn_fits ?rgn'"
      using True fits by (cases "rg_region rgn"; auto simp: rgn_empty_def rgn_fits_def)+
    then have "add_result rgn new (0, ?rgn')"
      using n cover_empty [OF True fits] by (intro add_resultI) (simp_all add: gap_sorted_Cons)
    moreover have "lmb_add_region rgn (lp_base new) (lp_size new) = Some (0, ?rgn')"
      using True at0 fits
      by (cases new) (simp add: lmb_add_region_def rgn_empty_def rgn_set_def rgn_fits_def)
    ultimately show ?thesis by blast
  next
    case False
    then have sorted: "gap_sorted (entries rgn)" using ok by (simp add: rgn_ok_def)
    have le: "rg_cnt rgn \<le> length (rg_region rgn)" "0 < rg_cnt rgn"
      using fits by (auto simp: rgn_fits_def)
    obtain c where c: "coalesce_loop rgn (lp_base new) (lp_size new) 0 = Some c"
        "coalesce_spec rgn (lp_base new) (lp_size new) c"
      using coalesce_loop_spec [OF le(1), of "[]" "entries rgn" 0 "lp_base new" "lp_size new"] by auto
    have not_dummy: "\<not> (rg_cnt rgn = 1 \<and> lp_size (rg_region rgn ! 0) = 0)"
      using False by (simp add: rgn_empty_def)
    show ?thesis
    proof (cases c)
      case Already
      with c(2) new have "new \<in> set (entries rgn)" by (simp add: coalesce_spec_def)
      then have "lp_range new \<subseteq> cover rgn" by (auto simp: cover_def)
      moreover have "unat (lp_base new) \<in> lp_range new" using size_pos [OF n(1)] by (simp add: lp_range_def)
      ultimately show ?thesis using disj by blast
    next
      case (Enlarged i rgn1)
      with enlarged_result [OF fits sorted n disj, of i rgn1] c at0 not_dummy show ?thesis
        by (auto simp: lmb_add_region_def)
    next
      case Through
      have no: "\<not> rg_cnt rgn < cnt_dec (rg_cnt rgn)" using le by (simp add: cnt_dec_def)
      show ?thesis
      proof (cases "rg_cnt rgn < MAX_LMB_REGIONS")
        case True
        with insert_result [OF fits sorted n disj c(2) [unfolded Through] True] c at0 not_dummy no Through
        show ?thesis by (cases new) (auto simp: lmb_add_region_def Let_def)
      next
        case False
        then have "rg_cnt rgn = MAX_LMB_REGIONS" using fits by (simp add: rgn_fits_def)
        then have "add_result rgn new (-1, rgn)" using c(2) Through by (simp add: add_result_def coalesce_spec_def)
        moreover have "lmb_add_region rgn (lp_base new) (lp_size new) = Some (-1, rgn)"
          using False c at0 not_dummy no Through by (auto simp: lmb_add_region_def)
        ultimately show ?thesis by blast
      qed
    qed
  qed
qed



section \<open>Removing a range\<close>

lemma find_containing_spec:
  assumes "rg_cnt rgn \<le> length (rg_region rgn)" "entries rgn = xs @ ys" "i = length xs"
    and "\<forall>p \<in> set xs. \<not> (lp_base p \<le> base \<and> endp \<le> lp_base p + lp_size p)"
  shows "\<exists>f. find_containing rgn base endp i = Some f \<and>
    (case f of
       None \<Rightarrow> \<forall>p \<in> set (entries rgn). \<not> (lp_base p \<le> base \<and> endp \<le> lp_base p + lp_size p)
     | Some j \<Rightarrow> \<exists>as p bs. entries rgn = as @ p # bs \<and> j = length as \<and>
         lp_base p \<le> base \<and> endp \<le> lp_base p + lp_size p)"
  using assms
proof (induction rgn base endp i arbitrary: xs ys rule: find_containing.induct)
  case (1 rgn base endp i)
  have len: "length (entries rgn) = rg_cnt rgn" using "1.prems"(1) by simp
  show ?case
  proof (cases ys)
    case Nil
    with "1.prems" len show ?thesis by (subst find_containing.simps) simp
  next
    case (Cons p zs)
    have lt: "i < rg_cnt rgn" using len "1.prems"(2,3) Cons by simp
    have at: "rgn_at rgn i = Some p"
      using rgn_at_entry [OF lt "1.prems"(1)] "1.prems"(2,3) Cons by simp
    show ?thesis
    proof (cases "lp_base p \<le> base \<and> endp \<le> lp_base p + lp_size p")
      case True
      then have "find_containing rgn base endp i = Some (Some i)"
        using lt at by (subst find_containing.simps) simp
      then show ?thesis using "1.prems" Cons True by (auto intro!: exI [of _ xs])
    next
      case False
      have "find_containing rgn base endp i = find_containing rgn base endp (i + 1)"
        using lt at False by (subst find_containing.simps) auto
      then show ?thesis
        using "1.IH" [OF lt at False, of "xs @ [p]" zs] "1.prems" Cons False by auto
    qed
  qed
qed

text \<open>A contiguous range inside the cover lies inside one region, because there are gaps between them.\<close>

lemma contained_in_one:
  assumes sorted: "gap_sorted ps" and n: "lp_size new \<noteq> 0" and sub: "lp_range new \<subseteq> cover_list ps"
  shows "\<exists>p \<in> set ps. unat (lp_base p) \<le> unat (lp_base new) \<and> lp_end new \<le> lp_end p"
proof -
  have "unat (lp_base new) \<in> lp_range new" using size_pos [OF n] by (simp add: lp_range_def)
  then obtain p where p: "p \<in> set ps" "unat (lp_base new) \<in> lp_range p"
    using sub by (auto simp: cover_list_def)
  have "lp_end new \<le> lp_end p"
  proof (rule ccontr)
    assume "\<not> lp_end new \<le> lp_end p"
    then have "lp_end p \<in> lp_range new" using p(2) by (simp add: lp_range_def)
    then obtain q where q: "q \<in> set ps" "lp_end p \<in> lp_range q"
      using sub by (auto simp: cover_list_def)
    from split_list [OF p(1)] obtain xs ys where "ps = xs @ p # ys" by blast
    with sorted q p(2) show False
      by (auto simp: gap_sorted_append gap_sorted_Cons lp_range_def)
  qed
  with p show ?thesis by (auto simp: lp_range_def)
qed

lemma contains_iff:
  assumes "lp_end p < 2 ^ 64" "lp_end new < 2 ^ 64"
  shows "(lp_base p \<le> lp_base new \<and> lp_base new + lp_size new \<le> lp_base p + lp_size p) \<longleftrightarrow>
    unat (lp_base p) \<le> unat (lp_base new) \<and> lp_end new \<le> lp_end p"
  using assms by (simp add: word_le_nat_alt lp_end_def unat_add_nowrap)

lemma range_minus_mid:
  assumes "gap_sorted (xs @ p # ys)" "lp_range new \<subseteq> lp_range p" "lp_range p' = lp_range p - lp_range new"
  shows "cover_list (xs @ p' # ys) = cover_list (xs @ p # ys) - lp_range new"
proof -
  have "lp_range p \<inter> lp_range q = {}" if "q \<in> set xs \<union> set ys" for q
    using assms(1) that by (fastforce simp: gap_sorted_append gap_sorted_Cons lp_range_def)
  then have "lp_range p \<inter> (cover_list xs \<union> cover_list ys) = {}" by (auto simp: cover_list_def)
  with assms show ?thesis by auto
qed

definition remove_result :: "lmb_region \<Rightarrow> lmb_property \<Rightarrow> int \<times> lmb_region \<Rightarrow> bool" where
  "remove_result rgn old r \<longleftrightarrow>
     (if fst r < 0 then rg_cnt rgn = MAX_LMB_REGIONS
      else cover (snd r) = cover rgn - lp_range old \<and> (rg_cnt (snd r) = 0 \<or> rgn_ok (snd r)))"

lemma shrink_result:
  assumes fits: "rgn_fits rgn" and es: "entries rgn = xs @ p # ys" and sorted: "gap_sorted (xs @ p # ys)"
    and sub: "lp_range old \<subseteq> lp_range p" and p': "lp_size p' \<noteq> 0" "lp_range p' = lp_range p - lp_range old"
    and ends: "unat (lp_base p) \<le> unat (lp_base p')" "lp_end p' \<le> lp_end p"
  shows "\<exists>r. map_option (\<lambda>rgn. (0 :: int, rgn)) (rgn_set rgn (length xs) p') = Some r \<and> remove_result rgn old r"
proof -
  let ?rgn' = "rgn\<lparr>rg_region := (rg_region rgn)[length xs := p']\<rparr>"
  have "length xs < rg_cnt rgn"
    using arg_cong [OF es, of length] fits by (simp add: rgn_fits_def)
  then have set: "rgn_set rgn (length xs) p' = Some ?rgn'" using fits by (simp add: rgn_set_def rgn_fits_def)
  have es': "entries ?rgn' = xs @ p' # ys" by (rule entries_update [OF es])
  have "gap_sorted (xs @ p' # ys)"
    using sorted p' ends by (intro gap_sorted_mid [OF sorted]) (auto simp: gap_sorted_append gap_sorted_Cons)
  moreover have "rgn_fits ?rgn'" using fits by (simp add: rgn_fits_def)
  ultimately have "rgn_ok ?rgn'" using es' by (simp add: rgn_ok_def)
  moreover have "cover ?rgn' = cover rgn - lp_range old"
    unfolding cover_entries es' es by (rule range_minus_mid [OF sorted sub p'(2)])
  ultimately show ?thesis using set by (simp add: remove_result_def)
qed

lemma drop_result:
  assumes fits: "rgn_fits rgn" and es: "entries rgn = xs @ p # ys" and sorted: "gap_sorted (xs @ p # ys)"
    and eq: "lp_range old = lp_range p"
  shows "\<exists>r. map_option (\<lambda>rgn. (0 :: int, rgn)) (lmb_remove_region rgn (length xs)) = Some r \<and> remove_result rgn old r"
proof -
  have le: "rg_cnt rgn \<le> length (rg_region rgn)" using fits by (simp add: rgn_fits_def)
  have lt: "length xs < rg_cnt rgn" using arg_cong [OF es, of length] le by simp
  obtain rgn' where rgn': "lmb_remove_region rgn (length xs) = Some rgn'" "rg_cnt rgn' = rg_cnt rgn - 1"
      "length (rg_region rgn') = length (rg_region rgn)"
      "entries rgn' = take (length xs) (entries rgn) @ drop (Suc (length xs)) (entries rgn)"
    using lmb_remove_region_entries [OF le lt] by blast
  have es': "entries rgn' = xs @ ys" using rgn'(4) unfolding es by simp
  have gs: "gap_sorted (xs @ ys)" using sorted by (auto simp: gap_sorted_append gap_sorted_Cons)
  have "rg_cnt rgn' = 0 \<or> rgn_ok rgn'"
    using rgn'(2,3) fits gs es' by (auto simp: rgn_ok_def rgn_fits_def)
  moreover have "cover rgn' = cover rgn - lp_range old"
  proof -
    have "lp_range p \<inter> lp_range q = {}" if "q \<in> set xs \<union> set ys" for q
      using sorted that by (fastforce simp: gap_sorted_append gap_sorted_Cons lp_range_def)
    then have "lp_range p \<inter> (cover_list xs \<union> cover_list ys) = {}" by (auto simp: cover_list_def)
    then show ?thesis unfolding cover_entries es' es eq by auto
  qed
  ultimately show ?thesis using rgn'(1) by (simp add: remove_result_def)
qed

lemma unat_diff_u64: "unat b \<le> unat a \<Longrightarrow> unat (a - b :: u64) = unat a - unat b"
  by (rule unat_diff_le)

lemma split_result:
  assumes fits: "rgn_fits rgn" and es: "entries rgn = xs @ p # ys" and sorted: "gap_sorted (xs @ p # ys)"
    and inside: "unat (lp_base p) < unat (lp_base old)" "lp_end old < lp_end p" and n: "lp_size old \<noteq> 0"
  defines "endp \<equiv> lp_base old + lp_size old"
  shows "\<exists>r. (do {
      rgn \<leftarrow> rgn_set rgn (length xs) (p\<lparr>lp_size := lp_base old - lp_base p\<rparr>);
      lmb_add_region rgn endp (lp_base p + lp_size p - endp) }) = Some r \<and> remove_result rgn old r"
proof -
  have pe: "lp_end p < 2 ^ 64" "lp_size p \<noteq> 0"
    using gap_sorted_elem [OF sorted, of p] by auto
  let ?p1 = "p\<lparr>lp_size := lp_base old - lp_base p\<rparr>"
  let ?rgn1 = "rgn\<lparr>rg_region := (rg_region rgn)[length xs := ?p1]\<rparr>"
  define tail where "tail = \<lparr>lp_base = endp, lp_size = lp_base p + lp_size p - endp\<rparr>"
  have endp: "unat endp = lp_end old" using inside pe by (simp add: endp_def lp_end_def unat_add_nowrap)
  have rgnend: "unat (lp_base p + lp_size p) = lp_end p" using pe by (simp add: lp_end_def unat_add_nowrap)
  have p1: "lp_end ?p1 = unat (lp_base old)" "lp_size ?p1 \<noteq> 0"
    using inside(1) by (auto simp: lp_end_def unat_diff_u64)
  have tail: "unat (lp_base tail) = lp_end old" "lp_end tail = lp_end p" "lp_size tail \<noteq> 0"
  proof -
    show b: "unat (lp_base tail) = lp_end old" by (simp add: tail_def endp)
    have "unat (lp_size tail) = lp_end p - lp_end old"
      using inside(2) by (simp add: tail_def unat_diff_u64 rgnend endp)
    then show "lp_end tail = lp_end p" "lp_size tail \<noteq> 0"
      using b inside(2) by (auto simp: lp_end_def [of tail] unat_eq_zero)
  qed
  have lt: "length xs < rg_cnt rgn" using arg_cong [OF es, of length] fits by (simp add: rgn_fits_def)
  then have set: "rgn_set rgn (length xs) ?p1 = Some ?rgn1" using fits by (simp add: rgn_set_def rgn_fits_def)
  have es1: "entries ?rgn1 = xs @ ?p1 # ys" by (rule entries_update [OF es])
  have gs1: "gap_sorted (xs @ ?p1 # ys)"
    using sorted p1 inside pe n
    by (intro gap_sorted_mid [OF sorted]) (auto simp: gap_sorted_append gap_sorted_Cons lp_end_def)
  have fits1: "rgn_fits ?rgn1" using fits by (simp add: rgn_fits_def)
  have ok1: "rgn_ok ?rgn1" using gs1 fits1 es1 by (simp add: rgn_ok_def)
  have r1: "lp_range ?p1 = {unat (lp_base p)..<unat (lp_base old)}" using p1(1) by (simp add: lp_range_def)
  have rt: "lp_range tail = {lp_end old..<lp_end p}" using tail by (simp add: lp_range_def)
  have others: "lp_range p \<inter> (cover_list xs \<union> cover_list ys) = {}"
  proof -
    have "lp_range p \<inter> lp_range q = {}" if "q \<in> set xs \<union> set ys" for q
      using sorted that by (fastforce simp: gap_sorted_append gap_sorted_Cons lp_range_def)
    then show ?thesis by (auto simp: cover_list_def)
  qed
  have sub: "lp_range tail \<subseteq> lp_range p" "lp_range ?p1 \<inter> lp_range tail = {}"
    using r1 rt inside size_pos [OF n] by (auto simp: lp_range_def)
  have disj: "lp_range tail \<inter> cover ?rgn1 = {}"
    unfolding cover_entries es1 using sub others by auto
  have "lp_end tail < 2 ^ 64" using tail(2) pe by simp
  from lmb_add_region_correct [OF ok1 tail(3) this disj] obtain r where
      r: "lmb_add_region ?rgn1 endp (lp_base p + lp_size p - endp) = Some r" "add_result ?rgn1 tail r"
    by (auto simp: tail_def)
  have parts: "lp_range ?p1 \<union> lp_range tail = lp_range p - lp_range old"
    using r1 rt inside size_pos [OF n] by (auto simp: lp_range_def)
  have "cover ?rgn1 \<union> lp_range tail = cover rgn - lp_range old"
  proof -
    have "lp_range old \<subseteq> lp_range p" using inside by (auto simp: lp_range_def)
    then show ?thesis unfolding cover_entries es1 es using parts others by auto
  qed
  with r(2) have "remove_result rgn old r" by (auto simp: remove_result_def add_result_def)
  with set r(1) show ?thesis by simp
qed

lemma remove_at_result:
  assumes ok: "rgn_ok rgn" and es: "entries rgn = xs @ p # ys" and n: "lp_size old \<noteq> 0"
    and inside: "unat (lp_base p) \<le> unat (lp_base old)" "lp_end old \<le> lp_end p"
    and small: "lp_end p < 2 ^ 64"
  defines "endp \<equiv> lp_base old + lp_size old" and "rgnend \<equiv> lp_base p + lp_size p"
  shows "\<exists>r. (if lp_base p = lp_base old \<and> rgnend = endp
      then map_option (\<lambda>rgn. (0, rgn)) (lmb_remove_region rgn (length xs))
      else if lp_base p = lp_base old
      then map_option (\<lambda>rgn. (0, rgn)) (rgn_set rgn (length xs) \<lparr>lp_base = endp, lp_size = lp_size p - lp_size old\<rparr>)
      else if rgnend = endp
      then map_option (\<lambda>rgn. (0, rgn)) (rgn_set rgn (length xs) (p\<lparr>lp_size := lp_size p - lp_size old\<rparr>))
      else do {
        rgn \<leftarrow> rgn_set rgn (length xs) (p\<lparr>lp_size := lp_base old - lp_base p\<rparr>);
        lmb_add_region rgn endp (rgnend - endp) }) = Some r \<and> remove_result rgn old r"
proof -
  have fits: "rgn_fits rgn" using ok by (simp add: rgn_ok_def)
  have "lp_size p \<noteq> 0" using size_pos [OF n] inside by (auto simp: lp_end_def)
  moreover have "lp_size p = 0" if "rgn_empty rgn"
  proof -
    have "entries rgn = [rg_region rgn ! 0]"
      using that fits by (cases "rg_region rgn") (auto simp: rgn_empty_def rgn_fits_def)
    then have "p = rg_region rgn ! 0" unfolding es by (cases xs) auto
    with that show ?thesis by (simp add: rgn_empty_def)
  qed
  ultimately have "gap_sorted (entries rgn)" using ok by (auto simp: rgn_ok_def)
  then have sorted: "gap_sorted (xs @ p # ys)" unfolding es .
  have endp: "unat endp = lp_end old" using inside small by (simp add: endp_def lp_end_def unat_add_nowrap)
  have rgnend: "unat rgnend = lp_end p" using small by (simp add: rgnend_def lp_end_def unat_add_nowrap)
  have base_iff: "lp_base p = lp_base old \<longleftrightarrow> unat (lp_base p) = unat (lp_base old)"
    and end_iff: "rgnend = endp \<longleftrightarrow> lp_end p = lp_end old"
    by (simp_all add: word_unat_eq_iff rgnend endp)
  have sub: "lp_range old \<subseteq> lp_range p" using inside by (auto simp: lp_range_def)
  have sz: "unat (lp_size old) \<le> unat (lp_size p)" using inside by (simp add: lp_end_def)
  consider (all) "lp_base p = lp_base old" "rgnend = endp"
    | (front) "lp_base p = lp_base old" "rgnend \<noteq> endp"
    | (rear) "lp_base p \<noteq> lp_base old" "rgnend = endp"
    | (mid) "lp_base p \<noteq> lp_base old" "rgnend \<noteq> endp" by blast
  then show ?thesis
  proof cases
    case all
    then have "lp_range old = lp_range p" using base_iff end_iff by (simp add: lp_range_def)
    from drop_result [OF fits es sorted this] all show ?thesis by simp
  next
    case front
    let ?p' = "\<lparr>lp_base = endp, lp_size = lp_size p - lp_size old\<rparr>"
    have e: "lp_end old < lp_end p" using front end_iff inside by simp
    then have p': "lp_end ?p' = lp_end p" "lp_size ?p' \<noteq> 0"
      using endp sz front(1) by (auto simp: lp_end_def unat_diff_u64)
    then have "lp_range ?p' = lp_range p - lp_range old"
      using endp e front(1) inside size_pos [OF n] by (auto simp: lp_range_def)
    from shrink_result [OF fits es sorted sub p'(2) this] p'(1) endp inside(1) front size_pos [OF n]
    show ?thesis by simp
  next
    case rear
    let ?p' = "p\<lparr>lp_size := lp_size p - lp_size old\<rparr>"
    have b: "unat (lp_base p) < unat (lp_base old)" using rear base_iff inside by simp
    moreover have e: "lp_end p = lp_end old" using rear end_iff by simp
    ultimately have p': "lp_end ?p' = unat (lp_base old)" "lp_size ?p' \<noteq> 0"
      using sz by (auto simp: lp_end_def unat_diff_u64)
    then have "lp_range ?p' = lp_range p - lp_range old"
      using b e size_pos [OF n] by (auto simp: lp_range_def)
    from shrink_result [OF fits es sorted sub p'(2) this] p'(1) inside size_pos [OF n] rear
    show ?thesis by simp
  next
    case mid
    then have "unat (lp_base p) < unat (lp_base old)" "lp_end old < lp_end p"
      using base_iff end_iff inside by auto
    from split_result [OF fits es sorted this n] mid show ?thesis
      by (auto simp: endp_def rgnend_def)
  qed
qed

text \<open>
  C12. Removing a range from the memory table: it succeeds exactly when the range lies inside
  the covered addresses, and then the cover is the old one without the range. Otherwise it
  returns -1 and changes nothing. The only further failure is a split of an entry when
  the table is full.
\<close>

theorem lmb_remove_set_difference:
  assumes ok: "rgn_ok (lmb_memory l)" and n: "n \<noteq> 0" "unat base + unat n < 2 ^ 64"
  shows "\<exists>r l'. lmb_remove l base n = Some (r, l') \<and> lmb_reserved l' = lmb_reserved l \<and>
    (if {unat base..<unat base + unat n} \<subseteq> cover (lmb_memory l) then
       (if r < 0 then rg_cnt (lmb_memory l) = MAX_LMB_REGIONS
        else cover (lmb_memory l') = cover (lmb_memory l) - {unat base..<unat base + unat n} \<and>
          (rg_cnt (lmb_memory l') = 0 \<or> rgn_ok (lmb_memory l')))
     else r = -1 \<and> l' = l)"
proof -
  let ?rgn = "lmb_memory l"
  define old where "old = \<lparr>lp_base = base, lp_size = n\<rparr>"
  have o: "lp_base old = base" "lp_size old = n" "lp_end old = unat base + unat n"
      "lp_range old = {unat base..<unat base + unat n}"
    by (simp_all add: old_def lp_end_def lp_range_def)
  have fits: "rgn_fits ?rgn" using ok by (simp add: rgn_ok_def)
  have le: "rg_cnt ?rgn \<le> length (rg_region ?rgn)" using fits by (simp add: rgn_fits_def)
  have small: "lp_end p < 2 ^ 64" if "p \<in> set (entries ?rgn)" for p
  proof (cases "rgn_empty ?rgn")
    case True
    then have "entries ?rgn = [rg_region ?rgn ! 0]"
      using fits by (cases "rg_region ?rgn") (auto simp: rgn_empty_def rgn_fits_def)
    with that True unsigned_less [of "lp_base p", where 'a = nat] show ?thesis
      by (simp add: lp_end_def rgn_empty_def)
  next
    case False
    with ok that show ?thesis using gap_sorted_elem by (auto simp: rgn_ok_def)
  qed
  obtain f where f: "find_containing ?rgn base (base + n) 0 = Some f" "case f of
       None \<Rightarrow> \<forall>p \<in> set (entries ?rgn). \<not> (lp_base p \<le> base \<and> base + n \<le> lp_base p + lp_size p)
     | Some j \<Rightarrow> \<exists>as p bs. entries ?rgn = as @ p # bs \<and> j = length as \<and>
         lp_base p \<le> base \<and> base + n \<le> lp_base p + lp_size p"
    using find_containing_spec [OF le, of "[]" "entries ?rgn" 0 base "base + n"] by auto
  have contains: "(lp_base p \<le> base \<and> base + n \<le> lp_base p + lp_size p) \<longleftrightarrow>
      unat (lp_base p) \<le> unat base \<and> unat base + unat n \<le> lp_end p"
    if "p \<in> set (entries ?rgn)" for p
    using contains_iff [OF small [OF that], of old] n(2) by (simp add: o)
  show ?thesis
  proof (cases f)
    case None
    have "\<not> lp_range old \<subseteq> cover ?rgn"
    proof (cases "rgn_empty ?rgn")
      case True
      then show ?thesis
        using cover_empty [OF True fits] n(1) by (simp add: o unat_eq_zero)
    next
      case False
      then have "gap_sorted (entries ?rgn)" using ok by (simp add: rgn_ok_def)
      then show ?thesis
        using contained_in_one [of "entries ?rgn" old] f(2) None contains n(1)
        by (auto simp: cover_entries o)
    qed
    then have "\<not> {unat base..<unat base + unat n} \<subseteq> cover ?rgn" by (simp add: o)
    moreover have "lmb_remove l base n = Some (-1, l)" using f(1) None by (simp add: lmb_remove_def Let_def)
    ultimately show ?thesis by auto
  next
    case (Some j)
    obtain as p bs where es: "entries ?rgn = as @ p # bs" "j = length as"
        "lp_base p \<le> base \<and> base + n \<le> lp_base p + lp_size p"
      using f(2) Some by auto
    have mem: "p \<in> set (entries ?rgn)" by (simp add: es(1))
    have in_p: "unat (lp_base p) \<le> unat base" "lp_end old \<le> lp_end p"
      using contains [OF mem] es(3) by (auto simp: o)
    have "j < rg_cnt ?rgn" using arg_cong [OF es(1), of length] le es(2) by simp
    then have at: "rgn_at ?rgn j = Some p" using rgn_at_entry [OF _ le, of j] es(1,2) by simp
    obtain r rgn' where r: "lmb_remove l base n = Some (r, l\<lparr>lmb_memory := rgn'\<rparr>)"
        "remove_result ?rgn old (r, rgn')"
      using remove_at_result [OF ok es(1), of old] in_p small [OF mem] n(1) f(1) Some at es(2)
      by (fastforce simp: lmb_remove_def Let_def o)
    have "lp_range old \<subseteq> cover ?rgn"
      using in_p mem by (auto simp: cover_def lp_range_def o(1) intro!: bexI [of _ p])
    then show ?thesis using r by (auto simp: remove_result_def o(4))
  qed
qed

section \<open>Allocation\<close>





text \<open>The entries of a good table end below the end of the address space.\<close>

lemma rgn_ok_small:
  assumes ok: "rgn_ok rgn" and p: "p \<in> set (entries rgn)"
  shows "lp_end p < 2 ^ 64"
proof (cases "rgn_empty rgn")
  case True
  then have "entries rgn = [rg_region rgn ! 0]"
    using ok by (cases "rg_region rgn") (auto simp: rgn_empty_def rgn_ok_def rgn_fits_def)
  with p True unsigned_less [of "lp_base p", where 'a = nat] show ?thesis
    by (simp add: lp_end_def rgn_empty_def)
next
  case False
  with ok p show ?thesis using gap_sorted_elem by (auto simp: rgn_ok_def)
qed








section \<open>The memory limit\<close>

fun trunc_list :: "lmb_property list \<Rightarrow> u64 \<Rightarrow> lmb_property list" where
  "trunc_list [] limit = []"
| "trunc_list (p # ps) limit =
     (if limit > lp_size p then p # trunc_list ps (limit - lp_size p) else [p\<lparr>lp_size := limit\<rparr>])"

lemma truncate_memory_entries:
  assumes "rg_cnt rgn \<le> length (rg_region rgn)" "entries rgn = xs @ ys" "i = length xs"
  shows "\<exists>rgn'. truncate_memory rgn limit i = Some rgn' \<and>
    length (rg_region rgn') = length (rg_region rgn) \<and> rg_cnt rgn' \<le> rg_cnt rgn \<and>
    (0 < rg_cnt rgn \<longrightarrow> 0 < rg_cnt rgn') \<and> entries rgn' = xs @ trunc_list ys limit"
  using assms
proof (induction rgn limit i arbitrary: xs ys rule: truncate_memory.induct)
  case (1 rgn limit i)
  have len: "length (entries rgn) = rg_cnt rgn" using "1.prems"(1) by simp
  show ?case
  proof (cases ys)
    case Nil
    with "1.prems" len show ?thesis by (subst truncate_memory.simps) simp
  next
    case (Cons p zs)
    have lt: "i < rg_cnt rgn" using len "1.prems"(2,3) Cons by simp
    have at: "rgn_at rgn i = Some p"
      using rgn_at_entry [OF lt "1.prems"(1)] "1.prems"(2,3) Cons by simp
    show ?thesis
    proof (cases "limit > lp_size p")
      case True
      have "truncate_memory rgn limit i = truncate_memory rgn (limit - lp_size p) (i + 1)"
        using lt at True by (subst truncate_memory.simps) simp
      then show ?thesis
        using "1.IH" [OF lt at True, of "xs @ [p]" zs] "1.prems" Cons True by simp
    next
      case False
      let ?p = "p\<lparr>lp_size := limit\<rparr>"
      let ?rgn1 = "rgn\<lparr>rg_region := (rg_region rgn)[i := ?p]\<rparr>"
      have "entries ?rgn1 = xs @ ?p # zs" using entries_update [of rgn xs p zs ?p] "1.prems" Cons by simp
      then have "take (i + 1) (entries ?rgn1) = xs @ [?p]" using "1.prems"(3) by simp
      then have "entries (?rgn1\<lparr>rg_cnt := i + 1\<rparr>) = xs @ [?p]" using lt by (simp add: min_def)
      moreover have "truncate_memory rgn limit i = Some (?rgn1\<lparr>rg_cnt := i + 1\<rparr>)"
        using lt at False "1.prems"(1) by (subst truncate_memory.simps) (simp add: rgn_set_def)
      ultimately show ?thesis using False Cons lt by simp
    qed
  qed
qed

definition total :: "lmb_property list \<Rightarrow> nat" where
  "total ps = sum_list (map (\<lambda>p. unat (lp_size p)) ps)"

lemma total_trunc: "total (trunc_list ps limit) = (if ps = [] then 0 else min (total ps) (unat limit))"
proof (induction ps limit rule: trunc_list.induct)
  case (2 p ps limit)
  then show ?case
    by (cases ps) (auto simp: total_def word_less_nat_alt unat_diff_u64 min_def)
qed (simp add: total_def)

lemma trunc_cover: "cover_list (trunc_list ps limit) \<subseteq> cover_list ps"
  by (induction ps limit rule: trunc_list.induct)
    (auto simp: lp_range_def lp_end_def word_less_nat_alt not_less)

text \<open>Clipping an entry at \<open>limit\<close>, and the entries that remain.\<close>

definition clip :: "u64 \<Rightarrow> lmb_property \<Rightarrow> lmb_property" where
  "clip limit p =
     (if lp_base p > limit then p\<lparr>lp_size := 0\<rparr>
      else if lp_base p + lp_size p > limit then p\<lparr>lp_size := limit - lp_base p\<rparr> else p)"

definition clip_list :: "u64 \<Rightarrow> lmb_property list \<Rightarrow> lmb_property list" where
  "clip_list limit ps = filter (\<lambda>p. lp_size p \<noteq> 0) (map (clip limit) ps)"

lemma truncate_reserved_entries:
  assumes "rg_cnt rgn \<le> length (rg_region rgn)" "entries rgn = xs @ ys" "i = length xs"
  shows "\<exists>rgn'. truncate_reserved rgn limit i = Some rgn' \<and>
    length (rg_region rgn') = length (rg_region rgn) \<and> rg_cnt rgn' \<le> rg_cnt rgn \<and>
    entries rgn' = xs @ clip_list limit ys"
  using assms
proof (induction rgn limit i arbitrary: xs ys rule: truncate_reserved.induct)
  case (1 rgn limit i)
  have len: "length (entries rgn) = rg_cnt rgn" using "1.prems"(1) by simp
  show ?case
  proof (cases ys)
    case Nil
    with "1.prems" len show ?thesis by (subst truncate_reserved.simps) (simp add: clip_list_def)
  next
    case (Cons p zs)
    have lt: "i < rg_cnt rgn" using len "1.prems"(2,3) Cons by simp
    have at: "rgn_at rgn i = Some p"
      using rgn_at_entry [OF lt "1.prems"(1)] "1.prems"(2,3) Cons by simp
    let ?p = "clip limit p"
    let ?rgn1 = "rgn\<lparr>rg_region := (rg_region rgn)[i := ?p]\<rparr>"
    have set: "rgn_set rgn i ?p = Some ?rgn1" using lt "1.prems"(1) by (simp add: rgn_set_def)
    have es1: "entries ?rgn1 = xs @ ?p # zs" using entries_update [of rgn xs p zs ?p] "1.prems" Cons by simp
    have le1: "rg_cnt ?rgn1 \<le> length (rg_region ?rgn1)" "i < rg_cnt ?rgn1" using "1.prems"(1) lt by simp_all
    note IH = "1.IH" [OF lt at refl, folded clip_def, OF set]
    show ?thesis
    proof (cases "lp_size ?p = 0")
      case True
      obtain rgn2 where rgn2: "lmb_remove_region ?rgn1 i = Some rgn2" "rg_cnt rgn2 = rg_cnt ?rgn1 - 1"
          "length (rg_region rgn2) = length (rg_region ?rgn1)"
          "entries rgn2 = take i (entries ?rgn1) @ drop (Suc i) (entries ?rgn1)"
        using lmb_remove_region_entries [OF le1] by blast
      have "entries rgn2 = xs @ zs" using rgn2(4) unfolding es1 using "1.prems"(3) by simp
      moreover have "truncate_reserved rgn limit i = truncate_reserved rgn2 limit i"
        using lt at set True rgn2(1) by (subst truncate_reserved.simps) (simp add: clip_def [symmetric])
      moreover have "rg_cnt rgn2 \<le> length (rg_region rgn2)" using rgn2(2,3) le1(1) by simp
      ultimately show ?thesis
        using IH(1) [OF True rgn2(1), of xs zs] "1.prems"(3) rgn2(2,3) True Cons
        by (fastforce simp: clip_list_def)
    next
      case False
      have "truncate_reserved rgn limit i = truncate_reserved ?rgn1 limit (i + 1)"
        using lt at set False by (subst truncate_reserved.simps) (simp add: clip_def [symmetric])
      then show ?thesis
        using IH(2) [OF False le1(1), of "xs @ [?p]" zs] es1 "1.prems"(3) False Cons
        by (simp add: clip_list_def)
    qed
  qed
qed

lemma clip_range:
  assumes "lp_end p < 2 ^ 64"
  shows "lp_range (clip limit p) = lp_range p \<inter> {..<unat limit}"
proof -
  have e: "unat (lp_base p + lp_size p) = lp_end p" using assms by (simp add: lp_end_def unat_add_nowrap)
  consider "unat limit < unat (lp_base p)"
    | "unat (lp_base p) \<le> unat limit" "unat limit < lp_end p"
    | "lp_end p \<le> unat limit" "unat (lp_base p) \<le> unat limit"
    using lp_end_def [of p] by linarith
  then show ?thesis
    by cases (auto simp: clip_def lp_range_def word_less_nat_alt e lp_end_def unat_diff_u64)
qed

lemma clip_list_cover:
  assumes "\<forall>p \<in> set ps. lp_end p < 2 ^ 64"
  shows "cover_list (clip_list limit ps) = cover_list ps \<inter> {..<unat limit}"
  using assms
proof (induction ps)
  case (Cons p ps)
  then have "lp_range (clip limit p) = lp_range p \<inter> {..<unat limit}" by (simp add: clip_range)
  moreover have "lp_range (clip limit p) = {}" if "lp_size (clip limit p) = 0"
    using that by (simp add: lp_range_def lp_end_def)
  ultimately show ?case using Cons by (auto simp: clip_list_def)
qed (simp add: clip_list_def)

text \<open>
  C14. \<open>lmb_enforce_memory_limit\<close> returns; afterwards the memory table covers part of what it
  covered and its total size is the minimum of the old total and the limit, and the reserved
  table covers exactly the formerly reserved addresses below the new end of memory.
\<close>

theorem lmb_enforce_memory_limit_correct:
  assumes mem: "rgn_ok (lmb_memory l)" and rsv: "rgn_ok (lmb_reserved l)" and "limit \<noteq> 0"
  shows "\<exists>l' e. lmb_enforce_memory_limit l limit = Some l' \<and> lmb_end_of_DRAM l' = Some e \<and>
    total (entries (lmb_memory l')) = min (total (entries (lmb_memory l))) (unat limit) \<and>
    cover (lmb_memory l') \<subseteq> cover (lmb_memory l) \<and>
    cover (lmb_reserved l') = cover (lmb_reserved l) \<inter> {..<unat e}"
proof -
  let ?m = "lmb_memory l" and ?r = "lmb_reserved l"
  have fits: "0 < rg_cnt ?m" "rg_cnt ?m \<le> length (rg_region ?m)" "rg_cnt ?r \<le> length (rg_region ?r)"
    using mem rsv by (auto simp: rgn_ok_def rgn_fits_def)
  obtain m' where m': "truncate_memory ?m limit 0 = Some m'"
      "length (rg_region m') = length (rg_region ?m)" "rg_cnt m' \<le> rg_cnt ?m" "0 < rg_cnt m'"
      "entries m' = trunc_list (entries ?m) limit"
    using truncate_memory_entries [OF fits(2), of "[]" "entries ?m" 0 limit] fits(1) by auto
  have bounds: "0 < length (rg_region m')" "rg_cnt m' - 1 < length (rg_region m')"
    using m'(2-4) fits(2) by auto
  define e where "e = lp_base (rg_region m' ! (rg_cnt m' - 1)) + lp_size (rg_region m' ! (rg_cnt m' - 1))"
  obtain r' where r': "truncate_reserved ?r e 0 = Some r'" "entries r' = clip_list e (entries ?r)"
    using truncate_reserved_entries [OF fits(3), of "[]" "entries ?r" 0 e] by auto
  define l' where "l' = l\<lparr>lmb_memory := m',
    lmb_rmo_size := (if lp_size (rg_region m' ! 0) < lmb_rmo_size l then lp_size (rg_region m' ! 0)
      else lmb_rmo_size l), lmb_reserved := r'\<rparr>"
  have "lmb_end_of_DRAM l' = Some e"
    using m'(4) bounds by (simp add: lmb_end_of_DRAM_def rgn_at_def e_def l'_def)
  moreover have "lmb_enforce_memory_limit l limit = Some l'"
    using assms(3) m'(1,4) bounds r'(1)
    by (simp add: lmb_enforce_memory_limit_def lmb_end_of_DRAM_def rgn_at_def e_def l'_def)
  moreover have "entries ?m \<noteq> []" using fits by force
  then have "total (entries (lmb_memory l')) = min (total (entries ?m)) (unat limit)"
    using m'(5) by (simp add: l'_def total_trunc)
  moreover have "cover (lmb_memory l') \<subseteq> cover ?m"
    using m'(5) trunc_cover by (simp add: l'_def cover_entries)
  moreover have "cover (lmb_reserved l') = cover ?r \<inter> {..<unat e}"
    using r'(2) clip_list_cover [of "entries ?r" e] rgn_ok_small [OF rsv] by (simp add: l'_def cover_entries)
  ultimately show ?thesis by blast
qed


section \<open>Examples and findings\<close>

definition lmb_table :: "(u64 \<times> u64) list \<Rightarrow> lmb_region" where
  "lmb_table ps = \<lparr>rg_cnt = length ps, rg_size = 0,
     rg_region = map (\<lambda>(b, n). \<lparr>lp_base = b, lp_size = n\<rparr>) ps @
       replicate (129 - length ps) \<lparr>lp_base = 0, lp_size = 0\<rparr>\<rparr>"

definition lmb_example :: lmb where
  "lmb_example = \<lparr>lmb_rmo_size = 0, lmb_memory = lmb_table [(0x1000, 0x3000), (0x8000, 0x1000)],
     lmb_reserved = lmb_table [(0x2000, 0x1000)]\<rparr>"

lemma lmb_example_ok:
  "rgn_ok (lmb_memory lmb_example)" "rgn_ok (lmb_reserved lmb_example)"
  "cover (lmb_memory lmb_example) = {0x1000..<0x4000} \<union> {0x8000..<0x9000}"
  "cover (lmb_reserved lmb_example) = {0x2000..<0x3000}"
  by (simp_all add: lmb_example_def lmb_table_def rgn_ok_def rgn_fits_def gap_sorted_Cons lp_end_def
      cover_def lp_range_def)


theorem lmb_remove_set_difference_witness:
  "\<exists>r l'. lmb_remove lmb_example 0x2000 0x1000 = Some (r, l') \<and>
    (0 \<le> r \<longrightarrow> cover (lmb_memory l') = {0x1000..<0x2000} \<union> {0x3000..<0x4000} \<union> {0x8000..<0x9000})"
proof -
  obtain r l' where "lmb_remove lmb_example 0x2000 0x1000 = Some (r, l')"
      "if r < 0 then rg_cnt (lmb_memory lmb_example) = MAX_LMB_REGIONS
       else cover (lmb_memory l') = cover (lmb_memory lmb_example) - {0x2000..<0x3000}"
    using lmb_remove_set_difference [OF lmb_example_ok(1), of "0x1000" "0x2000"]
    by (auto simp: lmb_example_ok split: if_splits)
  then show ?thesis by (auto simp: lmb_example_ok)
qed


theorem lmb_enforce_memory_limit_correct_witness:
  "\<exists>l'. lmb_enforce_memory_limit lmb_example 0x2000 = Some l' \<and> total (entries (lmb_memory l')) = 0x2000"
  using lmb_enforce_memory_limit_correct [OF lmb_example_ok(1,2), of "0x2000"]
  by (auto simp: lmb_example_def lmb_table_def total_def)

text \<open>
  An initialised table has one entry of size 0, whose last address \<open>base + size - 1\<close> wraps
  around: every address counts as reserved.
\<close>

lemma lmb_is_reserved_initial:
  "lmb_is_reserved (l\<lparr>lmb_reserved := lmb_table [(0, 0)]\<rparr>) addr = Some True"
proof -
  have "addr \<le> -1" by (rule word_n1_ge)
  then show ?thesis by (simp add: lmb_is_reserved_def lmb_table_def)
qed

text \<open>A range that overlaps an entry is inserted beside it: the entries are no longer disjoint.\<close>

lemma lmb_add_region_overlap:
  "\<exists>rgn'. lmb_add_region (lmb_table [(0, 16)]) 8 16 = Some (0, rgn') \<and> \<not> rgn_ok rgn'"
proof -
  have loop: "coalesce_loop (lmb_table [(0, 16)]) 8 16 0 = Some Through"
    by (subst coalesce_loop.simps, subst coalesce_loop.simps)
      (simp add: rgn_at_def lmb_table_def lmb_addrs_adjacent_def)
  have cells: "replicate 128 x = x # replicate 127 x" for x :: lmb_property
    using replicate_Suc [of 127 x] by simp
  let ?r = "lmb_table [(0, 16), (8, 16)]"
  have "lmb_add_region (lmb_table [(0, 16)]) 8 16 = Some (0, ?r)"
    using loop by (simp add: lmb_add_region_def rgn_at_def lmb_table_def rgn_set_def cnt_dec_def MAX_LMB_REGIONS_def cells)
  moreover have "\<not> rgn_ok ?r"
    by (simp add: rgn_ok_def rgn_empty_def gap_sorted_def lmb_table_def lp_end_def)
  ultimately show ?thesis by blast
qed

text \<open>
  A limit below the size of the request: the candidate \<open>min(end, max_addr) - size\<close> wraps around
  and an address far outside the memory is handed out and reserved.
\<close>

lemma lmb_alloc_base_bogus:
  "\<exists>l'. raw_lmb_alloc_base 0 \<lparr>lmb_rmo_size = 0, lmb_memory = lmb_table [(0, 0x100000)],
      lmb_reserved = lmb_table [(0, 0)]\<rparr> 0x2000 (2 ^ 12) 0x1000 = Some (- 0x1000, l')"
proof -
  let ?r = "lmb_table [(0, 0)]"
  have ov: "lmb_overlaps_region ?r (- 0x1000) 0x2000 = Some (-1)"
    unfolding lmb_overlaps_region_def
    by (subst overlaps_loop.simps, subst overlaps_loop.simps)
      (simp add: rgn_at_def lmb_table_def lmb_addrs_overlap_def)
  have search: "search_down (\<lambda>base. base \<noteq> 0 \<and> 0 \<le> base) ?r 0x2000 0x1000 (- 0x1000) =
      Some (Some (- 0x1000))"
    using ov by (subst search_down.simps) simp
  let ?l = "\<lparr>lmb_rmo_size = 0, lmb_memory = lmb_table [(0, 0x100000)], lmb_reserved = ?r\<rparr>"
  have at: "rgn_at (lmb_table [(0, 0x100000)]) 0 = Some \<lparr>lp_base = 0, lp_size = 0x100000\<rparr>"
    by (simp add: lmb_table_def rgn_at_def)
  have cand: "lmb_align_down (min (0 + 0x100000) 0x1000 - 0x2000) 0x1000 = - 0x1000"
    by (simp add: lmb_align_down_def min_def)
  obtain rsv where add: "lmb_add_region ?r (- 0x1000) 0x2000 = Some (0, rsv)"
    by (simp add: lmb_add_region_def lmb_table_def rgn_at_def rgn_set_def)
  have "alloc_base_loop ?l 0x2000 0x1000 0x1000 (Suc 0) = Some (- 0x1000, ?l\<lparr>lmb_reserved := rsv\<rparr>)"
    using at search cand add by simp
  moreover have "lmb_align_up 0x2000 (2 ^ 12) = 0x2000" "rg_cnt (lmb_table [(0, 0x100000)]) = Suc 0"
    by (simp_all add: lmb_align_up_def lmb_table_def)
  ultimately show ?thesis by (simp add: raw_lmb_alloc_base_def)
qed

text \<open>
  After the last entry was removed the count is 0, and the next region that is added above the
  stale first entry is lost: the removed region is back instead.
\<close>

lemma lmb_add_after_last_removed:
  "\<exists>rgn rgn'. lmb_remove_region (lmb_table [(0x1000, 0x1000)]) 0 = Some rgn \<and>
    lmb_add_region rgn 0x3000 0x1000 = Some (0, rgn') \<and>
    entries rgn' = [\<lparr>lp_base = 0x1000, lp_size = 0x1000\<rparr>]"
proof -
  let ?t = "lmb_table [(0x1000, 0x1000)]"
  let ?rgn = "?t\<lparr>rg_cnt := 0\<rparr>"
  have "lmb_remove_region ?t 0 = Some ?rgn"
    by (subst lmb_remove_region.simps) (simp add: lmb_table_def cnt_dec_def)
  moreover have "coalesce_loop ?rgn 0x3000 0x1000 0 = Some Through"
    by (subst coalesce_loop.simps) simp
  then have "lmb_add_region ?rgn 0x3000 0x1000 = Some (0, ?t)"
    by (simp add: lmb_add_region_def lmb_table_def cnt_dec_def rgn_at_def lmb_regions_adjacent_def
        lmb_addrs_adjacent_def)
  ultimately show ?thesis by (auto simp: lmb_table_def)
qed

text \<open>A region that starts at the last byte of the request is not found.\<close>

lemma lmb_find_last_byte:
  "lmb_find (l\<lparr>lmb_memory := lmb_table [(0x1000, 0x1000)]\<rparr>) \<lparr>lp_base = 0, lp_size = 0x1001\<rparr> = Some None"
  by (simp add: lmb_find_def lmb_table_def)

end
