(* ===== verification/File_Locks.thy ===== *)
theory File_Locks
  imports Kernel_Prelude
begin

text \<open>
  File locks, \<^verbatim>\<open>fs/locks.c\<close>: byte-range (POSIX) locks, whole-file (FLOCK) locks and leases on one
  inode. The inode's list \<open>i_flock\<close> is a list of lock structures, each with the number that
  stands for its address; pointers held by the code (\<open>request\<close>, \<open>left\<close>, \<open>right\<close>) are such
  numbers. File offsets are \<open>int\<close>: the code keeps them between 0 and \<open>OFFSET_MAX\<close>, and
  where a conversion from user space can overflow the wrap-around is written out. Locks are
  those of local processes (no lock-manager operations), so an owner is a number.
\<close>

section \<open>Locks\<close>

definition F_RDLCK :: u8 where [simp]: "F_RDLCK = 0"
definition F_WRLCK :: u8 where [simp]: "F_WRLCK = 1"
definition F_UNLCK :: u8 where [simp]: "F_UNLCK = 2"
definition F_INPROGRESS :: u8 where [simp]: "F_INPROGRESS = 16"
definition LOCK_MAND :: u8 where [simp]: "LOCK_MAND = 32"
definition LOCK_RW :: u8 where [simp]: "LOCK_RW = 192"
definition OFFSET_MAX :: int where [simp]: "OFFSET_MAX = 2 ^ 63 - 1"

datatype lock_kind = FL_POSIX | FL_FLOCK | FL_LEASE

record file_lock =
  fl_id :: nat
  fl_kind :: lock_kind
  fl_owner :: nat
  fl_pid :: nat
  fl_file :: nat
  fl_type :: u8
  fl_start :: int
  fl_end :: int
  fl_break_time :: u64

text \<open>
  A blocked request: the request, the lock it waits for (its \<open>fl_next\<close>) with its owner, and
  whether that is a POSIX lock, i.e. whether the request is on \<open>blocked_list\<close>. The state has the
  lock list of the inode, the locks of all other inodes, and all blocked requests.
\<close>

record waiter =
  wt_lock :: file_lock
  wt_blocker :: nat
  wt_blocker_owner :: nat
  wt_posix :: bool

record lock_state =
  i_flock :: "file_lock list"
  i_others :: "file_lock list"
  waiters :: "waiter list"

text \<open>A request with the flags \<open>FL_ACCESS\<close>, \<open>FL_SLEEP\<close> and \<open>FL_EXISTS\<close>.\<close>

record lock_request =
  rq_lock :: file_lock
  rq_access :: bool
  rq_sleep :: bool
  rq_exists :: bool

datatype lock_ret = Locked | Deferred | Failed errno

section \<open>From user space\<close>

definition raw_locks_copy_lock :: "file_lock \<Rightarrow> file_lock \<Rightarrow> file_lock" where
  "raw_locks_copy_lock new fl =
     new\<lparr>fl_owner := fl_owner fl, fl_pid := fl_pid fl, fl_file := 0, fl_kind := fl_kind fl,
       fl_type := fl_type fl, fl_start := fl_start fl, fl_end := fl_end fl\<rparr>"

definition locks_copy_lock :: "file_lock \<Rightarrow> file_lock \<Rightarrow> file_lock" where
  "locks_copy_lock new fl = (raw_locks_copy_lock new fl)\<lparr>fl_file := fl_file fl\<rparr>"

text \<open>A structure at address \<open>a\<close> as \<open>locks_init_lock\<close> leaves it.\<close>

definition locks_init_lock :: "nat \<Rightarrow> file_lock" where
  "locks_init_lock a = \<lparr>fl_id = a, fl_kind = FL_POSIX, fl_owner = 0, fl_pid = 0, fl_file = 0, fl_type = 0,
     fl_start = 0, fl_end = 0, fl_break_time = 0\<rparr>"

text \<open>The type argument is an \<open>int\<close>, the field \<open>fl_type\<close> one byte.\<close>

definition assign_type :: "file_lock \<Rightarrow> int \<Rightarrow> file_lock result" where
  "assign_type fl ty =
     (if ty = uint F_RDLCK \<or> ty = uint F_WRLCK \<or> ty = uint F_UNLCK then Inr (fl\<lparr>fl_type := word_of_int ty\<rparr>)
      else Inl EINVAL)"

definition flock_translate_cmd :: "u32 \<Rightarrow> u32 result" where
  "flock_translate_cmd cmd =
     (if cmd AND ucast LOCK_MAND \<noteq> 0 then Inr (cmd AND (ucast LOCK_MAND OR ucast LOCK_RW))
      else if cmd = 1 then Inr (ucast F_RDLCK)
      else if cmd = 2 then Inr (ucast F_WRLCK)
      else if cmd = 8 then Inr (ucast F_UNLCK)
      else Inl EINVAL)"

definition flock_make_lock :: "nat option \<Rightarrow> nat \<Rightarrow> nat \<Rightarrow> u32 \<Rightarrow> file_lock result" where
  "flock_make_lock mem filp tgid cmd =
     (case flock_translate_cmd cmd of
        Inl e \<Rightarrow> Inl e
      | Inr ty \<Rightarrow>
          (case mem of
             None \<Rightarrow> Inl ENOMEM
           | Some a \<Rightarrow> Inr ((locks_init_lock a)\<lparr>fl_file := filp, fl_pid := tgid, fl_kind := FL_FLOCK,
               fl_type := ucast ty, fl_end := OFFSET_MAX\<rparr>)))"

text \<open>64-bit signed arithmetic.\<close>

definition s64 :: "int \<Rightarrow> int" where
  "s64 x = sint (word_of_int x :: u64)"

datatype whence = SEEK_SET | SEEK_CUR | SEEK_END | SEEK_other

record flock_arg =
  l_type :: int
  l_whence :: whence
  l_start :: int
  l_len :: int
  l_pid :: nat

definition flock_to_posix_lock ::
  "nat \<Rightarrow> nat \<Rightarrow> nat \<Rightarrow> int \<Rightarrow> int \<Rightarrow> file_lock \<Rightarrow> flock_arg \<Rightarrow> file_lock result" where
  "flock_to_posix_lock files tgid filp f_pos i_size fl l =
     (case (case l_whence l of SEEK_SET \<Rightarrow> Some 0 | SEEK_CUR \<Rightarrow> Some f_pos | SEEK_END \<Rightarrow> Some i_size
            | SEEK_other \<Rightarrow> None) of
        None \<Rightarrow> Inl EINVAL
      | Some start0 \<Rightarrow>
          let start = s64 (start0 + l_start l) in
          if start < 0 then Inl EINVAL
          else
            let e = (if l_len l > 0 then s64 (s64 (start + l_len l) - 1)
                     else if l_len l < 0 then start - 1 else OFFSET_MAX);
                start' = (if l_len l < 0 then s64 (start + l_len l) else start)
            in if l_len l < 0 \<and> start' < 0 then Inl EINVAL
               else if e < start' then Inl EOVERFLOW
               else assign_type (fl\<lparr>fl_start := start', fl_end := e, fl_owner := files, fl_pid := tgid,
                      fl_file := filp, fl_kind := FL_POSIX\<rparr>) (l_type l))"

definition posix_lock_to_flock :: "flock_arg \<Rightarrow> file_lock \<Rightarrow> flock_arg" where
  "posix_lock_to_flock flock fl =
     flock\<lparr>l_pid := fl_pid fl, l_start := fl_start fl,
       l_len := (if fl_end fl = OFFSET_MAX then 0 else fl_end fl - fl_start fl + 1),
       l_whence := SEEK_SET, l_type := uint (fl_type fl)\<rparr>"

section \<open>Conflicts and waiting\<close>

definition locks_overlap :: "file_lock \<Rightarrow> file_lock \<Rightarrow> bool" where
  "locks_overlap fl1 fl2 \<longleftrightarrow> fl_end fl1 \<ge> fl_start fl2 \<and> fl_end fl2 \<ge> fl_start fl1"

definition posix_same_owner :: "file_lock \<Rightarrow> file_lock \<Rightarrow> bool" where
  "posix_same_owner fl1 fl2 \<longleftrightarrow> fl_owner fl1 = fl_owner fl2"

definition locks_conflict :: "file_lock \<Rightarrow> file_lock \<Rightarrow> bool" where
  "locks_conflict caller_fl sys_fl \<longleftrightarrow> fl_type sys_fl = F_WRLCK \<or> fl_type caller_fl = F_WRLCK"

definition posix_locks_conflict :: "file_lock \<Rightarrow> file_lock \<Rightarrow> bool" where
  "posix_locks_conflict caller_fl sys_fl \<longleftrightarrow>
     \<not> (fl_kind sys_fl \<noteq> FL_POSIX \<or> posix_same_owner caller_fl sys_fl) \<and>
     locks_overlap caller_fl sys_fl \<and> locks_conflict caller_fl sys_fl"

definition flock_locks_conflict :: "file_lock \<Rightarrow> file_lock \<Rightarrow> bool" where
  "flock_locks_conflict caller_fl sys_fl \<longleftrightarrow>
     \<not> (fl_kind sys_fl \<noteq> FL_FLOCK \<or> fl_file caller_fl = fl_file sys_fl) \<and>
     \<not> (fl_type caller_fl AND LOCK_MAND \<noteq> 0 \<or> fl_type sys_fl AND LOCK_MAND \<noteq> 0) \<and>
     locks_conflict caller_fl sys_fl"

definition raw_locks_delete_block :: "nat \<Rightarrow> waiter list \<Rightarrow> waiter list" where
  "raw_locks_delete_block w ws = filter (\<lambda>x. fl_id (wt_lock x) \<noteq> w) ws"

text \<open>The \<open>BUG_ON\<close> for a request that is already blocked is \<open>None\<close>.\<close>

definition locks_insert_block :: "file_lock \<Rightarrow> file_lock \<Rightarrow> waiter list \<Rightarrow> waiter list option" where
  "locks_insert_block blocker waiter ws =
     (if \<exists>x \<in> set ws. fl_id (wt_lock x) = fl_id waiter then None
      else Some (\<lparr>wt_lock = waiter, wt_blocker = fl_id blocker,
             wt_blocker_owner = fl_owner blocker, wt_posix = (fl_kind blocker = FL_POSIX)\<rparr> # ws))"

definition locks_wake_up_blocks :: "file_lock \<Rightarrow> waiter list \<Rightarrow> waiter list" where
  "locks_wake_up_blocks blocker ws = filter (\<lambda>x. wt_blocker x \<noteq> fl_id blocker) ws"

text \<open>
  \<open>what_owner_is_waiting_for\<close> and \<open>posix_locks_deadlock\<close>: only the owner of a lock matters on the chain;
  \<open>n\<close> is what is left of the iterations, \<open>MAX_DEADLK_ITERATIONS + 1\<close> at the start.
\<close>

definition what_owner_is_waiting_for :: "waiter list \<Rightarrow> nat \<Rightarrow> nat option" where
  "what_owner_is_waiting_for ws owner =
     map_option wt_blocker_owner (find (\<lambda>w. wt_posix w \<and> fl_owner (wt_lock w) = owner) ws)"

fun deadlock_loop :: "waiter list \<Rightarrow> nat \<Rightarrow> nat \<Rightarrow> nat \<Rightarrow> bool" where
  "deadlock_loop ws caller owner n =
     (case what_owner_is_waiting_for ws owner of
        None \<Rightarrow> False
      | Some owner' \<Rightarrow>
          (case n of
             0 \<Rightarrow> False
           | Suc n' \<Rightarrow> if caller = owner' then True else deadlock_loop ws caller owner' n'))"

definition posix_locks_deadlock :: "waiter list \<Rightarrow> file_lock \<Rightarrow> file_lock \<Rightarrow> bool" where
  "posix_locks_deadlock ws caller_fl block_fl =
     deadlock_loop ws (fl_owner caller_fl) (fl_owner block_fl) 11"

definition posix_test_lock :: "lock_state \<Rightarrow> file_lock \<Rightarrow> file_lock" where
  "posix_test_lock s fl =
     (case find (\<lambda>cfl. fl_kind cfl = FL_POSIX \<and> posix_locks_conflict fl cfl) (i_flock s) of
        Some cfl \<Rightarrow> raw_locks_copy_lock fl cfl
      | None \<Rightarrow> fl\<lparr>fl_type := F_UNLCK\<rparr>)"

section \<open>POSIX locks\<close>

text \<open>
  The variables of \<open>__posix_lock_file\<close>: the locks before the cursor \<open>before\<close>, those from it on, the
  structure \<open>request\<close> points to (and the list element it is, if it is one), \<open>added\<close>, \<open>left\<close> and \<open>right\<close>.
\<close>

record scan =
  ps_pre :: "file_lock list"
  ps_rest :: "file_lock list"
  ps_req :: file_lock
  ps_alias :: "nat option"
  ps_added :: bool
  ps_left :: "nat option"
  ps_right :: "nat option"
  ps_waiters :: "waiter list"

definition upd_lock :: "nat \<Rightarrow> (file_lock \<Rightarrow> file_lock) \<Rightarrow> file_lock list \<Rightarrow> file_lock list" where
  "upd_lock a f ls = map (\<lambda>l. if fl_id l = a then f l else l) ls"

text \<open>Writing the start and end of \<open>*request\<close>, also where it is an element of the list.\<close>

definition set_req_range :: "int \<Rightarrow> int \<Rightarrow> scan \<Rightarrow> scan" where
  "set_req_range st e s =
     s\<lparr>ps_req := (ps_req s)\<lparr>fl_start := st, fl_end := e\<rparr>,
       ps_pre := (case ps_alias s of None \<Rightarrow> ps_pre s
         | Some a \<Rightarrow> upd_lock a (\<lambda>l. l\<lparr>fl_start := st, fl_end := e\<rparr>) (ps_pre s))\<rparr>"

fun scan_owner :: "file_lock list \<Rightarrow> scan \<Rightarrow> scan" where
  "scan_owner [] s = s\<lparr>ps_rest := []\<rparr>"
| "scan_owner (fl # rest) s =
     (let rq = ps_req s in
      if \<not> posix_same_owner rq fl then s\<lparr>ps_rest := fl # rest\<rparr>
      else if fl_type rq = fl_type fl then
        if fl_end fl < fl_start rq - 1 then scan_owner rest (s\<lparr>ps_pre := ps_pre s @ [fl]\<rparr>)
        else if fl_start fl - 1 > fl_end rq then s\<lparr>ps_rest := fl # rest\<rparr>
        else
          let st = (if fl_start fl > fl_start rq then fl_start rq else fl_start fl);
              e = (if fl_end fl < fl_end rq then fl_end rq else fl_end fl);
              fl' = fl\<lparr>fl_start := st, fl_end := e\<rparr>;
              s' = set_req_range st e s
          in if ps_added s
             then scan_owner rest (s'\<lparr>ps_waiters := locks_wake_up_blocks fl (ps_waiters s')\<rparr>)
             else scan_owner rest (s'\<lparr>ps_req := fl', ps_alias := Some (fl_id fl), ps_added := True,
                    ps_pre := ps_pre s' @ [fl']\<rparr>)
      else if fl_end fl < fl_start rq then scan_owner rest (s\<lparr>ps_pre := ps_pre s @ [fl]\<rparr>)
      else if fl_start fl > fl_end rq then s\<lparr>ps_rest := fl # rest\<rparr>
      else
        let s1 = s\<lparr>ps_added := ps_added s \<or> fl_type rq = F_UNLCK,
                   ps_left := (if fl_start fl < fl_start rq then Some (fl_id fl) else ps_left s)\<rparr>
        in if fl_end fl > fl_end rq then s1\<lparr>ps_right := Some (fl_id fl), ps_rest := fl # rest\<rparr>
           else if fl_start fl \<ge> fl_start rq then
             if ps_added s1
             then scan_owner rest (s1\<lparr>ps_waiters := locks_wake_up_blocks fl (ps_waiters s1)\<rparr>)
             else
               let fl' = fl\<lparr>fl_start := fl_start rq, fl_end := fl_end rq, fl_type := fl_type rq\<rparr>
               in scan_owner rest (s1\<lparr>ps_waiters := locks_wake_up_blocks fl (ps_waiters s1),
                    ps_req := fl', ps_alias := Some (fl_id fl), ps_added := True,
                    ps_pre := ps_pre s1 @ [fl']\<rparr>)
           else scan_owner rest (s1\<lparr>ps_pre := ps_pre s1 @ [fl]\<rparr>))"

text \<open>
  What follows the loop. \<open>new_fl\<close> and \<open>new_fl2\<close> are the structures allocated in advance, \<open>None\<close> where
  the allocation failed or was not made. Both insertions are at \<open>before\<close>, so the second
  structure comes first in the list. Where \<open>right\<close> is set it is the lock at the cursor.
  \<open>shrink\<close> changes a lock and wakes up those who wait for it.
\<close>

definition shrink ::
  "nat option \<Rightarrow> (file_lock \<Rightarrow> file_lock) \<Rightarrow> file_lock list \<times> waiter list \<Rightarrow> file_lock list \<times> waiter list" where
  "shrink p f st =
     (case p of
        None \<Rightarrow> st
      | Some a \<Rightarrow> (upd_lock a f (fst st), filter (\<lambda>w. wt_blocker w \<noteq> a) (snd st)))"

definition posix_finish ::
  "bool \<Rightarrow> nat option \<Rightarrow> nat option \<Rightarrow> scan \<Rightarrow> lock_ret \<times> file_lock list \<times> waiter list" where
  "posix_finish exists new_fl new_fl2 s =
     (let ls = ps_pre s @ ps_rest s; ws = ps_waiters s; rq = ps_req s;
          split = (ps_right s \<noteq> None \<and> ps_left s = ps_right s) in
      if split \<and> new_fl2 = None then (Failed ENOLCK, ls, ws)
      else if \<not> ps_added s \<and> fl_type rq = F_UNLCK
      then (if exists then Failed ENOENT else Locked, ls, ws)
      else if \<not> ps_added s \<and> new_fl = None then (Failed ENOLCK, ls, ws)
      else
        let rest1 = (if ps_added s then ps_rest s
                     else locks_copy_lock (locks_init_lock (the new_fl)) rq # ps_rest s);
            rest2 = (if split then locks_copy_lock (locks_init_lock (the new_fl2)) (hd (ps_rest s)) # rest1
                     else rest1);
            left = (if split then new_fl2 else ps_left s)
        in (Locked, shrink left (\<lambda>l. l\<lparr>fl_end := fl_start rq - 1\<rparr>)
              (shrink (ps_right s) (\<lambda>l. l\<lparr>fl_start := fl_end rq + 1\<rparr>) (ps_pre s @ rest2, ws))))"

definition posix_skip :: "file_lock \<Rightarrow> file_lock list \<Rightarrow> file_lock list \<times> file_lock list" where
  "posix_skip rq ls =
     (takeWhile (\<lambda>fl. fl_kind fl \<noteq> FL_POSIX \<or> \<not> posix_same_owner rq fl) ls,
      dropWhile (\<lambda>fl. fl_kind fl \<noteq> FL_POSIX \<or> \<not> posix_same_owner rq fl) ls)"

text \<open>
  \<open>__posix_lock_file\<close>: \<open>mem1\<close> and \<open>mem2\<close> are what the two calls of \<open>locks_alloc_lock\<close> return. The
  result has the return value, the lock copied to \<open>conflock\<close> if there was a conflict, and the state.
\<close>

definition raw_posix_lock_file ::
  "nat option \<Rightarrow> nat option \<Rightarrow> lock_request \<Rightarrow> lock_state
     \<Rightarrow> (lock_ret \<times> file_lock option \<times> lock_state) option" where
  "raw_posix_lock_file mem1 mem2 request s =
     (let rq = rq_lock request;
          alloc = (\<not> rq_access request \<and>
                   (fl_type rq \<noteq> F_UNLCK \<or> fl_start rq \<noteq> 0 \<or> fl_end rq \<noteq> OFFSET_MAX));
          new_fl = (if alloc then mem1 else None);
          new_fl2 = (if alloc then mem2 else None);
          conflict = (if fl_type rq \<noteq> F_UNLCK
                      then find (\<lambda>fl. fl_kind fl = FL_POSIX \<and> posix_locks_conflict rq fl) (i_flock s)
                      else None)
      in case conflict of
           Some fl \<Rightarrow>
             if \<not> rq_sleep request then Some (Failed EAGAIN, Some fl, s)
             else if posix_locks_deadlock (waiters s) rq fl then Some (Failed EDEADLK, Some fl, s)
             else (case locks_insert_block fl rq (waiters s) of
                     None \<Rightarrow> None
                   | Some ws \<Rightarrow> Some (Deferred, Some fl, s\<lparr>waiters := ws\<rparr>))
         | None \<Rightarrow>
             if rq_access request then Some (Locked, None, s)
             else
               let (pre, rest) = posix_skip rq (i_flock s);
                   sc = scan_owner rest \<lparr>ps_pre = pre, ps_rest = rest, ps_req = rq, ps_alias = None,
                     ps_added = False, ps_left = None, ps_right = None, ps_waiters = waiters s\<rparr>;
                   (ret, ls, ws) = posix_finish (rq_exists request) new_fl new_fl2 sc
               in Some (ret, None, s\<lparr>i_flock := ls, waiters := ws\<rparr>))"

end
