(* ===== verification/Posix_Locks.thy ===== *)
theory Posix_Locks
  imports File_Locks
begin

text \<open>
  Correctness of the POSIX locks of \<^theory_text>\<open>File_Locks\<close>. The loop of \<open>__posix_lock_file\<close> is followed over the locks
  of one owner, which stand together in the inode's list: it overrides the table of locked bytes exactly on
  the range of the request, keeps the locks ordered, disjoint and merged, and wakes up every waiter whose lock was
  removed, shrunk or changed.
\<close>

section \<open>The locks of one owner\<close>

definition covers :: "file_lock list \<Rightarrow> int \<Rightarrow> u8 \<Rightarrow> bool" where
  "covers ls b t \<longleftrightarrow> (\<exists>l\<in>set ls. fl_start l \<le> b \<and> b \<le> fl_end l \<and> fl_type l = t)"

definition apart :: "file_lock \<Rightarrow> file_lock \<Rightarrow> bool" where
  "apart a b \<longleftrightarrow> fl_end a < fl_start b \<and> (fl_type a = fl_type b \<longrightarrow> fl_end a + 1 < fl_start b)"

definition lock_ok :: "nat \<Rightarrow> file_lock \<Rightarrow> bool" where
  "lock_ok o1 l \<longleftrightarrow> fl_kind l = FL_POSIX \<and> fl_owner l = o1 \<and> 0 \<le> fl_start l \<and> fl_start l \<le> fl_end l \<and>
     fl_end l \<le> OFFSET_MAX \<and> (fl_type l = F_RDLCK \<or> fl_type l = F_WRLCK)"

definition canon :: "nat \<Rightarrow> file_lock list \<Rightarrow> bool" where
  "canon o1 ls \<longleftrightarrow> sorted_wrt apart ls \<and> (\<forall>l\<in>set ls. lock_ok o1 l)"

lemma covers_Nil [simp]: "\<not> covers [] b t"
  by (simp add: covers_def)

lemma covers_Cons [simp]:
  "covers (l # ls) b t \<longleftrightarrow> (fl_start l \<le> b \<and> b \<le> fl_end l \<and> fl_type l = t) \<or> covers ls b t"
  by (auto simp: covers_def)

lemma covers_append [simp]: "covers (xs @ ys) b t \<longleftrightarrow> covers xs b t \<or> covers ys b t"
  by (auto simp: covers_def)

lemma covers_above:
  "\<forall>l\<in>set ls. e < fl_start l \<Longrightarrow> covers ls b t \<Longrightarrow> e < b"
  by (auto simp: covers_def)

lemma canon_Nil [simp]: "canon o1 []"
  by (simp add: canon_def)

lemma canon_Cons: "canon o1 (l # ls) \<longleftrightarrow> lock_ok o1 l \<and> (\<forall>x\<in>set ls. apart l x) \<and> canon o1 ls"
  by (auto simp: canon_def)

lemma upd_lock_Nil [simp]: "upd_lock a f [] = []"
  by (simp add: upd_lock_def)

lemma upd_lock_Cons [simp]: "upd_lock a f (x # xs) = (if fl_id x = a then f x else x) # upd_lock a f xs"
  by (simp add: upd_lock_def)

lemma upd_lock_append [simp]: "upd_lock a f (xs @ ys) = upd_lock a f xs @ upd_lock a f ys"
  by (simp add: upd_lock_def)

lemma upd_lock_other [simp]: "a \<notin> fl_id ` set xs \<Longrightarrow> upd_lock a f xs = xs"
  by (auto simp: upd_lock_def intro!: map_idI)

text \<open>
  The loop once \<open>request\<close> is an element \<open>q\<close> of the list: what it does with the rest \<open>R\<close> of the owner's
  locks, \<open>q\<close> growing up to \<open>e\<close> and the locks \<open>D\<close> being deleted.
\<close>

definition alias_post ::
  "file_lock \<Rightarrow> file_lock list \<Rightarrow> int \<Rightarrow> file_lock list \<Rightarrow> nat option \<Rightarrow> nat set \<Rightarrow> bool" where
  "alias_post q R e R' right D \<longleftrightarrow>
     fl_end q \<le> e \<and> (\<exists>R0. R = R0 @ R' \<and> D \<subseteq> fl_id ` set R0 \<and> (\<forall>l\<in>set R0. fl_id l \<in> D)) \<and>
     (right = None \<longrightarrow> (\<forall>r\<in>set R'. apart (q\<lparr>fl_end := e\<rparr>) r)) \<and>
     (right \<noteq> None \<longrightarrow> (\<exists>r R1. R' = r # R1 \<and> right = Some (fl_id r) \<and> fl_type r \<noteq> fl_type q \<and>
        fl_start r \<le> e \<and> e < fl_end r)) \<and>
     (\<forall>m. fl_end q \<le> m \<longrightarrow> (\<forall>r\<in>set R. fl_end r \<le> m) \<longrightarrow> e \<le> m) \<and>
     (\<forall>b t. fl_end q < b \<longrightarrow> covers R b t \<longleftrightarrow> (b \<le> e \<and> t = fl_type q) \<or> (e < b \<and> covers R' b t))"

lemma scan_alias:
  assumes "canon o1 R" "fl_owner q = o1" "\<forall>r\<in>set R. fl_start q < fl_start r"
    and "fl_id q \<notin> fl_id ` set X" "B = [] \<or> fl_owner (hd B) \<noteq> o1"
  shows "\<exists>e R' right D. scan_owner (R @ B) \<lparr>ps_pre = X @ [q], ps_rest = rs, ps_req = q,
      ps_alias = Some (fl_id q), ps_added = True, ps_left = lf, ps_right = None, ps_waiters = ws\<rparr>
    = \<lparr>ps_pre = X @ [q\<lparr>fl_end := e\<rparr>], ps_rest = R' @ B, ps_req = q\<lparr>fl_end := e\<rparr>,
      ps_alias = Some (fl_id q), ps_added = True, ps_left = lf, ps_right = right,
      ps_waiters = filter (\<lambda>w. wt_blocker w \<notin> D) ws\<rparr> \<and> alias_post q R e R' right D"
    (is "\<exists>e R' right D. scan_owner _ (?s q ws) = ?t q ws e R' right D \<and> _")
  using assms
proof (induction R arbitrary: q ws)
  case Nil
  have "scan_owner B (?s q ws) = ?t q ws (fl_end q) [] None {}"
    using Nil by (cases B) (auto simp: posix_same_owner_def)
  moreover have "alias_post q [] (fl_end q) [] None {}"
    by (simp add: alias_post_def)
  ultimately show ?case
    by (intro exI [of _ "fl_end q"] exI [of _ "[]"] exI [of _ None] exI [of _ "{}"]) simp
next
  case (Cons r R)
  have ok: "lock_ok o1 r" and ap: "\<forall>x\<in>set R. apart r x" and cR: "canon o1 R"
    using Cons.prems(1) by (auto simp: canon_Cons)
  have st: "fl_start q < fl_start r" and own: "fl_owner r = o1" and le: "fl_start r \<le> fl_end r"
    using Cons.prems ok by (auto simp: lock_ok_def)
  consider (same_break) "fl_type q = fl_type r" "fl_start r - 1 > fl_end q"
    | (merge) "fl_type q = fl_type r" "\<not> fl_start r - 1 > fl_end q"
    | (diff_break) "fl_type q \<noteq> fl_type r" "fl_start r > fl_end q"
    | (right) "fl_type q \<noteq> fl_type r" "\<not> fl_start r > fl_end q" "fl_end r > fl_end q"
    | (del) "fl_type q \<noteq> fl_type r" "\<not> fl_start r > fl_end q" "\<not> fl_end r > fl_end q"
    by blast
  then show ?case
  proof cases
    case same_break
    have "scan_owner ((r # R) @ B) (?s q ws) = ?t q ws (fl_end q) (r # R) None {}"
      using same_break st le own Cons.prems(2) by (simp add: posix_same_owner_def Let_def)
    moreover have "alias_post q (r # R) (fl_end q) (r # R) None {}"
      using same_break ap le by (auto simp: alias_post_def apart_def)
    ultimately show ?thesis by blast
  next
    case diff_break
    have "scan_owner ((r # R) @ B) (?s q ws) = ?t q ws (fl_end q) (r # R) None {}"
      using diff_break st le own Cons.prems(2) by (simp add: posix_same_owner_def Let_def)
    moreover have "alias_post q (r # R) (fl_end q) (r # R) None {}"
      using diff_break ap le by (auto simp: alias_post_def apart_def)
    ultimately show ?thesis by blast
  next
    case right
    have "scan_owner ((r # R) @ B) (?s q ws) = ?t q ws (fl_end q) (r # R) (Some (fl_id r)) {}"
      using right st le own Cons.prems(2) by (simp add: posix_same_owner_def Let_def)
    moreover have "alias_post q (r # R) (fl_end q) (r # R) (Some (fl_id r)) {}"
      using right by (auto simp: alias_post_def)
    ultimately show ?thesis by blast
  next
    case del
    let ?ws = "locks_wake_up_blocks r ws"
    have step: "scan_owner ((r # R) @ B) (?s q ws) = scan_owner (R @ B) (?s q ?ws)"
      using del st le own Cons.prems(2) by (simp add: posix_same_owner_def Let_def)
    obtain e R' right D where
      IH: "scan_owner (R @ B) (?s q ?ws) = ?t q ?ws e R' right D" "alias_post q R e R' right D"
      using Cons.IH [OF cR Cons.prems(2) _ Cons.prems(4,5), of ?ws] Cons.prems(3) by auto
    have "?t q ?ws e R' right D = ?t q ws e R' right (insert (fl_id r) D)"
      by (simp add: locks_wake_up_blocks_def conj_commute)
    moreover have "alias_post q (r # R) e R' right (insert (fl_id r) D)"
    proof -
      obtain R0 where "R = R0 @ R'" "D \<subseteq> fl_id ` set R0" "\<forall>l\<in>set R0. fl_id l \<in> D"
        using IH(2) by (auto simp: alias_post_def)
      then have "\<exists>R0. r # R = R0 @ R' \<and> insert (fl_id r) D \<subseteq> fl_id ` set R0 \<and>
          (\<forall>l\<in>set R0. fl_id l \<in> insert (fl_id r) D)"
        by (intro exI [of _ "r # R0"]) auto
      then show ?thesis using IH(2) del by (auto simp: alias_post_def)
    qed
    ultimately show ?thesis using step IH(1) by metis
  next
    case merge
    let ?ws = "locks_wake_up_blocks r ws"
    let ?q = "q\<lparr>fl_end := max (fl_end q) (fl_end r)\<rparr>"
    have step: "scan_owner ((r # R) @ B) (?s q ws) = scan_owner (R @ B) (?s ?q ?ws)"
      using merge st le own Cons.prems(2,4) by (simp add: posix_same_owner_def Let_def set_req_range_def max_def)
    obtain e R' right D where
      IH: "scan_owner (R @ B) (?s ?q ?ws) = ?t ?q ?ws e R' right D" "alias_post ?q R e R' right D"
      using Cons.IH [OF cR, of ?q ?ws] Cons.prems by auto
    have "?t ?q ?ws e R' right D = ?t q ws e R' right (insert (fl_id r) D)"
      by (simp add: locks_wake_up_blocks_def conj_commute)
    moreover have "alias_post q (r # R) e R' right (insert (fl_id r) D)"
    proof -
      obtain R0 where "R = R0 @ R'" "D \<subseteq> fl_id ` set R0" "\<forall>l\<in>set R0. fl_id l \<in> D"
        using IH(2) by (auto simp: alias_post_def)
      then have R0: "\<exists>R0. r # R = R0 @ R' \<and> insert (fl_id r) D \<subseteq> fl_id ` set R0 \<and>
          (\<forall>l\<in>set R0. fl_id l \<in> insert (fl_id r) D)"
        by (intro exI [of _ "r # R0"]) auto
      have cov: "covers (r # R) b t \<longleftrightarrow> (b \<le> e \<and> t = fl_type q) \<or> (e < b \<and> covers R' b t)"
        if b: "fl_end q < b" for b t
      proof (cases "b \<le> fl_end r")
        case True
        have "\<not> covers R b t" using True ap covers_above [of R "fl_end r" b t] by (auto simp: apart_def)
        then show ?thesis using True b merge IH(2) by (auto simp: alias_post_def)
      next
        case False
        then show ?thesis using b IH(2) by (auto simp: alias_post_def)
      qed
      show ?thesis using IH(2) R0 cov by (auto simp: alias_post_def)
    qed
    ultimately show ?thesis using step IH(1) by metis
  qed
qed


text \<open>The loop for an unlock, past the lock the range may begin inside of.\<close>

definition unlock_post ::
  "file_lock \<Rightarrow> file_lock list \<Rightarrow> file_lock list \<Rightarrow> nat option \<Rightarrow> nat set \<Rightarrow> bool" where
  "unlock_post q R R' right D \<longleftrightarrow>
     (\<exists>R0. R = R0 @ R' \<and> D \<subseteq> fl_id ` set R0 \<and> (\<forall>l\<in>set R0. fl_id l \<in> D \<and> fl_end l \<le> fl_end q)) \<and>
     (right = None \<longrightarrow> (\<forall>r\<in>set R'. fl_end q < fl_start r)) \<and>
     (right \<noteq> None \<longrightarrow> (\<exists>r R1. R' = r # R1 \<and> right = Some (fl_id r) \<and>
        fl_start r \<le> fl_end q \<and> fl_end q < fl_end r))"

lemma scan_unlock:
  assumes "canon o1 R" "fl_owner q = o1" "\<forall>r\<in>set R. fl_start q \<le> fl_start r"
    and "fl_type q = F_UNLCK" "B = [] \<or> fl_owner (hd B) \<noteq> o1"
  shows "\<exists>ad R' right D. scan_owner (R @ B) \<lparr>ps_pre = X, ps_rest = rs, ps_req = q,
      ps_alias = None, ps_added = ad0, ps_left = lf, ps_right = None, ps_waiters = ws\<rparr>
    = \<lparr>ps_pre = X, ps_rest = R' @ B, ps_req = q, ps_alias = None, ps_added = ad, ps_left = lf,
      ps_right = right, ps_waiters = filter (\<lambda>w. wt_blocker w \<notin> D) ws\<rparr> \<and> unlock_post q R R' right D \<and>
      (ad0 \<longrightarrow> ad) \<and> (\<not> ad \<longrightarrow> D = {} \<and> R' = R \<and> right = None)"
    (is "\<exists>ad R' right D. scan_owner _ (?s ad0 ws) = ?t ws ad R' right D \<and> _")
  using assms
proof (induction R arbitrary: ws ad0)
  case Nil
  have "scan_owner B (?s ad0 ws) = ?t ws ad0 [] None {}"
    using Nil by (cases B) (auto simp: posix_same_owner_def)
  moreover have "unlock_post q [] [] None {}"
    by (simp add: unlock_post_def)
  ultimately show ?case
    by (intro exI [of _ ad0] exI [of _ "[]"] exI [of _ None] exI [of _ "{}"]) simp
next
  case (Cons r R)
  have ok: "lock_ok o1 r" and ap: "\<forall>x\<in>set R. apart r x" and cR: "canon o1 R"
    using Cons.prems(1) by (auto simp: canon_Cons)
  have st: "fl_start q \<le> fl_start r" and own: "fl_owner r = o1" and le: "fl_start r \<le> fl_end r"
    and ty: "fl_type r \<noteq> 2"
    using Cons.prems ok by (auto simp: lock_ok_def)
  have le2: "fl_end q < fl_start r \<longrightarrow> (\<forall>x\<in>set R. fl_end q < fl_start x)"
    using ap le by (auto simp: apart_def)
  consider (brk) "fl_start r > fl_end q"
    | (right) "\<not> fl_start r > fl_end q" "fl_end r > fl_end q"
    | (del) "\<not> fl_start r > fl_end q" "\<not> fl_end r > fl_end q"
    by blast
  then show ?case
  proof cases
    case brk
    have "scan_owner ((r # R) @ B) (?s ad0 ws) = ?t ws ad0 (r # R) None {}"
      using brk st le own ty Cons.prems(2,4) by (simp add: posix_same_owner_def Let_def)
    moreover have "unlock_post q (r # R) (r # R) None {}"
      using brk le2 by (auto simp: unlock_post_def)
    ultimately show ?thesis
      by (intro exI [of _ ad0] exI [of _ "r # R"] exI [of _ None] exI [of _ "{}"]) simp
  next
    case right
    have "scan_owner ((r # R) @ B) (?s ad0 ws) = ?t ws True (r # R) (Some (fl_id r)) {}"
      using right st le own ty Cons.prems(2,4) by (simp add: posix_same_owner_def Let_def)
    moreover have "unlock_post q (r # R) (r # R) (Some (fl_id r)) {}"
      using right by (auto simp: unlock_post_def)
    ultimately show ?thesis
      by (intro exI [of _ True] exI [of _ "r # R"] exI [of _ "Some (fl_id r)"] exI [of _ "{}"]) simp
  next
    case del
    let ?ws = "locks_wake_up_blocks r ws"
    have step: "scan_owner ((r # R) @ B) (?s ad0 ws) = scan_owner (R @ B) (?s True ?ws)"
      using del st le own ty Cons.prems(2,4) by (simp add: posix_same_owner_def Let_def)
    obtain ad R' right D where
      IH: "scan_owner (R @ B) (?s True ?ws) = ?t ?ws ad R' right D" "unlock_post q R R' right D" "ad"
      using Cons.IH [OF cR Cons.prems(2) _ Cons.prems(4,5), of True ?ws] Cons.prems(3)
      by (metis list.set_intros(2))
    have "?t ?ws ad R' right D = ?t ws ad R' right (insert (fl_id r) D)"
      by (simp add: locks_wake_up_blocks_def conj_commute)
    moreover have "unlock_post q (r # R) R' right (insert (fl_id r) D)"
    proof -
      obtain R0 where "R = R0 @ R'" "D \<subseteq> fl_id ` set R0" "\<forall>l\<in>set R0. fl_id l \<in> D \<and> fl_end l \<le> fl_end q"
        using IH(2) by (auto simp: unlock_post_def)
      then have "\<exists>R0. r # R = R0 @ R' \<and> insert (fl_id r) D \<subseteq> fl_id ` set R0 \<and>
          (\<forall>l\<in>set R0. fl_id l \<in> insert (fl_id r) D \<and> fl_end l \<le> fl_end q)"
        using del by (intro exI [of _ "r # R0"]) auto
      then show ?thesis using IH(2) del by (auto simp: unlock_post_def)
    qed
    ultimately show ?thesis using step IH(1,3) by metis
  qed
qed


text \<open>The lock at the cursor, shortened to start after \<open>e\<close> where it is \<open>right\<close>.\<close>

definition clip_right :: "nat option \<Rightarrow> int \<Rightarrow> file_lock list \<Rightarrow> file_lock list" where
  "clip_right right e R =
     (case right of None \<Rightarrow> R | Some _ \<Rightarrow> (case R of [] \<Rightarrow> [] | r # R1 \<Rightarrow> r\<lparr>fl_start := e + 1\<rparr> # R1))"

lemma clip_right_simps [simp]:
  "clip_right None e R = R"
  "clip_right (Some i) e (r # R) = r\<lparr>fl_start := e + 1\<rparr> # R"
  by (simp_all add: clip_right_def)

lemma clip_right_ids [simp]: "map fl_id (clip_right right e R) = map fl_id R"
  by (simp add: clip_right_def split: option.splits list.splits)

lemma canon_append: "canon o1 (xs @ ys) \<longleftrightarrow> canon o1 xs \<and> canon o1 ys \<and> (\<forall>x\<in>set xs. \<forall>y\<in>set ys. apart x y)"
  by (auto simp: canon_def sorted_wrt_append)

lemma canon_clip:
  assumes c: "canon o1 (r # R)" and r: "fl_start r \<le> e" "e < fl_end r" and e: "0 \<le> e"
  shows "canon o1 (r\<lparr>fl_start := e + 1\<rparr> # R)"
  using assms by (auto simp: canon_Cons lock_ok_def apart_def)

lemma alias_canon:
  assumes ap: "alias_post q R e R' right D" and c: "canon o1 R" and ok: "lock_ok o1 q"
    and st: "\<forall>r\<in>set R. fl_start q \<le> fl_start r"
  shows "canon o1 (q\<lparr>fl_end := e\<rparr> # clip_right right e R')"
    and "covers (q\<lparr>fl_end := e\<rparr> # clip_right right e R') b t \<longleftrightarrow>
      (if fl_start q \<le> b \<and> b \<le> fl_end q then t = fl_type q else covers R b t)"
proof -
  obtain R0 where R0: "R = R0 @ R'" using ap by (auto simp: alias_post_def)
  have cR': "canon o1 R'" using c R0 by (simp add: canon_append)
  have le: "fl_end q \<le> e" "e \<le> OFFSET_MAX" "0 \<le> e" "fl_start q \<le> fl_end q"
    using ap c ok by (auto simp: alias_post_def canon_def lock_ok_def)
  have okq: "lock_ok o1 (q\<lparr>fl_end := e\<rparr>)" using ok le by (auto simp: lock_ok_def)
  have cov: "fl_end q < b \<Longrightarrow> covers R b t \<longleftrightarrow> (b \<le> e \<and> t = fl_type q) \<or> (e < b \<and> covers R' b t)"
    using ap by (simp add: alias_post_def)
  have low: "covers R b t \<Longrightarrow> fl_start q \<le> b" using st by (fastforce simp: covers_def)
  show "canon o1 (q\<lparr>fl_end := e\<rparr> # clip_right right e R')"
    and "covers (q\<lparr>fl_end := e\<rparr> # clip_right right e R') b t \<longleftrightarrow>
      (if fl_start q \<le> b \<and> b \<le> fl_end q then t = fl_type q else covers R b t)"
  proof (atomize(full), cases right)
    case None
    then have aq: "\<forall>r\<in>set R'. apart (q\<lparr>fl_end := e\<rparr>) r" using ap by (simp add: alias_post_def)
    have "covers R' b t \<Longrightarrow> e < b" using aq covers_above [of R' e] by (auto simp: apart_def)
    then show "canon o1 (q\<lparr>fl_end := e\<rparr> # clip_right right e R') \<and>
      covers (q\<lparr>fl_end := e\<rparr> # clip_right right e R') b t =
      (if fl_start q \<le> b \<and> b \<le> fl_end q then t = fl_type q else covers R b t)"
      using None cR' okq aq cov low le by (auto simp: canon_Cons)
  next
    case (Some i)
    then obtain r R1 where r: "R' = r # R1" "fl_type r \<noteq> fl_type q" "fl_start r \<le> e" "e < fl_end r"
      using ap by (auto simp: alias_post_def)
    have cc: "canon o1 (r\<lparr>fl_start := e + 1\<rparr> # R1)" using canon_clip cR' r le by simp
    have ap1: "\<forall>x\<in>set R1. fl_end r < fl_start x" using cR' r(1) by (auto simp: canon_Cons apart_def)
    have aq: "\<forall>x\<in>set R1. apart (q\<lparr>fl_end := e\<rparr>) x" using ap1 r by (auto simp: apart_def)
    have h: "covers R1 b t \<Longrightarrow> e < b" using ap1 r covers_above [of R1 "fl_end r" b t] by auto
    have "covers (q\<lparr>fl_end := e\<rparr> # clip_right right e R') b t =
      (if fl_start q \<le> b \<and> b \<le> fl_end q then t = fl_type q else covers R b t)"
    proof (cases "fl_end q < b")
      case True
      show ?thesis using Some r le h True by (auto simp: cov [OF True])
    next
      case False
      then have "\<not> covers R1 b t" "\<not> covers R b t \<or> fl_start q \<le> b" using h low le by auto
      then show ?thesis using Some r le False by auto
    qed
    moreover have "canon o1 (q\<lparr>fl_end := e\<rparr> # clip_right right e R')"
      using Some cc r okq aq by (simp add: canon_Cons apart_def)
    ultimately show "canon o1 (q\<lparr>fl_end := e\<rparr> # clip_right right e R') \<and>
      covers (q\<lparr>fl_end := e\<rparr> # clip_right right e R') b t =
      (if fl_start q \<le> b \<and> b \<le> fl_end q then t = fl_type q else covers R b t)" by blast
  qed
qed

lemma unlock_canon:
  assumes up: "unlock_post q R R' right D" and c: "canon o1 R" and q: "0 \<le> fl_start q" "fl_start q \<le> fl_end q"
    and st: "\<forall>r\<in>set R. fl_start q \<le> fl_start r"
  shows "canon o1 (clip_right right (fl_end q) R')"
    and "covers (clip_right right (fl_end q) R') b t \<longleftrightarrow>
      \<not> (fl_start q \<le> b \<and> b \<le> fl_end q) \<and> covers R b t"
proof -
  obtain R0 where R0: "R = R0 @ R'" "\<forall>l\<in>set R0. fl_end l \<le> fl_end q"
    using up by (auto simp: unlock_post_def)
  have cR': "canon o1 R'" using c R0 by (simp add: canon_append)
  have low: "covers R b t \<Longrightarrow> fl_start q \<le> b" using st by (fastforce simp: covers_def)
  have cov: "fl_end q < b \<Longrightarrow> covers R b t \<longleftrightarrow> covers R' b t"
    using R0 by (fastforce simp: covers_def)
  show "canon o1 (clip_right right (fl_end q) R')"
    and "covers (clip_right right (fl_end q) R') b t \<longleftrightarrow>
      \<not> (fl_start q \<le> b \<and> b \<le> fl_end q) \<and> covers R b t"
  proof (atomize(full), cases right)
    case None
    then have "covers R' b t \<Longrightarrow> fl_end q < b"
      using up covers_above [of R' "fl_end q"] by (auto simp: unlock_post_def)
    then show "canon o1 (clip_right right (fl_end q) R') \<and>
      covers (clip_right right (fl_end q) R') b t = (\<not> (fl_start q \<le> b \<and> b \<le> fl_end q) \<and> covers R b t)"
      using None cR' cov low by auto
  next
    case (Some i)
    then obtain r R1 where r: "R' = r # R1" "fl_start r \<le> fl_end q" "fl_end q < fl_end r"
      using up by (auto simp: unlock_post_def)
    have cc: "canon o1 (r\<lparr>fl_start := fl_end q + 1\<rparr> # R1)" using canon_clip cR' r q by simp
    have ap1: "\<forall>x\<in>set R1. fl_end r < fl_start x" using cR' r(1) by (auto simp: canon_Cons apart_def)
    have "covers R1 b t \<Longrightarrow> fl_end q < b" using ap1 r covers_above [of R1 "fl_end r" b t] by auto
    then show "canon o1 (clip_right right (fl_end q) R') \<and>
      covers (clip_right right (fl_end q) R') b t = (\<not> (fl_start q \<le> b \<and> b \<le> fl_end q) \<and> covers R b t)"
      using Some cc r q low cov by auto
  qed
qed

lemma locks_copy_lock_sel [simp]:
  "fl_id (locks_copy_lock new fl) = fl_id new" "fl_kind (locks_copy_lock new fl) = fl_kind fl"
  "fl_owner (locks_copy_lock new fl) = fl_owner fl" "fl_pid (locks_copy_lock new fl) = fl_pid fl"
  "fl_file (locks_copy_lock new fl) = fl_file fl" "fl_type (locks_copy_lock new fl) = fl_type fl"
  "fl_start (locks_copy_lock new fl) = fl_start fl" "fl_end (locks_copy_lock new fl) = fl_end fl"
  by (simp_all add: locks_copy_lock_def raw_locks_copy_lock_def)

lemma locks_init_lock_id [simp]: "fl_id (locks_init_lock a) = a"
  by (simp add: locks_init_lock_def)

definition clip_left :: "int \<Rightarrow> file_lock \<Rightarrow> file_lock" where
  "clip_left st l = l\<lparr>fl_end := st - 1\<rparr>"

definition opt_id :: "file_lock list \<Rightarrow> nat option" where
  "opt_id ls = (case ls of [] \<Rightarrow> None | l # _ \<Rightarrow> Some (fl_id l))"

text \<open>\<open>posix_finish\<close> where \<open>left\<close> and \<open>right\<close> are different locks.\<close>

lemma posix_finish_apart:
  assumes d: "distinct (map fl_id (X @ Lo @ M @ R @ B))"
    and lo: "length Lo \<le> 1" "ps_left s = opt_id Lo" and ri: "ps_right s = None \<or> R \<noteq> [] \<and> ps_right s = opt_id R"
    and s: "ps_pre s = X @ Lo @ M" "ps_rest s = R @ B"
    and ad: "ps_added s \<or> fl_type (ps_req s) \<noteq> F_UNLCK \<and> n1 \<noteq> None \<and> the n1 \<notin> fl_id ` set (X @ Lo @ M @ R @ B)"
  shows "posix_finish ex n1 n2 s =
    (Locked, X @ map (clip_left (fl_start (ps_req s))) Lo @ M @
        (if ps_added s then [] else [locks_copy_lock (locks_init_lock (the n1)) (ps_req s)]) @
        clip_right (ps_right s) (fl_end (ps_req s)) R @ B,
      filter (\<lambda>w. wt_blocker w \<notin> fl_id ` set Lo \<union> set_option (ps_right s)) (ps_waiters s))"
proof -
  let ?m = "if ps_added s then [] else [locks_copy_lock (locks_init_lock (the n1)) (ps_req s)]"
  have dm: "fl_id ` set ?m \<inter> fl_id ` set (X @ Lo @ M @ R @ B) = {}" using ad by auto
  have neq: "\<not> (ps_right s \<noteq> None \<and> ps_left s = ps_right s)"
    using lo ri d by (cases Lo; cases R) (auto simp: opt_id_def)
  have fin: "posix_finish ex n1 n2 s = (Locked, shrink (ps_left s) (\<lambda>l. l\<lparr>fl_end := fl_start (ps_req s) - 1\<rparr>)
      (shrink (ps_right s) (\<lambda>l. l\<lparr>fl_start := fl_end (ps_req s) + 1\<rparr>)
        (X @ Lo @ M @ ?m @ R @ B, ps_waiters s)))"
    using neq ad s unfolding posix_finish_def Let_def by auto
  have r: "shrink (ps_right s) (\<lambda>l. l\<lparr>fl_start := fl_end (ps_req s) + 1\<rparr>) (X @ Lo @ M @ ?m @ R @ B, ws)
    = (X @ Lo @ M @ ?m @ clip_right (ps_right s) (fl_end (ps_req s)) R @ B,
       filter (\<lambda>w. wt_blocker w \<notin> set_option (ps_right s)) ws)" for ws
  proof (cases "ps_right s")
    case None
    then show ?thesis by (simp add: shrink_def)
  next
    case (Some a)
    then obtain r R1 where R: "R = r # R1" "a = fl_id r" using ri by (cases R) (auto simp: opt_id_def)
    have "a \<notin> fl_id ` set ?m" using dm R by auto
    then show ?thesis using Some R d unfolding shrink_def by simp
  qed
  let ?R = "clip_right (ps_right s) (fl_end (ps_req s)) R"
  have ids: "fl_id ` set ?R = fl_id ` set R" using clip_right_ids by (metis list.set_map)
  have l: "shrink (ps_left s) (\<lambda>l. l\<lparr>fl_end := fl_start (ps_req s) - 1\<rparr>) (X @ Lo @ M @ ?m @ ?R @ B, ws)
    = (X @ map (clip_left (fl_start (ps_req s))) Lo @ M @ ?m @ ?R @ B,
       filter (\<lambda>w. wt_blocker w \<notin> fl_id ` set Lo) ws)" for ws
  proof (cases Lo)
    case Nil
    then show ?thesis using lo by (simp add: shrink_def opt_id_def)
  next
    case (Cons l Ls)
    then have L: "Lo = [l]" "ps_left s = Some (fl_id l)" using lo by (auto simp: opt_id_def)
    have "fl_id l \<notin> fl_id ` set ?m" "fl_id l \<notin> fl_id ` set ?R" using dm d L ids by auto
    then show ?thesis using L d unfolding shrink_def by (simp add: clip_left_def)
  qed
  show ?thesis unfolding fin r l by (simp add: conj_commute)
qed

text \<open>\<open>posix_finish\<close> where the range lies inside one lock of the other type.\<close>

lemma posix_finish_split:
  assumes d: "distinct (map fl_id (X @ r # R))"
    and s: "ps_pre s = X" "ps_rest s = r # R" "ps_left s = Some (fl_id r)" "ps_right s = Some (fl_id r)"
    and n2: "n2 = Some j" "j \<notin> fl_id ` set (X @ r # R)"
    and ad: "ps_added s \<or> fl_type (ps_req s) \<noteq> F_UNLCK \<and> n1 \<noteq> None \<and> n1 \<noteq> n2 \<and> the n1 \<notin> fl_id ` set (X @ r # R)"
  shows "posix_finish ex n1 n2 s =
    (Locked, X @ (locks_copy_lock (locks_init_lock j) r)\<lparr>fl_end := fl_start (ps_req s) - 1\<rparr> #
        (if ps_added s then [] else [locks_copy_lock (locks_init_lock (the n1)) (ps_req s)]) @
        r\<lparr>fl_start := fl_end (ps_req s) + 1\<rparr> # R,
      filter (\<lambda>w. wt_blocker w \<notin> {fl_id r, j}) (ps_waiters s))"
proof -
  let ?m = "if ps_added s then [] else [locks_copy_lock (locks_init_lock (the n1)) (ps_req s)]"
  let ?c = "locks_copy_lock (locks_init_lock j) r"
  have dm: "fl_id r \<notin> fl_id ` set ?m" "j \<notin> fl_id ` set ?m" using ad n2 by auto
  have "posix_finish ex n1 n2 s = (Locked, shrink n2 (\<lambda>l. l\<lparr>fl_end := fl_start (ps_req s) - 1\<rparr>)
      (shrink (Some (fl_id r)) (\<lambda>l. l\<lparr>fl_start := fl_end (ps_req s) + 1\<rparr>)
        (X @ ?c # ?m @ r # R, ps_waiters s)))"
    using ad s n2 unfolding posix_finish_def Let_def by auto
  also have "shrink (Some (fl_id r)) (\<lambda>l. l\<lparr>fl_start := fl_end (ps_req s) + 1\<rparr>) (X @ ?c # ?m @ r # R, ps_waiters s)
    = (X @ ?c # ?m @ r\<lparr>fl_start := fl_end (ps_req s) + 1\<rparr> # R, filter (\<lambda>w. wt_blocker w \<noteq> fl_id r) (ps_waiters s))"
    using dm d n2 unfolding shrink_def by auto
  also have "shrink n2 (\<lambda>l. l\<lparr>fl_end := fl_start (ps_req s) - 1\<rparr>) \<dots>
    = (X @ ?c\<lparr>fl_end := fl_start (ps_req s) - 1\<rparr> # ?m @ r\<lparr>fl_start := fl_end (ps_req s) + 1\<rparr> # R,
       filter (\<lambda>w. wt_blocker w \<notin> {fl_id r, j}) (ps_waiters s))"
    using dm d n2 unfolding shrink_def by (auto simp: image_Un intro!: filter_cong)
  finally show ?thesis .
qed


text \<open>A lock that kept its waiters: it is still there and covers at least what it did.\<close>

definition grown :: "file_lock \<Rightarrow> file_lock \<Rightarrow> bool" where
  "grown l l' \<longleftrightarrow> fl_id l' = fl_id l \<and> fl_kind l' = fl_kind l \<and> fl_owner l' = fl_owner l \<and>
     fl_type l' = fl_type l \<and> fl_start l' \<le> fl_start l \<and> fl_end l \<le> fl_end l'"

definition in_range :: "file_lock \<Rightarrow> int \<Rightarrow> bool" where
  "in_range q b \<longleftrightarrow> fl_start q \<le> b \<and> b \<le> fl_end q"

definition overridden :: "file_lock \<Rightarrow> file_lock list \<Rightarrow> file_lock list \<Rightarrow> bool" where
  "overridden q R G \<longleftrightarrow>
     (\<forall>b t. covers G b t \<longleftrightarrow> (if in_range q b then fl_type q \<noteq> F_UNLCK \<and> t = fl_type q else covers R b t))"

definition owner_post :: "nat \<Rightarrow> file_lock \<Rightarrow> file_lock list \<Rightarrow> nat set \<Rightarrow> file_lock list \<Rightarrow> nat set \<Rightarrow> bool" where
  "owner_post o1 q R N G D \<longleftrightarrow>
     canon o1 G \<and> overridden q R G \<and> distinct (map fl_id G) \<and> fl_id ` set G \<subseteq> fl_id ` set R \<union> N \<and>
     (\<forall>l\<in>set R. fl_id l \<in> D \<or> (\<exists>l'\<in>set G. grown l l'))"

definition req_ok :: "nat \<Rightarrow> file_lock \<Rightarrow> bool" where
  "req_ok o1 q \<longleftrightarrow> fl_kind q = FL_POSIX \<and> fl_owner q = o1 \<and> 0 \<le> fl_start q \<and> fl_start q \<le> fl_end q \<and>
     fl_end q \<le> OFFSET_MAX \<and> (fl_type q = F_RDLCK \<or> fl_type q = F_WRLCK \<or> fl_type q = F_UNLCK)"

lemma grown_refl: "grown l l"
  by (simp add: grown_def)

lemma mid_alias:
  assumes c: "canon o1 R" and ok: "lock_ok o1 q1" and st: "\<forall>x\<in>set R. fl_start q1 < fl_start x"
    and id: "fl_id q1 = fl_id r" and lo: "length Lo \<le> 1" "Lo = [] \<or> fl_start q1 = fl_start q"
    and d: "distinct (map fl_id (X @ Lo @ r # R @ B))" and B: "B = [] \<or> fl_owner (hd B) \<noteq> o1"
    and ov: "\<And>b t. (if in_range q1 b then t = fl_type q1 else covers R b t) \<longleftrightarrow>
      (if in_range q b then fl_type q \<noteq> F_UNLCK \<and> t = fl_type q else covers (r # R) b t)"
    and gr: "fl_id r \<in> Dw \<or> grown r q1"
  shows "\<exists>G D. posix_finish ex n1 n2 (scan_owner (R @ B) \<lparr>ps_pre = X @ Lo @ [q1], ps_rest = rs, ps_req = q1,
      ps_alias = Some (fl_id r), ps_added = True, ps_left = opt_id Lo, ps_right = None,
      ps_waiters = filter (\<lambda>w. wt_blocker w \<notin> Dw) ws\<rparr>)
    = (Locked, X @ map (clip_left (fl_start q)) Lo @ G @ B, filter (\<lambda>w. wt_blocker w \<notin> D) ws) \<and>
    owner_post o1 q (r # R) {} G D \<and> fl_id ` set Lo \<subseteq> D"
proof -
  have "fl_id q1 \<notin> fl_id ` set (X @ Lo)" using d id by auto
  then obtain e R' right D where
    sc: "scan_owner (R @ B) \<lparr>ps_pre = X @ Lo @ [q1], ps_rest = rs, ps_req = q1,
      ps_alias = Some (fl_id r), ps_added = True, ps_left = opt_id Lo, ps_right = None,
      ps_waiters = filter (\<lambda>w. wt_blocker w \<notin> Dw) ws\<rparr>
      = \<lparr>ps_pre = X @ Lo @ [q1\<lparr>fl_end := e\<rparr>], ps_rest = R' @ B, ps_req = q1\<lparr>fl_end := e\<rparr>,
      ps_alias = Some (fl_id r), ps_added = True, ps_left = opt_id Lo, ps_right = right,
      ps_waiters = filter (\<lambda>w. wt_blocker w \<notin> D) (filter (\<lambda>w. wt_blocker w \<notin> Dw) ws)\<rparr>"
    and ap: "alias_post q1 R e R' right D"
    using scan_alias [OF c _ st, of "X @ Lo" B rs "opt_id Lo" "filter (\<lambda>w. wt_blocker w \<notin> Dw) ws"] B ok id
    by (auto simp: lock_ok_def)
  obtain R0 where R0: "R = R0 @ R'" "D \<subseteq> fl_id ` set R0" "\<forall>l\<in>set R0. fl_id l \<in> D"
    using ap by (auto simp: alias_post_def)
  have d2: "distinct (map fl_id (X @ Lo @ [q1\<lparr>fl_end := e\<rparr>] @ R' @ B))"
    using d id R0(1) by auto
  have ri: "right = None \<or> R' \<noteq> [] \<and> right = opt_id R'"
    using ap by (auto simp: alias_post_def opt_id_def)
  let ?G = "q1\<lparr>fl_end := e\<rparr> # clip_right right e R'"
  let ?D = "fl_id ` set Lo \<union> set_option right \<union> D \<union> Dw"
  have "posix_finish ex n1 n2 (scan_owner (R @ B) \<lparr>ps_pre = X @ Lo @ [q1], ps_rest = rs, ps_req = q1,
      ps_alias = Some (fl_id r), ps_added = True, ps_left = opt_id Lo, ps_right = None,
      ps_waiters = filter (\<lambda>w. wt_blocker w \<notin> Dw) ws\<rparr>)
    = (Locked, X @ map (clip_left (fl_start q)) Lo @ ?G @ B, filter (\<lambda>w. wt_blocker w \<notin> ?D) ws)"
    unfolding sc using lo
    by (subst posix_finish_apart [OF d2]) (auto simp: ri intro!: filter_cong)
  moreover have "owner_post o1 q (r # R) {} ?G ?D"
  proof -
    have st': "\<forall>x\<in>set R. fl_start q1 \<le> fl_start x" using st by auto
    have cG: "canon o1 ?G" by (rule alias_canon(1) [OF ap c ok st'])
    have ov': "overridden q (r # R) ?G"
      unfolding overridden_def alias_canon(2) [OF ap c ok st'] using ov by (simp add: in_range_def)
    have ids: "map fl_id ?G = fl_id r # map fl_id R'" using id by simp
    have dG: "distinct (map fl_id ?G)" unfolding ids using d R0(1) by auto
    have "fl_id ` set ?G = set (fl_id r # map fl_id R')" using ids by (metis list.set_map)
    then have sG: "fl_id ` set ?G \<subseteq> fl_id ` set (r # R) \<union> {}" using R0(1) by auto
    have kG: "\<forall>l\<in>set (r # R). fl_id l \<in> ?D \<or> (\<exists>l'\<in>set ?G. grown l l')"
    proof
      fix l assume "l \<in> set (r # R)"
      then consider "l = r" | "l \<in> set R0" | "l \<in> set R'" using R0(1) by auto
      then show "fl_id l \<in> ?D \<or> (\<exists>l'\<in>set ?G. grown l l')"
      proof cases
        case 1
        then show ?thesis using gr ap by (auto simp: grown_def alias_post_def)
      next
        case 2
        then show ?thesis using R0 by auto
      next
        case 3
        then have "l \<in> set ?G \<or> right = Some (fl_id l)" using ri by (cases right; cases R') (auto simp: opt_id_def)
        then show ?thesis using grown_refl [of l] by (elim disjE) (blast, simp)
      qed
    qed
    show ?thesis unfolding owner_post_def using cG ov' dG sG kG by (intro conjI)
  qed
  ultimately show ?thesis by blast
qed

definition fail_ok :: "file_lock \<Rightarrow> bool \<Rightarrow> nat option \<Rightarrow> nat option \<Rightarrow> file_lock list \<Rightarrow> lock_ret \<Rightarrow> bool" where
  "fail_ok q ex n1 n2 R ret \<longleftrightarrow>
     (ret = Failed ENOLCK \<and> (fl_type q \<noteq> F_UNLCK \<and> n1 = None \<or> 0 < fl_start q \<and> n2 = None)) \<or>
     (ret = Failed ENOENT \<and> ex \<and> fl_type q = F_UNLCK \<and> (\<forall>b t. in_range q b \<longrightarrow> \<not> covers R b t))"

definition mid_result where
  "mid_result o1 q ex n1 n2 R Lo X B ws res \<longleftrightarrow>
     (\<exists>ret G D. res = (ret, X @ (if ret = Locked then map (clip_left (fl_start q)) Lo else Lo) @ G @ B,
          filter (\<lambda>w. wt_blocker w \<notin> D) ws) \<and>
        (ret = Locked \<longrightarrow> owner_post o1 q R (set_option n1) G D \<and> fl_id ` set Lo \<subseteq> D) \<and>
        (ret \<noteq> Locked \<longrightarrow> G = R \<and> D = {} \<and> fail_ok q ex n1 n2 (Lo @ R) ret))"

lemma mid_result_locked:
  assumes "res = (Locked, X @ map (clip_left (fl_start q)) Lo @ G @ B, filter (\<lambda>w. wt_blocker w \<notin> D) ws)"
    "owner_post o1 q R N G D" "N \<subseteq> set_option n1" "fl_id ` set Lo \<subseteq> D"
  shows "mid_result o1 q ex n1 n2 R Lo X B ws res"
proof -
  have "fl_id ` set G \<subseteq> fl_id ` set R \<union> N" using assms(2) unfolding owner_post_def by (elim conjE)
  then have "fl_id ` set G \<subseteq> fl_id ` set R \<union> set_option n1" using assms(3) by auto
  then have "owner_post o1 q R (set_option n1) G D"
    using assms(2) unfolding owner_post_def by (elim conjE) (intro conjI)
  then show ?thesis unfolding mid_result_def using assms(1,4)
    by (intro exI [of _ Locked] exI [of _ G] exI [of _ D]) simp
qed

lemma mid_result_failed:
  assumes "res = (ret, X @ Lo @ R @ B, ws)" "ret \<noteq> Locked" "fail_ok q ex n1 n2 (Lo @ R) ret"
  shows "mid_result o1 q ex n1 n2 R Lo X B ws res"
  unfolding mid_result_def using assms
  by (intro exI [of _ ret] exI [of _ R] exI [of _ "{}"]) simp

lemma clip_right_member:
  assumes "l \<in> set R" "right = None \<or> R \<noteq> [] \<and> right = opt_id R"
  shows "l \<in> set (clip_right right e R) \<or> right = Some (fl_id l)"
  using assms by (cases right; cases R) (auto simp: opt_id_def)

lemma mid_unlock:
  assumes c: "canon o1 R" and q: "req_ok o1 q" "fl_type q = F_UNLCK" and st: "\<forall>r\<in>set R. fl_start q \<le> fl_start r"
    and lo: "length Lo \<le> 1" "Lo \<noteq> [] \<longrightarrow> ad0"
    and d: "distinct (map fl_id (X @ Lo @ R @ B))" and B: "B = [] \<or> fl_owner (hd B) \<noteq> o1"
  shows "mid_result o1 q ex n1 n2 R Lo X B ws (posix_finish ex n1 n2 (scan_owner (R @ B)
      \<lparr>ps_pre = X @ Lo, ps_rest = rs, ps_req = q, ps_alias = None, ps_added = ad0, ps_left = opt_id Lo,
       ps_right = None, ps_waiters = ws\<rparr>))" (is "mid_result _ _ _ _ _ _ _ _ _ _ (posix_finish _ _ _ (scan_owner _ ?s))")
proof -
  obtain ad R' right D where
    sc: "scan_owner (R @ B) ?s = \<lparr>ps_pre = X @ Lo, ps_rest = R' @ B, ps_req = q, ps_alias = None, ps_added = ad,
      ps_left = opt_id Lo, ps_right = right, ps_waiters = filter (\<lambda>w. wt_blocker w \<notin> D) ws\<rparr>"
    and up: "unlock_post q R R' right D" and ad: "ad0 \<longrightarrow> ad" "\<not> ad \<longrightarrow> D = {} \<and> R' = R \<and> right = None"
    using scan_unlock [OF c _ st q(2) B, of "X @ Lo" rs ad0 "opt_id Lo" ws] q(1) by (auto simp: req_ok_def)
  obtain R0 where R0: "R = R0 @ R'" "D \<subseteq> fl_id ` set R0" "\<forall>l\<in>set R0. fl_id l \<in> D"
    using up by (auto simp: unlock_post_def)
  have ri: "right = None \<or> R' \<noteq> [] \<and> right = opt_id R'"
    using up by (auto simp: unlock_post_def opt_id_def)
  have q': "0 \<le> fl_start q" "fl_start q \<le> fl_end q" using q(1) by (auto simp: req_ok_def)
  let ?G = "clip_right right (fl_end q) R'"
  let ?D = "fl_id ` set Lo \<union> set_option right \<union> D"
  have cG: "canon o1 ?G" by (rule unlock_canon(1) [OF up c q' st])
  have cov: "covers ?G b t \<longleftrightarrow> \<not> in_range q b \<and> covers R b t" for b t
    unfolding unlock_canon(2) [OF up c q' st] by (simp add: in_range_def)
  have post: "owner_post o1 q R {} ?G ?D"
  proof -
    have ids: "fl_id ` set ?G = fl_id ` set R'" using clip_right_ids by (metis list.set_map)
    have "distinct (map fl_id ?G)" using d R0(1) by auto
    moreover have "fl_id ` set ?G \<subseteq> fl_id ` set R \<union> {}" unfolding ids using R0(1) by auto
    moreover have "fl_id l \<in> ?D \<or> (\<exists>l'\<in>set ?G. grown l l')" if "l \<in> set R" for l
      using that R0 clip_right_member [OF _ ri, of l "fl_end q"] grown_refl [of l] by auto
    ultimately show ?thesis unfolding owner_post_def overridden_def using cG cov q(2) by simp
  qed
  show ?thesis
  proof (cases ad)
    case True
    have d2: "distinct (map fl_id (X @ Lo @ [] @ R' @ B))" using d R0(1) by auto
    have "posix_finish ex n1 n2 (scan_owner (R @ B) ?s) = (Locked, X @ map (clip_left (fl_start q)) Lo @ ?G @ B,
        filter (\<lambda>w. wt_blocker w \<notin> ?D) ws)"
      unfolding sc using lo True ri
      by (subst posix_finish_apart [OF d2]) (auto intro!: filter_cong)
    then show ?thesis by (rule mid_result_locked [OF _ post]) auto
  next
    case False
    then have F: "Lo = []" "D = {}" "R' = R" "right = None" using ad lo by auto
    have fin: "posix_finish ex n1 n2 (scan_owner (R @ B) ?s) = (if ex then Failed ENOENT else Locked, X @ R @ B, ws)"
      unfolding sc using False F q(2) by (simp add: posix_finish_def)
    show ?thesis
    proof (cases ex)
      case True
      have "fail_ok q ex n1 n2 R (Failed ENOENT)" using True q(2) cov F by (auto simp: fail_ok_def)
      then show ?thesis using fin True F by (intro mid_result_failed) auto
    next
      case False
      then show ?thesis using fin F post by (intro mid_result_locked [OF _ post]) auto
    qed
  qed
qed

text \<open>A new lock inserted at the cursor.\<close>

lemma mid_insert:
  assumes c: "canon o1 R" and q: "req_ok o1 q" "fl_type q \<noteq> F_UNLCK" and st: "\<forall>r\<in>set R. fl_start q \<le> fl_start r"
    and lo: "length Lo \<le> 1"
    and d: "distinct (map fl_id (X @ Lo @ R @ B))" and n1: "set_option n1 \<inter> fl_id ` set (X @ Lo @ R @ B) = {}"
    and ap: "alias_post q R (fl_end q) R right {}"
  shows "mid_result o1 q ex n1 n2 R Lo X B ws (posix_finish ex n1 n2
      \<lparr>ps_pre = X @ Lo, ps_rest = R @ B, ps_req = q, ps_alias = None, ps_added = False, ps_left = opt_id Lo,
       ps_right = right, ps_waiters = ws\<rparr>)"
proof (cases n1)
  case None
  have "opt_id Lo \<noteq> opt_id R \<or> opt_id R = None" using d lo by (cases Lo; cases R) (auto simp: opt_id_def)
  then have ri: "\<not> (right \<noteq> None \<and> opt_id Lo = right)"
    using ap by (auto simp: alias_post_def opt_id_def)
  have "fail_ok q ex n1 n2 (Lo @ R) (Failed ENOLCK)" using None q by (simp add: fail_ok_def)
  then show ?thesis using None ri q by (intro mid_result_failed) (auto simp: posix_finish_def)
next
  case (Some a)
  have ok: "lock_ok o1 q" using q by (auto simp: req_ok_def lock_ok_def)
  have ri: "right = None \<or> R \<noteq> [] \<and> right = opt_id R"
    using ap by (auto simp: alias_post_def opt_id_def)
  have d2: "distinct (map fl_id (X @ Lo @ [] @ R @ B))" using d by simp
  let ?m = "locks_copy_lock (locks_init_lock a) q"
  let ?G = "?m # clip_right right (fl_end q) R"
  let ?D = "fl_id ` set Lo \<union> set_option right"
  have fin: "posix_finish ex n1 n2 \<lparr>ps_pre = X @ Lo, ps_rest = R @ B, ps_req = q, ps_alias = None,
       ps_added = False, ps_left = opt_id Lo, ps_right = right, ps_waiters = ws\<rparr> =
      (Locked, X @ map (clip_left (fl_start q)) Lo @ ?G @ B, filter (\<lambda>w. wt_blocker w \<notin> ?D) ws)"
    using lo ri q n1 Some
    by (subst posix_finish_apart [OF d2]) auto
  have ids: "fl_id ` set (clip_right right (fl_end q) R) = fl_id ` set R" using clip_right_ids by (metis list.set_map)
  have h1: "canon o1 ?G" using alias_canon(1) [OF ap c ok st] by (simp add: canon_Cons lock_ok_def apart_def)
  have h2: "overridden q R ?G"
    unfolding overridden_def using alias_canon(2) [OF ap c ok st] q by (auto simp: in_range_def)
  have h3: "distinct (map fl_id ?G)" using d n1 Some ids by auto
  have h4: "fl_id ` set ?G \<subseteq> fl_id ` set R \<union> {a}" using ids by auto
  have h5: "\<forall>l\<in>set R. fl_id l \<in> ?D \<or> (\<exists>l'\<in>set ?G. grown l l')"
    using clip_right_member [OF _ ri, of _ "fl_end q"] grown_refl by fastforce
  have post: "owner_post o1 q R {a} ?G ?D" unfolding owner_post_def using h1 h2 h3 h4 h5 by (intro conjI)
  show ?thesis by (rule mid_result_locked [OF fin post]) (use Some in simp_all)
qed

lemma alias_ov:
  assumes ap: "\<forall>x\<in>set R. apart r x" and ty: "fl_type r = fl_type q" "fl_type q \<noteq> F_UNLCK"
    and le: "fl_start r \<le> fl_end r" "fl_start q \<le> fl_end q" "fl_start q - 1 \<le> fl_end r" "fl_start r - 1 \<le> fl_end q"
    and q1: "fl_start q1 = min (fl_start q) (fl_start r)" "fl_end q1 = max (fl_end q) (fl_end r)" "fl_type q1 = fl_type q"
  shows "(if in_range q1 b then t = fl_type q1 else covers R b t) \<longleftrightarrow>
      (if in_range q b then fl_type q \<noteq> F_UNLCK \<and> t = fl_type q else covers (r # R) b t)"
proof -
  have "covers R b t \<Longrightarrow> fl_end r < b" using ap covers_above [of R "fl_end r"] by (auto simp: apart_def)
  then show ?thesis using ty le q1 by (auto simp: in_range_def)
qed

lemma scan_mid:
  assumes c: "canon o1 R" and q: "req_ok o1 q" and st: "\<forall>r\<in>set R. fl_start q \<le> fl_start r"
    and lo: "length Lo \<le> 1" "Lo \<noteq> [] \<longrightarrow> fl_type q = F_UNLCK \<longrightarrow> ad0" "ad0 \<longrightarrow> fl_type q = F_UNLCK"
    and d: "distinct (map fl_id (X @ Lo @ R @ B))" and B: "B = [] \<or> fl_owner (hd B) \<noteq> o1"
    and n1: "set_option n1 \<inter> fl_id ` set (X @ Lo @ R @ B) = {}"
  shows "mid_result o1 q ex n1 n2 R Lo X B ws (posix_finish ex n1 n2 (scan_owner (R @ B)
      \<lparr>ps_pre = X @ Lo, ps_rest = rs, ps_req = q, ps_alias = None, ps_added = ad0, ps_left = opt_id Lo,
       ps_right = None, ps_waiters = ws\<rparr>))" (is "mid_result _ _ _ _ _ _ _ _ _ _ (posix_finish _ _ _ (scan_owner _ (?s ad0)))")
proof (cases "fl_type q = F_UNLCK")
  case True
  then show ?thesis using mid_unlock [OF c q True st lo(1) _ d B] lo(2) by simp
next
  case False
  then have ad: "ad0 = False" using lo by simp
  have qo: "fl_owner q = o1" "fl_start q \<le> fl_end q" using q by (auto simp: req_ok_def)
  note ins = mid_insert [OF c q False st lo(1) d n1]
  show ?thesis
  proof (cases R)
    case Nil
    have sc: "scan_owner (R @ B) (?s ad0) = ?s False\<lparr>ps_rest := R @ B\<rparr>"
      using Nil B qo ad by (cases B) (auto simp: posix_same_owner_def)
    have "alias_post q R (fl_end q) R None {}" using Nil by (simp add: alias_post_def)
    from ins [OF this] show ?thesis unfolding sc by simp
  next
    case (Cons r R1)
    have ok: "lock_ok o1 r" and ap: "\<forall>x\<in>set R1. apart r x" and cR: "canon o1 R1"
      using c Cons by (auto simp: canon_Cons)
    have r: "fl_owner r = o1" "fl_start r \<le> fl_end r" "fl_start q \<le> fl_start r"
      using ok st Cons by (auto simp: lock_ok_def)
    have gt: "\<forall>x\<in>set R1. fl_start q < fl_start x" "\<forall>x\<in>set R1. fl_end r < fl_start x"
      using ap r by (auto simp: apart_def)
    have d1: "distinct (map fl_id (X @ Lo @ r # R1 @ B))" using d Cons by simp
    consider (brk) "fl_start r > fl_end q" "fl_type q = fl_type r \<longrightarrow> fl_start r - 1 > fl_end q"
      | (merge) "fl_type q = fl_type r" "\<not> fl_start r - 1 > fl_end q"
      | (right) "fl_type q \<noteq> fl_type r" "\<not> fl_start r > fl_end q" "fl_end r > fl_end q"
      | (repl) "fl_type q \<noteq> fl_type r" "\<not> fl_start r > fl_end q" "\<not> fl_end r > fl_end q"
      by fastforce
    then show ?thesis
    proof cases
      case brk
      have sc: "scan_owner (R @ B) (?s ad0) = ?s False\<lparr>ps_rest := R @ B\<rparr>"
        using brk Cons r qo ad by (simp add: posix_same_owner_def Let_def)
      have "alias_post q R (fl_end q) R None {}"
        using brk gt r Cons by (auto simp: alias_post_def apart_def)
      from ins [OF this] show ?thesis unfolding sc by simp
    next
      case right
      have sc: "scan_owner (R @ B) (?s ad0) = ?s False\<lparr>ps_rest := R @ B, ps_right := Some (fl_id r)\<rparr>"
        using right Cons r qo ad False by (simp add: posix_same_owner_def Let_def)
      have "alias_post q R (fl_end q) R (Some (fl_id r)) {}"
        using right Cons by (auto simp: alias_post_def)
      from ins [OF this] show ?thesis unfolding sc by simp
    next
      case merge
      let ?q = "r\<lparr>fl_start := fl_start q, fl_end := max (fl_end q) (fl_end r)\<rparr>"
      have sc: "scan_owner (R @ B) (?s ad0) = scan_owner (R1 @ B) \<lparr>ps_pre = X @ Lo @ [?q], ps_rest = rs, ps_req = ?q,
          ps_alias = Some (fl_id r), ps_added = True, ps_left = opt_id Lo, ps_right = None,
          ps_waiters = filter (\<lambda>w. wt_blocker w \<notin> {}) ws\<rparr>"
        using merge Cons r qo ad by (simp add: posix_same_owner_def Let_def set_req_range_def max_def)
      have okq: "lock_ok o1 ?q" using ok q r by (auto simp: lock_ok_def req_ok_def)
      have ov: "(if in_range ?q b then t = fl_type ?q else covers R1 b t) \<longleftrightarrow>
        (if in_range q b then fl_type q \<noteq> F_UNLCK \<and> t = fl_type q else covers (r # R1) b t)" for b t
        by (rule alias_ov [OF ap]) (use merge False r qo in auto)
      obtain G D where "posix_finish ex n1 n2 (scan_owner (R @ B) (?s ad0))
          = (Locked, X @ map (clip_left (fl_start q)) Lo @ G @ B, filter (\<lambda>w. wt_blocker w \<notin> D) ws)"
        "owner_post o1 q R {} G D" "fl_id ` set Lo \<subseteq> D"
        unfolding sc using mid_alias [OF cR okq _ _ lo(1) _ d1 B ov, of "{}" ex n1 n2 rs ws] gt(1) r Cons
        by (auto simp: grown_def)
      then show ?thesis by (intro mid_result_locked) auto
    next
      case repl
      let ?q = "r\<lparr>fl_start := fl_start q, fl_end := fl_end q, fl_type := fl_type q\<rparr>"
      have sc: "scan_owner (R @ B) (?s ad0) = scan_owner (R1 @ B) \<lparr>ps_pre = X @ Lo @ [?q], ps_rest = rs, ps_req = ?q,
          ps_alias = Some (fl_id r), ps_added = True, ps_left = opt_id Lo, ps_right = None,
          ps_waiters = filter (\<lambda>w. wt_blocker w \<notin> {fl_id r}) ws\<rparr>"
        using repl Cons r qo ad False
        by (simp add: posix_same_owner_def Let_def locks_wake_up_blocks_def)
      have okq: "lock_ok o1 ?q" using ok q r False by (auto simp: lock_ok_def req_ok_def)
      have ov: "(if in_range ?q b then t = fl_type ?q else covers R1 b t) \<longleftrightarrow>
        (if in_range q b then fl_type q \<noteq> F_UNLCK \<and> t = fl_type q else covers (r # R1) b t)" for b t
        using repl r False by (auto simp: in_range_def)
      obtain G D where "posix_finish ex n1 n2 (scan_owner (R @ B) (?s ad0))
          = (Locked, X @ map (clip_left (fl_start q)) Lo @ G @ B, filter (\<lambda>w. wt_blocker w \<notin> D) ws)"
        "owner_post o1 q R {} G D" "fl_id ` set Lo \<subseteq> D"
        unfolding sc using mid_alias [OF cR okq _ _ lo(1) _ d1 B ov, of "{fl_id r}" ex n1 n2 rs ws] gt(1) r Cons
        by auto
      then show ?thesis by (intro mid_result_locked) auto
    qed
  qed
qed

definition scan_result where
  "scan_result o1 q ex n1 n2 R X B ws res \<longleftrightarrow>
     (\<exists>ret G D. res = (ret, X @ G @ B, filter (\<lambda>w. wt_blocker w \<notin> D) ws) \<and>
        (ret = Locked \<longrightarrow> owner_post o1 q R (set_option n1 \<union> set_option n2) G D) \<and>
        (ret \<noteq> Locked \<longrightarrow> G = R \<and> D = {} \<and> fail_ok q ex n1 n2 R ret))"

lemma owner_post_mono: "owner_post o1 q R N G D \<Longrightarrow> N \<subseteq> M \<Longrightarrow> owner_post o1 q R M G D"
  unfolding owner_post_def by (elim conjE, intro conjI) (assumption | blast)+

lemma owner_post_start:
  assumes "owner_post o1 q R N G D" "g \<in> set G"
  shows "in_range q (fl_start g) \<and> fl_type g = fl_type q \<or> \<not> in_range q (fl_start g) \<and> covers R (fl_start g) (fl_type g)"
proof -
  have "canon o1 G" "overridden q R G" using assms(1) unfolding owner_post_def by auto
  then have "covers G (fl_start g) (fl_type g)" using assms(2) by (force simp: canon_def lock_ok_def covers_def)
  then show ?thesis using \<open>overridden q R G\<close> unfolding overridden_def by (auto split: if_splits)
qed

lemma owner_post_Cons:
  assumes p: "owner_post o1 q R N G D" and r': "lock_ok o1 r'" "fl_id r' = fl_id r"
    and e: "fl_end r' < fl_start q" "fl_type r' = fl_type q \<longrightarrow> fl_end r' + 1 < fl_start q"
    and q: "fl_start q \<le> fl_end q"
    and ap: "\<forall>x\<in>set R. apart r' x" and id: "fl_id r \<notin> fl_id ` set R \<union> N"
    and k: "fl_id r \<in> D \<or> grown r r'"
    and ov: "\<And>b t. \<not> in_range q b \<Longrightarrow> covers [r'] b t = covers [r] b t"
  shows "owner_post o1 q (r # R) N (r' # G) D"
proof -
  have ap': "apart r' g" if g: "g \<in> set G" for g
    using owner_post_start [OF p g]
  proof
    assume "in_range q (fl_start g) \<and> fl_type g = fl_type q"
    then show ?thesis using e by (auto simp: apart_def in_range_def)
  next
    assume "\<not> in_range q (fl_start g) \<and> covers R (fl_start g) (fl_type g)"
    then obtain x where "x \<in> set R" "fl_start x \<le> fl_start g" "fl_type x = fl_type g" by (auto simp: covers_def)
    then show ?thesis using ap by (fastforce simp: apart_def)
  qed
  have P: "canon o1 G" "overridden q R G" "distinct (map fl_id G)" "fl_id ` set G \<subseteq> fl_id ` set R \<union> N"
    "\<forall>l\<in>set R. fl_id l \<in> D \<or> (\<exists>l'\<in>set G. grown l l')"
    using p by (simp_all add: owner_post_def)
  have h1: "canon o1 (r' # G)" using P(1) r'(1) ap' by (simp add: canon_Cons)
  have h2: "overridden q (r # R) (r' # G)"
    unfolding overridden_def
  proof (intro allI)
    fix b t
    show "covers (r' # G) b t \<longleftrightarrow> (if in_range q b then fl_type q \<noteq> F_UNLCK \<and> t = fl_type q else covers (r # R) b t)"
      using P(2) e ov [of b t] unfolding overridden_def by (auto simp: in_range_def)
  qed
  have h3: "distinct (map fl_id (r' # G))" using P(3,4) id r'(2) by auto
  have h4: "fl_id ` set (r' # G) \<subseteq> fl_id ` set (r # R) \<union> N" using P(4) r'(2) by auto
  have h5: "\<forall>l\<in>set (r # R). fl_id l \<in> D \<or> (\<exists>l'\<in>set (r' # G). grown l l')" using P(5) k by auto
  show ?thesis unfolding owner_post_def using h1 h2 h3 h4 h5 by (intro conjI)
qed

text \<open>A range inside one lock of another type: the lock is split.\<close>

lemma split_lock_result:
  assumes c: "canon o1 (r # R)" and q: "req_ok o1 q" and ty: "fl_type q \<noteq> fl_type r"
    and le: "fl_start r < fl_start q" "fl_end q < fl_end r"
    and d: "distinct (map fl_id (X @ (r # R) @ B))"
    and n1: "set_option n1 \<inter> fl_id ` set (X @ (r # R) @ B) = {}" and n2: "set_option n2 \<inter> fl_id ` set (X @ (r # R) @ B) = {}"
    and n12: "set_option n1 \<inter> set_option n2 = {}"
  shows "scan_result o1 q ex n1 n2 (r # R) X B ws (posix_finish ex n1 n2
      \<lparr>ps_pre = X, ps_rest = r # R @ B, ps_req = q, ps_alias = None, ps_added = (fl_type q = F_UNLCK),
       ps_left = Some (fl_id r), ps_right = Some (fl_id r), ps_waiters = ws\<rparr>)"
    (is "scan_result _ _ _ _ _ _ _ _ _ (posix_finish _ _ _ ?s)")
proof (cases "n2 = None \<or> (fl_type q \<noteq> F_UNLCK \<and> n1 = None)")
  case True
  have "posix_finish ex n1 n2 ?s = (Failed ENOLCK, X @ (r # R) @ B, ws)"
    using True unfolding posix_finish_def Let_def by auto
  moreover have "fail_ok q ex n1 n2 (r # R) (Failed ENOLCK)"
    using True le c by (auto simp: fail_ok_def canon_Cons lock_ok_def)
  ultimately show ?thesis unfolding scan_result_def
    by (intro exI [of _ "Failed ENOLCK"] exI [of _ "r # R"] exI [of _ "{}"]) simp
next
  case False
  then obtain j where j: "n2 = Some j" by auto
  let ?m = "if fl_type q = F_UNLCK then [] else [locks_copy_lock (locks_init_lock (the n1)) q]"
  let ?c = "(locks_copy_lock (locks_init_lock j) r)\<lparr>fl_end := fl_start q - 1\<rparr>"
  let ?r = "r\<lparr>fl_start := fl_end q + 1\<rparr>"
  let ?G = "?c # ?m @ ?r # R"
  have d': "distinct (map fl_id (X @ r # R @ B))" using d by simp
  have fin: "posix_finish ex n1 n2 ?s = (Locked, X @ ?G @ B, filter (\<lambda>w. wt_blocker w \<notin> {fl_id r, j}) ws)"
    using False n1 n2 n12 j
    by (subst posix_finish_split [OF d' _ _ _ _ j]) auto
  have ap: "\<forall>x\<in>set R. apart r x" "lock_ok o1 r" "canon o1 R" using c by (auto simp: canon_Cons)
  have h1: "canon o1 ?G" using ap q le ty by (auto simp: canon_Cons canon_append lock_ok_def req_ok_def apart_def)
  have R: "covers R b t \<Longrightarrow> fl_end r < b" for b t using ap(1) covers_above [of R "fl_end r"] by (auto simp: apart_def)
  have m: "covers ?m b t \<longleftrightarrow> in_range q b \<and> fl_type q \<noteq> F_UNLCK \<and> t = fl_type q" for b t
    by (auto simp: in_range_def)
  have h2: "overridden q (r # R) ?G"
    unfolding overridden_def covers_Cons covers_append m using R le q
    by (force simp: in_range_def req_ok_def)
  have h3: "distinct (map fl_id ?G)" using d n1 n2 n12 j False by auto
  have h4: "fl_id ` set ?G \<subseteq> fl_id ` set (r # R) \<union> (set_option n1 \<union> set_option n2)" using j False by auto
  have h5: "\<forall>l\<in>set (r # R). fl_id l \<in> {fl_id r, j} \<or> (\<exists>l'\<in>set ?G. grown l l')" using grown_refl by auto
  have "owner_post o1 q (r # R) (set_option n1 \<union> set_option n2) ?G {fl_id r, j}"
    unfolding owner_post_def using h1 h2 h3 h4 h5 by (intro conjI)
  then show ?thesis unfolding scan_result_def using fin
    by (intro exI [of _ Locked] exI [of _ ?G] exI [of _ "{fl_id r, j}"]) simp
qed


lemma mid_to_scan:
  assumes "mid_result o1 q ex n1 n2 R [] X B ws res"
  shows "scan_result o1 q ex n1 n2 R X B ws res"
proof -
  obtain ret G D where
    res: "res = (ret, X @ (if ret = Locked then map (clip_left (fl_start q)) [] else []) @ G @ B, filter (\<lambda>w. wt_blocker w \<notin> D) ws)"
    and l: "ret = Locked \<longrightarrow> owner_post o1 q R (set_option n1) G D \<and> fl_id ` set ([] :: file_lock list) \<subseteq> D"
    and f: "ret \<noteq> Locked \<longrightarrow> G = R \<and> D = {} \<and> fail_ok q ex n1 n2 ([] @ R) ret"
    using assms unfolding mid_result_def by (elim exE conjE) (rule that)
  have "ret = Locked \<longrightarrow> owner_post o1 q R (set_option n1 \<union> set_option n2) G D"
    using l owner_post_mono [of o1 q R "set_option n1" G D "set_option n1 \<union> set_option n2"] by auto
  then show ?thesis unfolding scan_result_def res using f
    by (intro exI [of _ ret] exI [of _ G] exI [of _ D]) simp
qed

lemma scan_start:
  assumes "canon o1 R" "req_ok o1 q" "distinct (map fl_id (X @ R @ B))" "B = [] \<or> fl_owner (hd B) \<noteq> o1"
    and "set_option n1 \<inter> fl_id ` set (X @ R @ B) = {}" "set_option n2 \<inter> fl_id ` set (X @ R @ B) = {}"
    and "set_option n1 \<inter> set_option n2 = {}"
  shows "scan_result o1 q ex n1 n2 R X B ws (posix_finish ex n1 n2 (scan_owner (R @ B)
      \<lparr>ps_pre = X, ps_rest = rs, ps_req = q, ps_alias = None, ps_added = False, ps_left = None,
       ps_right = None, ps_waiters = ws\<rparr>))"
    (is "scan_result _ _ _ _ _ _ _ _ _ (posix_finish _ _ _ (scan_owner _ (?s X)))")
  using assms
proof (induction R arbitrary: X)
  case Nil
  have "mid_result o1 q ex n1 n2 [] [] X B ws (posix_finish ex n1 n2 (scan_owner ([] @ B) (?s X)))"
    using scan_mid [of o1 "[]" q "[]" False X B n1 ex n2 ws rs] Nil by (simp add: opt_id_def)
  then show ?case by (rule mid_to_scan)
next
  case (Cons r R)
  have ok: "lock_ok o1 r" and ap: "\<forall>x\<in>set R. apart r x" and cR: "canon o1 R"
    using Cons.prems(1) by (auto simp: canon_Cons)
  have r: "fl_owner r = o1" "fl_start r \<le> fl_end r" using ok by (auto simp: lock_ok_def)
  have qo: "fl_owner q = o1" "fl_start q \<le> fl_end q" using Cons.prems(2) by (auto simp: req_ok_def)
  have idr: "fl_id r \<notin> fl_id ` set R \<union> (set_option n1 \<union> set_option n2)" using Cons.prems by auto
  consider (skip) "fl_end r < fl_start q" "fl_type q = fl_type r \<longrightarrow> fl_end r < fl_start q - 1"
    | (mid) "fl_start r \<ge> fl_start q"
    | (merge) "fl_type q = fl_type r" "fl_start r < fl_start q" "fl_start q - 1 \<le> fl_end r"
    | (split) "fl_type q \<noteq> fl_type r" "fl_start r < fl_start q" "fl_end q < fl_end r"
    | (left) "fl_type q \<noteq> fl_type r" "fl_start r < fl_start q" "fl_start q \<le> fl_end r" "fl_end r \<le> fl_end q"
    by fastforce
  then show ?case
  proof cases
    case skip
    have sc: "scan_owner ((r # R) @ B) (?s X) = scan_owner (R @ B) (?s (X @ [r]))"
      using skip r qo by (simp add: posix_same_owner_def Let_def)
    have "scan_result o1 q ex n1 n2 R (X @ [r]) B ws (posix_finish ex n1 n2 (scan_owner (R @ B) (?s (X @ [r]))))"
      by (rule Cons.IH [OF cR]) (use Cons.prems in auto)
    then obtain ret G D where
      res: "posix_finish ex n1 n2 (scan_owner (R @ B) (?s (X @ [r]))) = (ret, X @ (r # G) @ B, filter (\<lambda>w. wt_blocker w \<notin> D) ws)"
      and l: "ret = Locked \<longrightarrow> owner_post o1 q R (set_option n1 \<union> set_option n2) G D"
      and f: "ret \<noteq> Locked \<longrightarrow> G = R \<and> D = {} \<and> fail_ok q ex n1 n2 R ret"
      unfolding scan_result_def by auto
    have "ret = Locked \<longrightarrow> owner_post o1 q (r # R) (set_option n1 \<union> set_option n2) (r # G) D"
      using owner_post_Cons [OF _ ok refl _ _ qo(2) ap idr] l skip grown_refl by auto
    moreover have "ret \<noteq> Locked \<longrightarrow> r # G = r # R \<and> D = {} \<and> fail_ok q ex n1 n2 (r # R) ret"
      using f skip by (auto simp: fail_ok_def in_range_def)
    ultimately show ?thesis unfolding sc scan_result_def
      by (intro exI [of _ ret] exI [of _ "r # G"] exI [of _ D] conjI res)
  next
    case mid
    have st: "\<forall>x\<in>set (r # R). fl_start q \<le> fl_start x" using mid ap r by (auto simp: apart_def)
    have "mid_result o1 q ex n1 n2 (r # R) [] X B ws (posix_finish ex n1 n2 (scan_owner ((r # R) @ B) (?s X)))"
      using scan_mid [OF Cons.prems(1,2) st, of "[]" False X B n1 ex n2 ws rs] Cons.prems by (simp add: opt_id_def)
    then show ?thesis by (rule mid_to_scan)
  next
    case merge
    let ?q = "r\<lparr>fl_end := max (fl_end q) (fl_end r)\<rparr>"
    have sc: "scan_owner ((r # R) @ B) (?s X) = scan_owner (R @ B) \<lparr>ps_pre = X @ [] @ [?q], ps_rest = rs, ps_req = ?q,
        ps_alias = Some (fl_id r), ps_added = True, ps_left = opt_id [], ps_right = None,
        ps_waiters = filter (\<lambda>w. wt_blocker w \<notin> {}) ws\<rparr>"
      using merge r qo by (simp add: posix_same_owner_def Let_def set_req_range_def max_def opt_id_def)
    have okq: "lock_ok o1 ?q" using ok Cons.prems(2) r by (auto simp: lock_ok_def req_ok_def)
    have "fl_type q \<noteq> F_UNLCK" using merge ok by (auto simp: lock_ok_def)
    then have ov: "(if in_range ?q b then t = fl_type ?q else covers R b t) \<longleftrightarrow>
      (if in_range q b then fl_type q \<noteq> F_UNLCK \<and> t = fl_type q else covers (r # R) b t)" for b t
      by (intro alias_ov [OF ap]) (use merge r qo in auto)
    have gt: "\<forall>x\<in>set R. fl_start ?q < fl_start x" using ap r by (auto simp: apart_def)
    obtain G D where res: "posix_finish ex n1 n2 (scan_owner ((r # R) @ B) (?s X))
        = (Locked, X @ G @ B, filter (\<lambda>w. wt_blocker w \<notin> D) ws)" and p: "owner_post o1 q (r # R) {} G D"
      unfolding sc using mid_alias [where Lo = "[]" and X = X and Dw = "{}" and ex = ex and ?n1.0 = n1 and ?n2.0 = n2 and rs = rs and ws = ws,
          OF cR okq gt _ _ _ _ Cons.prems(4) ov] Cons.prems(3)
      by (auto simp: grown_def)
    show ?thesis unfolding scan_result_def using res owner_post_mono [OF p]
      by (intro exI [of _ Locked] exI [of _ G] exI [of _ D]) simp
  next
    case split
    have "scan_owner ((r # R) @ B) (?s X) = \<lparr>ps_pre = X, ps_rest = r # R @ B, ps_req = q, ps_alias = None,
        ps_added = (fl_type q = F_UNLCK), ps_left = Some (fl_id r), ps_right = Some (fl_id r), ps_waiters = ws\<rparr>"
      using split r qo by (simp add: posix_same_owner_def Let_def)
    then show ?thesis
      using split_lock_result [OF Cons.prems(1,2) split(1,2,3) Cons.prems(3,5,6,7)] by simp
  next
    case left
    have sc: "scan_owner ((r # R) @ B) (?s X) = scan_owner (R @ B) \<lparr>ps_pre = X @ [r], ps_rest = rs, ps_req = q,
        ps_alias = None, ps_added = (fl_type q = F_UNLCK), ps_left = opt_id [r], ps_right = None, ps_waiters = ws\<rparr>"
      using left r qo by (simp add: posix_same_owner_def Let_def opt_id_def)
    have st: "\<forall>x\<in>set R. fl_start q \<le> fl_start x" using left ap by (auto simp: apart_def)
    define res where "res = posix_finish ex n1 n2 (scan_owner ((r # R) @ B) (?s X))"
    have "mid_result o1 q ex n1 n2 R [r] X B ws res"
      unfolding res_def sc by (rule scan_mid [OF cR Cons.prems(2) st]) (use Cons.prems in auto)
    then obtain ret G D where
      res: "res = (ret, X @ (if ret = Locked then map (clip_left (fl_start q)) [r] else [r]) @ G @ B, filter (\<lambda>w. wt_blocker w \<notin> D) ws)"
      and l: "ret = Locked \<longrightarrow> owner_post o1 q R (set_option n1) G D \<and> fl_id ` set [r] \<subseteq> D"
      and f: "ret \<noteq> Locked \<longrightarrow> G = R \<and> D = {} \<and> fail_ok q ex n1 n2 ([r] @ R) ret"
      unfolding mid_result_def by (elim exE conjE)
    have "scan_result o1 q ex n1 n2 (r # R) X B ws res"
    proof (cases "ret = Locked")
      case True
      let ?r = "clip_left (fl_start q) r"
      have p: "owner_post o1 q R (set_option n1 \<union> set_option n2) G D" "fl_id r \<in> D"
        using l True owner_post_mono [of o1 q R "set_option n1" G D "set_option n1 \<union> set_option n2"] by auto
      have okr: "lock_ok o1 ?r" using ok left Cons.prems(2) by (auto simp: lock_ok_def clip_left_def req_ok_def)
      have "owner_post o1 q (r # R) (set_option n1 \<union> set_option n2) (?r # G) D"
        by (rule owner_post_Cons [OF p(1) okr _ _ _ qo(2) _ idr disjI1 [OF p(2)]])
          (use left ap in \<open>auto simp: clip_left_def apart_def in_range_def\<close>)
      then show ?thesis unfolding scan_result_def res using True
        by (intro exI [of _ Locked] exI [of _ "?r # G"] exI [of _ D]) simp
    next
      case False
      then show ?thesis unfolding scan_result_def res using f
        by (intro exI [of _ ret] exI [of _ "r # G"] exI [of _ D]) simp
    qed
    then show ?thesis unfolding res_def .
  qed
qed

section \<open>The list of an inode\<close>

definition mine :: "nat \<Rightarrow> file_lock \<Rightarrow> bool" where
  "mine o1 l \<longleftrightarrow> fl_kind l = FL_POSIX \<and> fl_owner l = o1"

text \<open>The owner holds a lock of type \<open>t\<close> on byte \<open>b\<close>.\<close>

definition held :: "file_lock list \<Rightarrow> nat \<Rightarrow> int \<Rightarrow> u8 \<Rightarrow> bool" where
  "held ls o1 b t \<longleftrightarrow> covers (filter (mine o1) ls) b t"

text \<open>
  The list invariant: POSIX locks come last; those of one owner stand together, in order,
  disjoint, and merged where they could be; locks of two owners overlap only if both are read locks.
\<close>

definition group_ok :: "file_lock list \<Rightarrow> nat \<Rightarrow> bool" where
  "group_ok ls o1 \<longleftrightarrow>
     (let g = filter (mine o1) ls in
      canon o1 g \<and> g = take (length g) (dropWhile (\<lambda>l. \<not> mine o1 l) ls))"

definition compatible :: "file_lock list \<Rightarrow> bool" where
  "compatible ls \<longleftrightarrow> (\<forall>l1\<in>set ls. \<forall>l2\<in>set ls. fl_kind l1 = FL_POSIX \<longrightarrow> \<not> posix_locks_conflict l1 l2)"

definition list_inv :: "file_lock list \<Rightarrow> bool" where
  "list_inv ls \<longleftrightarrow>
     (\<forall>l\<in>set (dropWhile (\<lambda>l. fl_kind l \<noteq> FL_POSIX) ls). fl_kind l = FL_POSIX) \<and>
     (\<forall>l\<in>set ls. fl_kind l = FL_POSIX \<longrightarrow> group_ok ls (fl_owner l)) \<and> compatible ls"

text \<open>
  A blocked request waits for a lock that exists and that it conflicts with: nobody sleeps on a lock that
  was removed, shrunk or downgraded out of the way.
\<close>

definition still_blocks :: "waiter \<Rightarrow> file_lock \<Rightarrow> bool" where
  "still_blocks w l \<longleftrightarrow>
     fl_id l = wt_blocker w \<and> fl_owner l = wt_blocker_owner w \<and> wt_posix w = (fl_kind l = FL_POSIX) \<and>
     (case fl_kind l of
        FL_POSIX \<Rightarrow> posix_locks_conflict (wt_lock w) l
      | FL_FLOCK \<Rightarrow> flock_locks_conflict (wt_lock w) l
      | FL_LEASE \<Rightarrow> True)"

definition waiters_inv :: "lock_state \<Rightarrow> bool" where
  "waiters_inv s \<longleftrightarrow>
     distinct (map (\<lambda>w. fl_id (wt_lock w)) (waiters s)) \<and>
     (\<forall>w\<in>set (waiters s). \<exists>l\<in>set (i_flock s @ i_others s). still_blocks w l)"

definition locks_inv :: "lock_state \<Rightarrow> bool" where
  "locks_inv s \<longleftrightarrow> distinct (map fl_id (i_flock s @ i_others s)) \<and> list_inv (i_flock s) \<and> waiters_inv s"

lemma take_dropWhile_split:
  assumes "filter P ls = take (length (filter P ls)) (dropWhile (\<lambda>l. \<not> P l) ls)"
  shows "\<exists>B. ls = takeWhile (\<lambda>l. \<not> P l) ls @ filter P ls @ B \<and> (\<forall>l\<in>set B. \<not> P l)"
proof -
  have gen: "\<exists>B. A @ D = A @ F @ B \<and> (\<forall>l\<in>set B. \<not> P l)"
    if F: "filter P (A @ D) = F" "take (length F) D = F" for A D F
  proof -
    have D: "F @ drop (length F) D = D" using append_take_drop_id [of "length F" D] unfolding F(2) .
    have FF: "filter P F = F" unfolding F(1) [symmetric] by simp
    have "filter P A @ F @ filter P (drop (length F) D) = F"
      using F(1) FF by (subst (asm) D [symmetric]) simp
    then have "length (filter P A @ F @ filter P (drop (length F) D)) = length F" by (rule arg_cong)
    then have "\<forall>l\<in>set (drop (length F) D). \<not> P l" by (simp add: filter_empty_conv)
    then show ?thesis by (intro exI [of _ "drop (length F) D"]) (simp add: D)
  qed
  have "filter P (takeWhile (\<lambda>l. \<not> P l) ls @ dropWhile (\<lambda>l. \<not> P l) ls) = filter P ls" by simp
  from gen [OF this assms [symmetric]] show ?thesis unfolding takeWhile_dropWhile_id .
qed

lemma group_splitI:
  assumes "ls = A @ G @ B" "canon o1 G" "\<forall>l\<in>set A \<union> set B. \<not> mine o1 l"
  shows "filter (mine o1) ls = G \<and> group_ok ls o1"
proof -
  have G: "\<forall>l\<in>set G. mine o1 l" using assms(2) by (auto simp: canon_def lock_ok_def mine_def)
  have f: "filter (mine o1) ls = G" using assms(1,3) G by (auto simp: filter_empty_conv)
  have "G = take (length G) (dropWhile (\<lambda>l. \<not> mine o1 l) ls)"
  proof (cases G)
    case (Cons g G')
    then have "dropWhile (\<lambda>l. \<not> mine o1 l) ls = G @ B"
      using assms(1,3) G by (simp add: dropWhile_append2)
    then show ?thesis by simp
  qed simp
  then show ?thesis using f assms(2) by (simp add: group_ok_def)
qed

lemma group_ok_split:
  assumes "list_inv ls"
  shows "\<exists>B. ls = takeWhile (\<lambda>l. \<not> mine o1 l) ls @ filter (mine o1) ls @ B \<and> (\<forall>l\<in>set B. \<not> mine o1 l) \<and>
    canon o1 (filter (mine o1) ls)"
proof (cases "filter (mine o1) ls")
  case Nil
  then have "\<forall>l\<in>set ls. \<not> mine o1 l" by (simp add: filter_empty_conv)
  then have tw: "takeWhile (\<lambda>l. \<not> mine o1 l) ls = ls" unfolding takeWhile_eq_all_conv .
  show ?thesis unfolding tw Nil by (intro exI [of _ "[]"]) simp
next
  case (Cons g G)
  have "g \<in> set (filter (mine o1) ls)" unfolding Cons by simp
  then have g: "g \<in> set ls" "fl_kind g = FL_POSIX" "fl_owner g = o1" by (auto simp: mine_def)
  have "\<forall>l\<in>set ls. fl_kind l = FL_POSIX \<longrightarrow> group_ok ls (fl_owner l)"
    using assms unfolding list_inv_def by (elim conjE)
  then have "group_ok ls o1" using g by blast
  then have c: "canon o1 (filter (mine o1) ls)"
    and t: "filter (mine o1) ls = take (length (filter (mine o1) ls)) (dropWhile (\<lambda>l. \<not> mine o1 l) ls)"
    unfolding group_ok_def Let_def by (rule conjunct1, rule conjunct2)
  from take_dropWhile_split [OF t] c show ?thesis by blast
qed

lemma list_inv_iff:
  "list_inv ls \<longleftrightarrow>
     (\<forall>l\<in>set (dropWhile (\<lambda>l. fl_kind l \<noteq> FL_POSIX) ls). fl_kind l = FL_POSIX) \<and>
     (\<forall>o1. \<exists>A G B. ls = A @ G @ B \<and> canon o1 G \<and> (\<forall>l\<in>set A \<union> set B. \<not> mine o1 l)) \<and> compatible ls"
proof -
  have "\<exists>A G B. ls = A @ G @ B \<and> canon o1 G \<and> (\<forall>l\<in>set A \<union> set B. \<not> mine o1 l)" if inv: "list_inv ls" for o1
  proof -
    obtain B where "ls = takeWhile (\<lambda>l. \<not> mine o1 l) ls @ filter (mine o1) ls @ B" "\<forall>l\<in>set B. \<not> mine o1 l"
      "canon o1 (filter (mine o1) ls)" using group_ok_split [OF inv, of o1] by blast
    moreover have "\<forall>l\<in>set (takeWhile (\<lambda>l. \<not> mine o1 l) ls). \<not> mine o1 l" by (auto dest: set_takeWhileD)
    ultimately show ?thesis
      by (intro exI [of _ "takeWhile (\<lambda>l. \<not> mine o1 l) ls"] exI [of _ "filter (mine o1) ls"] exI [of _ B]) blast
  qed
  moreover have "group_ok ls o1" if "\<exists>A G B. ls = A @ G @ B \<and> canon o1 G \<and> (\<forall>l\<in>set A \<union> set B. \<not> mine o1 l)" for o1
    using that group_splitI by blast
  ultimately show ?thesis unfolding list_inv_def by blast
qed

lemma segment_disjoint:
  assumes eq: "A @ G @ B = A' @ G' @ B'" and "G \<noteq> []" "G' \<noteq> []"
    and P: "\<forall>x\<in>set G. P x" "\<forall>x\<in>set A' \<union> set G' \<union> set B'. P x \<longrightarrow> x \<notin> set G'"
  shows "(\<exists>C. A = A' @ G' @ C) \<or> (\<exists>C. B = C @ G' @ B')"
proof -
  have disj: "set G \<inter> set G' = {}" using P by auto
  from iffD1 [OF append_eq_append_conv2, OF eq] obtain us where
    "A = A' @ us \<and> us @ G @ B = G' @ B' \<or> A @ us = A' \<and> G @ B = us @ G' @ B'" by blast
  then show ?thesis
  proof
    assume 1: "A = A' @ us \<and> us @ G @ B = G' @ B'"
    from iffD1 [OF append_eq_append_conv2, OF conjunct2 [OF 1]] obtain vs where
      vs: "us = G' @ vs \<and> vs @ G @ B = B' \<or> us @ vs = G' \<and> G @ B = vs @ B'" by blast
    show ?thesis
    proof (cases "vs = []")
      case False
      then have "us @ vs = G' \<Longrightarrow> G @ B = vs @ B' \<Longrightarrow> False"
        using disj \<open>G \<noteq> []\<close> by (cases G; cases vs) auto
      then show ?thesis using 1 vs by auto
    qed (use 1 vs in auto)
  next
    assume 2: "A @ us = A' \<and> G @ B = us @ G' @ B'"
    from iffD1 [OF append_eq_append_conv2, OF conjunct2 [OF 2]] obtain vs where
      vs: "G = us @ vs \<and> vs @ B = G' @ B' \<or> G @ vs = us \<and> B = vs @ G' @ B'" by blast
    show ?thesis
    proof (cases "vs = []")
      case False
      then have "G = us @ vs \<Longrightarrow> vs @ B = G' @ B' \<Longrightarrow> False"
        using disj \<open>G' \<noteq> []\<close> by (cases G'; cases vs) auto
      then show ?thesis using vs by auto
    next
      case True
      then have "B = [] @ G' @ B'" using vs by auto
      then show ?thesis by blast
    qed
  qed
qed


lemma list_inv_group:
  assumes "list_inv ls"
  obtains A G B where "ls = A @ G @ B" "canon o1 G" "\<forall>l\<in>set A \<union> set B. \<not> mine o1 l"
proof -
  have "\<forall>o1. \<exists>A G B. ls = A @ G @ B \<and> canon o1 G \<and> (\<forall>l\<in>set A \<union> set B. \<not> mine o1 l)"
    using assms unfolding list_inv_iff by (elim conjE)
  then show ?thesis using that by blast
qed

lemma canon_mine: "canon o1 G \<Longrightarrow> \<forall>l\<in>set G. mine o1 l"
  by (auto simp: canon_def lock_ok_def mine_def)

text \<open>The other owners' locks stay together when one owner's locks are replaced.\<close>

lemma group_other:
  assumes ls: "X @ R @ B = A' @ G' @ B'" and R: "\<forall>l\<in>set R. mine o1 l" and G: "\<forall>l\<in>set G. mine o1 l"
    and RB: "R = [] \<longrightarrow> B = []" and o2: "o2 \<noteq> o1" and G': "canon o2 G'" "\<forall>l\<in>set A' \<union> set B'. \<not> mine o2 l"
  shows "\<exists>A2 B2. X @ G @ B = A2 @ G' @ B2 \<and> (\<forall>l\<in>set A2 \<union> set B2. \<not> mine o2 l)"
proof -
  have Gno: "\<forall>l\<in>set G. \<not> mine o2 l" using G o2 by (auto simp: mine_def)
  have all: "\<forall>l\<in>set G'. mine o2 l" by (rule canon_mine [OF G'(1)])
  consider "G' = []" | "R = []" "G' \<noteq> []" | "R \<noteq> []" "G' \<noteq> []" by blast
  then show ?thesis
  proof cases
    case 1
    have "\<forall>l\<in>set (X @ R @ B). \<not> mine o2 l" unfolding ls using 1 G'(2) by auto
    then have "\<forall>l\<in>set (X @ G @ B). \<not> mine o2 l" using Gno by auto
    then show ?thesis using 1 by (intro exI [of _ "X @ G @ B"] exI [of _ "[]"]) simp
  next
    case 2
    then have "X @ G @ B = A' @ G' @ B' @ G" using RB ls by simp
    then show ?thesis using Gno G'(2) by (intro exI [of _ A'] exI [of _ "B' @ G"]) auto
  next
    case 3
    have "\<forall>x\<in>set A' \<union> set G' \<union> set B'. mine o1 x \<longrightarrow> x \<notin> set G'" using all o2 by (auto simp: mine_def)
    from segment_disjoint [OF ls 3 R this] show ?thesis
    proof (elim disjE exE)
      fix C assume C: "X = A' @ G' @ C"
      have "\<forall>l\<in>set C \<union> set B. \<not> mine o2 l"
      proof -
        have "C @ R @ B = B'" using ls C by simp
        then show ?thesis using G'(2) by auto
      qed
      then show ?thesis using C Gno G'(2) by (intro exI [of _ A'] exI [of _ "C @ G @ B"]) auto
    next
      fix C assume C: "B = C @ G' @ B'"
      have "X @ R @ C = A'" using ls C by simp
      then have "\<forall>l\<in>set X \<union> set C. \<not> mine o2 l" using G'(2) by auto
      then show ?thesis using C Gno G'(2) by (intro exI [of _ "X @ G @ C"] exI [of _ B']) auto
    qed
  qed
qed

lemma held_covers:
  assumes "ls = X @ G @ B" "canon o1 G" "\<forall>l\<in>set X \<union> set B. \<not> mine o1 l"
  shows "held ls o1 b t = covers G b t"
  using group_splitI [OF assms] by (simp add: held_def)

lemma compatible_held:
  assumes inv: "\<forall>l\<in>set ls. fl_kind l = FL_POSIX \<longrightarrow> lock_ok (fl_owner l) l"
  shows "compatible ls \<longleftrightarrow> (\<forall>o1 o2 b t1 t2. o1 \<noteq> o2 \<longrightarrow> held ls o1 b t1 \<longrightarrow> held ls o2 b t2 \<longrightarrow> t1 \<noteq> F_WRLCK \<and> t2 \<noteq> F_WRLCK)"
    (is "_ \<longleftrightarrow> ?R")
proof
  assume c: "compatible ls"
  show ?R
  proof (intro allI impI)
    fix o1 o2 b t1 t2 assume n: "o1 \<noteq> o2" and h: "held ls o1 b t1" "held ls o2 b t2"
    obtain l1 where l1: "l1 \<in> set ls" "mine o1 l1" "fl_start l1 \<le> b" "b \<le> fl_end l1" "fl_type l1 = t1"
      using h(1) by (auto simp: held_def covers_def)
    obtain l2 where l2: "l2 \<in> set ls" "mine o2 l2" "fl_start l2 \<le> b" "b \<le> fl_end l2" "fl_type l2 = t2"
      using h(2) by (auto simp: held_def covers_def)
    have "\<not> posix_locks_conflict l1 l2" using c l1 l2 by (simp add: compatible_def mine_def)
    then show "t1 \<noteq> F_WRLCK \<and> t2 \<noteq> F_WRLCK" using l1 l2 n
      by (auto simp: posix_locks_conflict_def mine_def posix_same_owner_def locks_overlap_def locks_conflict_def)
  qed
next
  assume R: ?R
  show "compatible ls"
    unfolding compatible_def
  proof (intro ballI impI notI)
    fix l1 l2 assume l: "l1 \<in> set ls" "l2 \<in> set ls" "fl_kind l1 = FL_POSIX" and cf: "posix_locks_conflict l1 l2"
    let ?b = "max (fl_start l1) (fl_start l2)"
    have l2: "fl_kind l2 = FL_POSIX" "fl_owner l1 \<noteq> fl_owner l2" "locks_overlap l1 l2" "locks_conflict l1 l2"
      using cf by (auto simp: posix_locks_conflict_def posix_same_owner_def)
    have se: "fl_start l1 \<le> fl_end l1" "fl_start l2 \<le> fl_end l2"
      using inv l l2(1) by (auto simp: lock_ok_def)
    have "held ls (fl_owner l1) ?b (fl_type l1)"
      unfolding held_def covers_def using l l2 se by (intro bexI [of _ l1]) (auto simp: mine_def locks_overlap_def)
    moreover have "held ls (fl_owner l2) ?b (fl_type l2)"
      unfolding held_def covers_def using l l2 se by (intro bexI [of _ l2]) (auto simp: mine_def locks_overlap_def)
    ultimately show False using R l2 by (auto simp: locks_conflict_def)
  qed
qed

lemma last_iff:
  "(\<forall>l\<in>set (dropWhile (\<lambda>l. \<not> P l) (xs @ ys)). P l) \<longleftrightarrow>
     (if \<exists>l\<in>set xs. P l then (\<forall>l\<in>set (dropWhile (\<lambda>l. \<not> P l) xs). P l) \<and> (\<forall>l\<in>set ys. P l)
      else \<forall>l\<in>set (dropWhile (\<lambda>l. \<not> P l) ys). P l)"
proof (cases "\<exists>l\<in>set xs. P l")
  case True
  then obtain x where "x \<in> set xs" "\<not> \<not> P x" by auto
  then have "dropWhile (\<lambda>l. \<not> P l) (xs @ ys) = dropWhile (\<lambda>l. \<not> P l) xs @ ys" by (rule dropWhile_append1)
  then show ?thesis using True by (simp add: ball_Un)
next
  case False
  then have "\<And>x. x \<in> set xs \<Longrightarrow> \<not> P x" by auto
  then have "dropWhile (\<lambda>l. \<not> P l) (xs @ ys) = dropWhile (\<lambda>l. \<not> P l) ys" by (rule dropWhile_append2)
  then show ?thesis using False by simp
qed

lemma last_none: "\<not> (\<exists>l\<in>set xs. P l) \<Longrightarrow> \<forall>l\<in>set (dropWhile (\<lambda>l. \<not> P l) xs). P l"
  using dropWhile_eq_Nil_conv [of "\<lambda>l. \<not> P l" xs] by (metis empty_iff list.set(1))

lemma last_all: "\<forall>l\<in>set xs. P l \<Longrightarrow> \<forall>l\<in>set (dropWhile (\<lambda>l. \<not> P l) xs). P l"
  by (auto dest: set_dropWhileD)

lemma last_append:
  assumes "\<forall>l\<in>set (dropWhile (\<lambda>l. \<not> P l) xs). P l" "\<forall>l\<in>set ys. P l"
  shows "\<forall>l\<in>set (dropWhile (\<lambda>l. \<not> P l) (xs @ ys)). P l"
  unfolding last_iff using assms last_all [OF assms(2)] by presburger

lemma last_appendD:
  assumes "\<forall>l\<in>set (dropWhile (\<lambda>l. \<not> P l) (xs @ ys)). P l"
  shows "\<forall>l\<in>set (dropWhile (\<lambda>l. \<not> P l) xs). P l"
    and "(\<exists>l\<in>set xs. P l) \<Longrightarrow> \<forall>l\<in>set ys. P l"
  using assms last_none [of xs P] unfolding last_iff by presburger+

lemma list_inv_lock_ok:
  assumes "list_inv ls" "l \<in> set ls" "fl_kind l = FL_POSIX"
  shows "lock_ok (fl_owner l) l"
proof -
  obtain A G B where "ls = A @ G @ B" "canon (fl_owner l) G" "\<forall>x\<in>set A \<union> set B. \<not> mine (fl_owner l) x"
    by (rule list_inv_group [OF assms(1)])
  then show ?thesis using assms(2,3) by (auto simp: mine_def canon_def)
qed

text \<open>The effect on the table of held locks.\<close>

definition override_held :: "file_lock \<Rightarrow> file_lock list \<Rightarrow> file_lock list \<Rightarrow> bool" where
  "override_held q ls ls' \<longleftrightarrow>
     (\<forall>o1 b t. held ls' o1 b t \<longleftrightarrow>
        (if o1 = fl_owner q \<and> in_range q b then fl_type q \<noteq> F_UNLCK \<and> t = fl_type q else held ls o1 b t))"

lemma override_held_replace:
  assumes R: "canon o1 R" and G: "canon o1 G" and q: "fl_owner q = o1" and ov: "overridden q R G"
    and XB: "\<forall>l\<in>set X \<union> set B. \<not> mine o1 l"
  shows "override_held q (X @ R @ B) (X @ G @ B)"
  unfolding override_held_def
proof (intro allI)
  fix o2 b t
  show "held (X @ G @ B) o2 b t \<longleftrightarrow>
      (if o2 = fl_owner q \<and> in_range q b then fl_type q \<noteq> F_UNLCK \<and> t = fl_type q else held (X @ R @ B) o2 b t)"
  proof (cases "o2 = o1")
    case True
    then show ?thesis
      using held_covers [OF refl G XB] held_covers [OF refl R XB] ov q by (simp add: overridden_def)
  next
    case False
    have "filter (mine o2) G = []" "filter (mine o2) R = []"
      using False canon_mine [OF R] canon_mine [OF G] by (auto simp: filter_empty_conv mine_def)
    then show ?thesis using False q by (simp add: held_def)
  qed
qed

lemma list_inv_replace:
  assumes inv: "list_inv (X @ R @ B)" and R: "canon o1 R" and G: "canon o1 G" and q: "fl_owner q = o1"
    and ov: "overridden q R G" and XB: "\<forall>l\<in>set X \<union> set B. \<not> mine o1 l" and RB: "R = [] \<longrightarrow> B = []"
    and nc: "fl_type q \<noteq> F_UNLCK \<longrightarrow> (\<forall>l\<in>set (X @ R @ B). fl_kind l = FL_POSIX \<longrightarrow> \<not> posix_locks_conflict q l)"
  shows "list_inv (X @ G @ B)"
  unfolding list_inv_iff
proof (intro conjI allI)
  let ?P = "\<lambda>l. fl_kind l = FL_POSIX"
  have pl: "\<forall>l\<in>set (dropWhile (\<lambda>l. \<not> ?P l) (X @ R @ B)). ?P l" using inv unfolding list_inv_def by (elim conjE)
  have GP: "\<forall>l\<in>set G. ?P l" and RP: "\<forall>l\<in>set R. ?P l"
    using canon_mine [OF G] canon_mine [OF R] by (auto simp: mine_def)
  have "\<forall>l\<in>set B. ?P l"
  proof (cases R)
    case (Cons r R')
    have "\<exists>l\<in>set (X @ R). ?P l" using Cons RP by auto
    then show ?thesis by (rule last_appendD(2) [OF pl [folded append_assoc]])
  qed (use RB in simp)
  then show "\<forall>l\<in>set (dropWhile (\<lambda>l. fl_kind l \<noteq> FL_POSIX) (X @ G @ B)). ?P l"
    by (intro last_append [OF last_appendD(1) [OF pl]]) (use GP in auto)
next
  fix o2
  show "\<exists>A G' B'. X @ G @ B = A @ G' @ B' \<and> canon o2 G' \<and> (\<forall>l\<in>set A \<union> set B'. \<not> mine o2 l)"
  proof (cases "o2 = o1")
    case True
    then show ?thesis using G XB by blast
  next
    case False
    obtain A' G' B' where s: "X @ R @ B = A' @ G' @ B'" "canon o2 G'" "\<forall>x\<in>set A' \<union> set B'. \<not> mine o2 x"
      by (rule list_inv_group [OF inv])
    show ?thesis using group_other [OF s(1) canon_mine [OF R] canon_mine [OF G] RB False s(2,3)] s(2) by blast
  qed
next
  have cp: "compatible (X @ R @ B)" using inv unfolding list_inv_def by (elim conjE)
  have ok: "\<forall>l\<in>set (X @ R @ B). fl_kind l = FL_POSIX \<longrightarrow> lock_ok (fl_owner l) l"
    using list_inv_lock_ok [OF inv] by blast
  then have ok': "\<forall>l\<in>set (X @ G @ B). fl_kind l = FL_POSIX \<longrightarrow> lock_ok (fl_owner l) l"
    using G by (auto simp: canon_def lock_ok_def)
  have old: "o2 \<noteq> o3 \<Longrightarrow> held (X @ R @ B) o2 b t2 \<Longrightarrow> held (X @ R @ B) o3 b t3 \<Longrightarrow> t2 \<noteq> F_WRLCK \<and> t3 \<noteq> F_WRLCK" for o2 o3 b t2 t3
    using cp unfolding compatible_held [OF ok] by blast
  have new: "t2 \<noteq> F_WRLCK \<and> fl_type q \<noteq> F_WRLCK"
    if n: "o2 \<noteq> o1" "held (X @ R @ B) o2 b t2" "in_range q b" "fl_type q \<noteq> F_UNLCK" for o2 b t2
  proof -
    obtain l where l: "l \<in> set (X @ R @ B)" "mine o2 l" "fl_start l \<le> b" "b \<le> fl_end l" "fl_type l = t2"
      using n(2) unfolding held_def covers_def set_filter by blast
    then have "\<not> posix_locks_conflict q l" using nc n(4) by (simp add: mine_def)
    then show ?thesis using l(2-5) n(1,3) q
      by (auto simp: mine_def posix_locks_conflict_def posix_same_owner_def locks_overlap_def locks_conflict_def in_range_def)
  qed
  note oh = override_held_replace [OF R G q ov XB, unfolded override_held_def, rule_format]
  show "compatible (X @ G @ B)"
    unfolding compatible_held [OF ok']
  proof (intro allI impI)
    fix o2 o3 b t2 t3 assume n: "o2 \<noteq> o3" and h: "held (X @ G @ B) o2 b t2" "held (X @ G @ B) o3 b t3"
    show "t2 \<noteq> F_WRLCK \<and> t3 \<noteq> F_WRLCK"
    proof (cases "in_range q b \<and> (o2 = o1 \<or> o3 = o1)")
      case True
      then show ?thesis
        using h n q new [of o2 b t2] new [of o3 b t3] unfolding oh by (elim conjE disjE) simp_all
    next
      case False
      then have "held (X @ R @ B) o2 b t2" "held (X @ R @ B) o3 b t3" using h q unfolding oh by (auto split: if_splits)
      then show ?thesis by (rule old [OF n])
    qed
  qed
qed


text \<open>The structures the allocator returns are not in use.\<close>

definition mem_ok :: "nat option \<Rightarrow> nat option \<Rightarrow> lock_state \<Rightarrow> bool" where
  "mem_ok mem1 mem2 s \<longleftrightarrow>
     (set_option mem1 \<union> set_option mem2) \<inter> fl_id ` set (i_flock s @ i_others s) = {} \<and>
     set_option mem1 \<inter> set_option mem2 = {}"

lemma still_blocks_grown:
  assumes "grown l l'" "still_blocks w l" "fl_kind l = FL_POSIX"
  shows "still_blocks w l'"
  using assms
  by (auto simp: grown_def still_blocks_def posix_locks_conflict_def posix_same_owner_def locks_overlap_def locks_conflict_def)

lemma distinct_replace:
  assumes "distinct (xs @ ys @ zs)" "distinct gs" "set gs \<subseteq> set ys \<union> N" "N \<inter> set (xs @ zs) = {}"
  shows "distinct (xs @ gs @ zs)"
  using assms by auto

section \<open>Which memory a request needs\<close>

text \<open>
  The loop of \<open>__posix_lock_file\<close> as far as the return value depends on it. A lock of the owner is split if the
  request, of another type, lies strictly inside it. A lock is reused if it has the type of the request and
  touches it, or lies inside it; for an unlock it is enough that it overlaps.
\<close>

definition splits :: "file_lock \<Rightarrow> file_lock list \<Rightarrow> bool" where
  "splits q R \<longleftrightarrow> (\<exists>l\<in>set R. fl_type l \<noteq> fl_type q \<and> fl_start l < fl_start q \<and> fl_end q < fl_end l)"

definition reused :: "file_lock \<Rightarrow> file_lock \<Rightarrow> bool" where
  "reused q l \<longleftrightarrow>
     (if fl_type l = fl_type q then fl_start q - 1 \<le> fl_end l \<and> fl_start l - 1 \<le> fl_end q
      else if fl_type q = F_UNLCK then fl_start q \<le> fl_end l \<and> fl_start l \<le> fl_end q
      else fl_start q \<le> fl_start l \<and> fl_end l \<le> fl_end q)"

lemma scan_owner_added: "ps_added s \<Longrightarrow> ps_added (scan_owner ls s)"
  by (induction ls s rule: scan_owner.induct) (auto simp: Let_def set_req_range_def)

lemma set_req_range_sel [simp]:
  "ps_added (set_req_range st e s) = ps_added s" "ps_left (set_req_range st e s) = ps_left s"
  "ps_right (set_req_range st e s) = ps_right s" "ps_waiters (set_req_range st e s) = ps_waiters s"
  "ps_req (set_req_range st e s) = (ps_req s)\<lparr>fl_start := st, fl_end := e\<rparr>"
  by (simp_all add: set_req_range_def)

lemma scan_owner_other: "B = [] \<or> fl_owner (hd B) \<noteq> fl_owner (ps_req s) \<Longrightarrow> scan_owner B s = s\<lparr>ps_rest := B\<rparr>"
  by (cases B) (auto simp: posix_same_owner_def)

lemma scan_owner_reuse:
  assumes "canon o1 R" "fl_owner (ps_req s) = o1" "B = [] \<or> fl_owner (hd B) \<noteq> o1" "\<not> ps_added s"
    "fl_start (ps_req s) \<le> fl_end (ps_req s)"
  shows "(ps_added (scan_owner (R @ B) s) \<longleftrightarrow> (\<exists>l\<in>set R. reused (ps_req s) l)) \<and>
    (\<not> ps_added (scan_owner (R @ B) s) \<longrightarrow> ps_req (scan_owner (R @ B) s) = ps_req s)"
  using assms
proof (induction R arbitrary: s)
  case Nil
  then show ?case by (simp add: scan_owner_other)
next
  case (Cons r R)
  have r: "lock_ok o1 r" "\<forall>x\<in>set R. apart r x" "canon o1 R" using Cons.prems(1) by (auto simp: canon_Cons)
  have own: "posix_same_owner (ps_req s) r" using r(1) Cons.prems(2) by (simp add: lock_ok_def posix_same_owner_def)
  have le: "fl_start r \<le> fl_end r" using r(1) by (simp add: lock_ok_def)
  let ?q = "ps_req s"
  have far: "\<not> reused ?q l" if "fl_end ?q < fl_end r" "l \<in> set R" for l
  proof -
    have "fl_end r < fl_start l" "fl_start l \<le> fl_end l"
      using that r(2,3) by (auto simp: apart_def canon_def lock_ok_def)
    then show ?thesis using that(1) by (auto simp: reused_def)
  qed
  have IH: "(ps_added (scan_owner (R @ B) t) \<longleftrightarrow> (\<exists>l\<in>set R. reused ?q l)) \<and>
      (\<not> ps_added (scan_owner (R @ B) t) \<longrightarrow> ps_req (scan_owner (R @ B) t) = ?q)"
    if "ps_req t = ?q" "\<not> ps_added t" for t
    using Cons.IH [of t] r(3) Cons.prems that by simp
  consider (reuse) "reused ?q r"
    | (skip) "\<not> reused ?q r" "fl_end r < fl_start ?q" | (stop) "\<not> reused ?q r" "fl_end ?q < fl_end r"
    | (left) "\<not> reused ?q r" "fl_start ?q \<le> fl_end r" "fl_end r \<le> fl_end ?q" by linarith
  then show ?case
  proof cases
    case reuse
    then have "ps_added (scan_owner ((r # R) @ B) s)"
      using own le Cons.prems(4) by (auto simp: reused_def Let_def scan_owner_added split: if_splits)
    with reuse show ?thesis by simp
  next
    case skip
    then show ?thesis
      using own IH [of "s\<lparr>ps_pre := ps_pre s @ [r]\<rparr>"] Cons.prems(4) le Cons.prems(5)
      by (auto simp: reused_def Let_def split: if_splits)
  next
    case stop
    have "\<not> ps_added (scan_owner ((r # R) @ B) s) \<and> ps_req (scan_owner ((r # R) @ B) s) = ?q"
      using stop own Cons.prems(4) Cons.prems(5) IH le by (auto simp: reused_def Let_def split: if_splits)
    with stop far show ?thesis by auto
  next
    case left
    then show ?thesis
      using own IH [of "s\<lparr>ps_added := False, ps_left := Some (fl_id r), ps_pre := ps_pre s @ [r]\<rparr>"] Cons.prems(4) le Cons.prems(5)
      by (auto simp: reused_def Let_def split: if_splits)
  qed
qed

text \<open>The two pieces of a lock that is split are those of one lock: \<open>left == right\<close>.\<close>

definition split_found :: "scan \<Rightarrow> bool" where
  "split_found s \<longleftrightarrow> ps_right s \<noteq> None \<and> ps_left s = ps_right s"

lemma splits_Cons: "splits q (l # R) \<longleftrightarrow>
    (fl_type l \<noteq> fl_type q \<and> fl_start l < fl_start q \<and> fl_end q < fl_end l) \<or> splits q R"
  by (auto simp: splits_def)

lemma scan_owner_split:
  assumes "canon o1 R" "fl_owner (ps_req s) = o1" "B = [] \<or> fl_owner (hd B) \<noteq> o1" "ps_right s = None"
    "fl_start (ps_req s) \<le> fl_end (ps_req s)" "distinct (map fl_id R)" "\<forall>a\<in>fl_id ` set R. ps_left s \<noteq> Some a"
  shows "split_found (scan_owner (R @ B) s) \<longleftrightarrow> splits (ps_req s) R"
  using assms
proof (induction R arbitrary: s)
  case Nil
  then show ?case by (simp add: scan_owner_other split_found_def splits_def)
next
  case (Cons r R)
  let ?q = "ps_req s"
  have r: "lock_ok o1 r" "canon o1 R" using Cons.prems(1) by (auto simp: canon_Cons)
  have own: "posix_same_owner ?q r" "fl_owner r = o1" using r(1) Cons.prems(2) by (auto simp: lock_ok_def posix_same_owner_def)
  have le: "fl_start r \<le> fl_end r" using r(1) by (simp add: lock_ok_def)
  have above: "fl_end r < fl_start x" if "x \<in> set R" for x using that Cons.prems(1) by (auto simp: canon_Cons apart_def)
  have tail: "\<not> splits q R" if "fl_start q \<le> fl_end r + 1" for q
    using that above by (force simp: splits_def)
  have left: "ps_left s \<noteq> Some (fl_id r)" "\<forall>a\<in>fl_id ` set R. ps_left s \<noteq> Some a" "fl_id r \<notin> fl_id ` set R"
    using Cons.prems(6,7) by auto
  have IH: "split_found (scan_owner (R @ B) t) \<longleftrightarrow> splits (ps_req t) R"
    if "fl_owner (ps_req t) = o1" "ps_right t = None" "fl_start (ps_req t) \<le> fl_end (ps_req t)"
      "ps_left t = ps_left s \<or> ps_left t = Some (fl_id r)" for t
  proof (rule Cons.IH [OF r(2) that(1) Cons.prems(3) that(2,3)])
    show "\<forall>a\<in>fl_id ` set R. ps_left t \<noteq> Some a" using that(4) left by auto
  qed (use Cons.prems(6) in simp)
  consider (skip) "fl_end r < fl_start ?q - 1 \<or> fl_type r \<noteq> fl_type ?q \<and> fl_end r < fl_start ?q"
    | (merge) "fl_type r = fl_type ?q" "fl_start ?q - 1 \<le> fl_end r"
    | (diff) "fl_type r \<noteq> fl_type ?q" "fl_start ?q \<le> fl_end r" by linarith
  then show ?case
  proof cases
    case skip
    then have low: "fl_type ?q = fl_type r \<Longrightarrow> fl_end r < fl_start ?q - 1" "fl_end r < fl_start ?q" by auto
    then have "scan_owner ((r # R) @ B) s = scan_owner (R @ B) (s\<lparr>ps_pre := ps_pre s @ [r]\<rparr>)"
      using own by (cases "fl_type ?q = fl_type r") (simp_all add: Let_def split del: if_split)
    moreover have "splits ?q (r # R) \<longleftrightarrow> splits ?q R" using low(2) Cons.prems(5) by (simp add: splits_Cons)
    ultimately show ?thesis
      using IH [of "s\<lparr>ps_pre := ps_pre s @ [r]\<rparr>"] Cons.prems(2,4,5) by simp
  next
    case merge
    let ?st = "if fl_start ?q < fl_start r then fl_start ?q else fl_start r"
    let ?e = "if fl_end r < fl_end ?q then fl_end ?q else fl_end r"
    have no_split: "\<not> splits ?q (r # R)" using merge tail [of ?q] by (simp add: splits_Cons)
    have cont: "\<not> split_found (scan_owner (R @ B) t)"
      if "fl_owner (ps_req t) = o1" "ps_right t = None" "fl_start (ps_req t) = ?st" "fl_end (ps_req t) = ?e"
        "ps_left t = ps_left s" for t
      using IH [of t] that merge tail [of "ps_req t"] le Cons.prems(5) by (auto split: if_splits)
    have "\<not> split_found (scan_owner ((r # R) @ B) s)"
    proof (cases "fl_start r - 1 > fl_end ?q")
      case True
      then show ?thesis using own merge Cons.prems(4) by (simp add: split_found_def)
    next
      case False
      with cont own merge Cons.prems(2,4) show ?thesis
        by (cases "ps_added s") (simp_all add: Let_def split del: if_split)
    qed
    with no_split show ?thesis by simp
  next
    case diff
    have t: "\<not> splits ?q R" using diff tail [of ?q] by simp
    have cont: "\<not> split_found (scan_owner (R @ B) t)"
      if "fl_owner (ps_req t) = o1" "ps_right t = None" "fl_start (ps_req t) = fl_start ?q" "fl_end (ps_req t) = fl_end ?q"
        "ps_left t = ps_left s \<or> ps_left t = Some (fl_id r)" for t
      using IH [of t] that diff tail [of "ps_req t"] Cons.prems(5) by auto
    consider "fl_end ?q < fl_start r" | "fl_start r \<le> fl_end ?q" "fl_end ?q < fl_end r"
      | "fl_start r \<le> fl_end ?q" "fl_end r \<le> fl_end ?q" by linarith
    then show ?thesis
    proof cases
      case 1
      then show ?thesis using diff t own Cons.prems(4,5) by (auto simp: Let_def split_found_def splits_Cons)
    next
      case 2
      then show ?thesis using diff t own left(1) by (auto simp: Let_def split_found_def splits_Cons)
    next
      case 3
      then have "\<not> split_found (scan_owner ((r # R) @ B) s)"
        using own diff Cons.prems(2,4) by (auto simp: Let_def cont)
      with 3 diff t show ?thesis by (auto simp: splits_Cons)
    qed
  qed
qed

lemma posix_finish_ret:
  "fst (posix_finish ex n1 n2 sc) =
     (if split_found sc \<and> n2 = None then Failed ENOLCK
      else if ps_added sc then Locked
      else if fl_type (ps_req sc) = F_UNLCK then (if ex then Failed ENOENT else Locked)
      else if n1 = None then Failed ENOLCK else Locked)"
  by (simp add: posix_finish_def split_found_def Let_def)

text \<open>The locks of the owner on the list, in one piece between those of others.\<close>

lemma posix_skip_group:
  assumes inv: "locks_inv s" and q: "req_ok o1 q"
  obtains X B where "i_flock s = X @ filter (mine o1) (i_flock s) @ B"
    and "posix_skip q (i_flock s) = (X, filter (mine o1) (i_flock s) @ B)"
    and "canon o1 (filter (mine o1) (i_flock s))" and "B = [] \<or> fl_owner (hd B) \<noteq> o1"
    and "\<forall>l\<in>set X \<union> set B. \<not> mine o1 l" and "filter (mine o1) (i_flock s) = [] \<longrightarrow> B = []"
proof -
  have li: "list_inv (i_flock s)" using inv by (auto simp: locks_inv_def)
  have o1: "fl_owner q = o1" using q by (simp add: req_ok_def)
  have pred: "(\<lambda>fl. fl_kind fl \<noteq> FL_POSIX \<or> \<not> posix_same_owner q fl) = (\<lambda>l. \<not> mine o1 l)"
    using o1 by (auto simp: mine_def posix_same_owner_def fun_eq_iff)
  define X where "X = takeWhile (\<lambda>l. \<not> mine o1 l) (i_flock s)"
  define R where "R = filter (mine o1) (i_flock s)"
  obtain B where ls0: "i_flock s = X @ R @ B" and Bno: "\<forall>l\<in>set B. \<not> mine o1 l" and cR: "canon o1 R"
    using group_ok_split [OF li, of o1] unfolding X_def R_def by blast
  have Xno: "\<forall>l\<in>set X. \<not> mine o1 l" unfolding X_def by (auto dest: set_takeWhileD)
  have "takeWhile (\<lambda>l. \<not> mine o1 l) (i_flock s) @ dropWhile (\<lambda>l. \<not> mine o1 l) (i_flock s) = X @ R @ B"
    using ls0 by (simp only: takeWhile_dropWhile_id)
  then have "X @ dropWhile (\<lambda>l. \<not> mine o1 l) (i_flock s) = X @ R @ B" unfolding X_def .
  then have dw: "dropWhile (\<lambda>l. \<not> mine o1 l) (i_flock s) = R @ B" by (simp only: same_append_eq)
  then have skip: "posix_skip q (i_flock s) = (X, R @ B)"
    unfolding posix_skip_def pred X_def by simp
  have RB: "R = [] \<longrightarrow> B = []"
  proof
    assume R: "R = []"
    then have "\<forall>l\<in>set (i_flock s). \<not> mine o1 l" unfolding R_def by (simp add: filter_empty_conv)
    then have "X = i_flock s" unfolding X_def by (simp add: takeWhile_eq_all_conv)
    then show "B = []" using ls0 R by simp
  qed
  have BP: "\<forall>l\<in>set B. fl_kind l = FL_POSIX"
  proof (cases R)
    case (Cons r R')
    have "\<exists>l\<in>set (X @ R). fl_kind l = FL_POSIX" using Cons canon_mine [OF cR] by (auto simp: mine_def)
    moreover have "\<forall>l\<in>set (dropWhile (\<lambda>l. fl_kind l \<noteq> FL_POSIX) ((X @ R) @ B)). fl_kind l = FL_POSIX"
      using li unfolding list_inv_def ls0 append_assoc by (elim conjE)
    ultimately show ?thesis by (rule last_appendD(2) [rotated])
  qed (use RB in simp)
  have B: "B = [] \<or> fl_owner (hd B) \<noteq> o1"
    using Bno BP by (cases B) (auto simp: mine_def)
  show ?thesis
    by (rule that [of X B, folded R_def, OF ls0 skip cR B _ RB]) (use Xno Bno in blast)
qed

lemma posix_ret:
  assumes inv: "locks_inv s" and q: "req_ok o1 q"
  defines "R \<equiv> filter (mine o1) (i_flock s)"
  shows "fst (posix_finish ex n1 n2 (scan_owner (snd (posix_skip q (i_flock s)))
      \<lparr>ps_pre = fst (posix_skip q (i_flock s)), ps_rest = rs, ps_req = q, ps_alias = None, ps_added = False,
       ps_left = None, ps_right = None, ps_waiters = ws\<rparr>)) =
     (if splits q R \<and> n2 = None then Failed ENOLCK
      else if \<exists>l\<in>set R. reused q l then Locked
      else if fl_type q = F_UNLCK then (if ex then Failed ENOENT else Locked)
      else if n1 = None then Failed ENOLCK else Locked)"
proof -
  obtain X B where skip: "i_flock s = X @ R @ B" "posix_skip q (i_flock s) = (X, R @ B)" "canon o1 R"
      "B = [] \<or> fl_owner (hd B) \<noteq> o1"
    by (rule posix_skip_group [OF inv q, folded R_def])
  have q': "fl_owner q = o1" "fl_start q \<le> fl_end q" using q by (auto simp: req_ok_def)
  have "distinct (map fl_id R)" using inv skip(1) by (auto simp: locks_inv_def)
  define t where "t = \<lparr>ps_pre = X, ps_rest = rs, ps_req = q, ps_alias = None, ps_added = False,
       ps_left = None, ps_right = None, ps_waiters = ws\<rparr>"
  have t: "ps_req t = q" "ps_added t = False" "ps_left t = None" "ps_right t = None" by (simp_all add: t_def)
  have "split_found (scan_owner (R @ B) t) \<longleftrightarrow> splits q R"
    using scan_owner_split [OF skip(3), of t B] q' skip(4) \<open>distinct (map fl_id R)\<close> by (simp add: t)
  moreover have "ps_added (scan_owner (R @ B) t) \<longleftrightarrow> (\<exists>l\<in>set R. reused q l)"
      "\<not> ps_added (scan_owner (R @ B) t) \<longrightarrow> ps_req (scan_owner (R @ B) t) = q"
    using scan_owner_reuse [OF skip(3), of t B] q' skip(4) by (simp_all add: t)
  ultimately show ?thesis unfolding skip(2) fst_conv snd_conv t_def [symmetric] posix_finish_ret by auto
qed

section \<open>Applying a request\<close>

lemma posix_apply:
  assumes inv: "locks_inv s" and q: "req_ok o1 q" and mem: "mem_ok n1 n2 s"
    and nc: "fl_type q \<noteq> F_UNLCK \<longrightarrow> (\<forall>l\<in>set (i_flock s). fl_kind l = FL_POSIX \<longrightarrow> \<not> posix_locks_conflict q l)"
    and res: "posix_finish ex n1 n2 (scan_owner (snd (posix_skip q (i_flock s)))
      \<lparr>ps_pre = fst (posix_skip q (i_flock s)), ps_rest = rs, ps_req = q, ps_alias = None, ps_added = False,
       ps_left = None, ps_right = None, ps_waiters = waiters s\<rparr>) = (ret, ls, ws)"
  shows "locks_inv (s\<lparr>i_flock := ls, waiters := ws\<rparr>) \<and>
    filter (\<lambda>l. \<not> mine o1 l) ls = filter (\<lambda>l. \<not> mine o1 l) (i_flock s) \<and>
    (ret = Locked \<longrightarrow> override_held q (i_flock s) ls) \<and>
    (ret \<noteq> Locked \<longrightarrow> ls = i_flock s \<and> ws = waiters s \<and> fail_ok q ex n1 n2 (filter (mine o1) (i_flock s)) ret)"
proof -
  have dis: "distinct (map fl_id (i_flock s @ i_others s))" and li: "list_inv (i_flock s)" and wi: "waiters_inv s"
    using inv by (auto simp: locks_inv_def)
  have o1: "fl_owner q = o1" using q by (simp add: req_ok_def)
  define R where "R = filter (mine o1) (i_flock s)"
  obtain X B where ls0: "i_flock s = X @ R @ B" and skip: "posix_skip q (i_flock s) = (X, R @ B)"
    and cR: "canon o1 R" and B: "B = [] \<or> fl_owner (hd B) \<noteq> o1"
    and XB: "\<forall>l\<in>set X \<union> set B. \<not> mine o1 l" and RB: "R = [] \<longrightarrow> B = []"
    by (rule posix_skip_group [OF inv q, folded R_def])
  have ids: "distinct (map fl_id (X @ R @ B))" using dis ls0 by auto
  have fr: "set_option n1 \<inter> fl_id ` set (X @ R @ B) = {}" "set_option n2 \<inter> fl_id ` set (X @ R @ B) = {}"
    "set_option n1 \<inter> set_option n2 = {}" "(set_option n1 \<union> set_option n2) \<inter> fl_id ` set (i_flock s @ i_others s) = {}"
    using mem unfolding mem_ok_def ls0 by auto
  have "scan_result o1 q ex n1 n2 R X B (waiters s) (ret, ls, ws)"
    using scan_start [OF cR q ids B fr(1,2,3), of ex "waiters s" rs] res unfolding skip by simp
  then obtain G D where
    r: "ls = X @ G @ B" "ws = filter (\<lambda>w. wt_blocker w \<notin> D) (waiters s)"
    and l: "ret = Locked \<longrightarrow> owner_post o1 q R (set_option n1 \<union> set_option n2) G D"
    and f: "ret \<noteq> Locked \<longrightarrow> G = R \<and> D = {} \<and> fail_ok q ex n1 n2 R ret"
    unfolding scan_result_def by (elim exE conjE) (simp add: that)
  show ?thesis
  proof (cases "ret = Locked")
    case False
    then have "ls = i_flock s" "ws = waiters s" using f r ls0 by auto
    then show ?thesis using False f inv unfolding R_def by simp
  next
    case True
    have P: "canon o1 G" "overridden q R G" "distinct (map fl_id G)"
      "fl_id ` set G \<subseteq> fl_id ` set R \<union> (set_option n1 \<union> set_option n2)"
      "\<forall>l\<in>set R. fl_id l \<in> D \<or> (\<exists>l'\<in>set G. grown l l')"
      using l True by (simp_all add: owner_post_def)
    have ov: "override_held q (i_flock s) ls"
      unfolding ls0 r(1) by (rule override_held_replace [OF cR P(1) o1 P(2) XB])
    have li': "list_inv ls"
      unfolding r(1) by (rule list_inv_replace [OF _ cR P(1) o1 P(2) XB RB]) (use li nc ls0 in auto)
    have dis': "distinct (map fl_id (ls @ i_others s))"
    proof -
      have "distinct (map fl_id X @ map fl_id R @ map fl_id (B @ i_others s))" using dis ls0 by simp
      then have "distinct (map fl_id X @ map fl_id G @ map fl_id (B @ i_others s))"
        by (rule distinct_replace [OF _ P(3), of _ _ _ "set_option n1 \<union> set_option n2"])
          (use P(4) fr(4) ls0 in auto)
      then show ?thesis unfolding r(1) by simp
    qed
    have "\<exists>l\<in>set (ls @ i_others s). still_blocks w l" if w: "w \<in> set ws" for w
    proof -
      have w': "w \<in> set (waiters s)" "wt_blocker w \<notin> D" using w r(2) by auto
      then obtain l where l: "l \<in> set (i_flock s @ i_others s)" "still_blocks w l"
        using wi unfolding waiters_inv_def by blast
      show ?thesis
      proof (cases "l \<in> set R")
        case R: True
        have "fl_id l \<notin> D" using l(2) w'(2) by (simp add: still_blocks_def)
        then obtain l' where "l' \<in> set G" "grown l l'" using P(5) R by blast
        moreover have "fl_kind l = FL_POSIX" using R cR by (auto simp: canon_def lock_ok_def)
        ultimately show ?thesis using still_blocks_grown l(2) unfolding r(1) by auto
      next
        case False
        then show ?thesis using l ls0 unfolding r(1) by auto
      qed
    qed
    moreover have "distinct (map (\<lambda>w. fl_id (wt_lock w)) ws)"
      using wi unfolding waiters_inv_def r(2) by (simp add: distinct_map_filter)
    ultimately have "waiters_inv (s\<lparr>i_flock := ls, waiters := ws\<rparr>)" by (simp add: waiters_inv_def)
    moreover have "filter (\<lambda>l. \<not> mine o1 l) G = []" "filter (\<lambda>l. \<not> mine o1 l) R = []"
      using canon_mine [OF P(1)] canon_mine [OF cR] by (simp_all add: filter_empty_conv)
    then have "filter (\<lambda>l. \<not> mine o1 l) ls = filter (\<lambda>l. \<not> mine o1 l) (i_flock s)"
      unfolding r(1) ls0 by simp
    ultimately show ?thesis using True ov li' dis' by (simp add: locks_inv_def)
  qed
qed

section \<open>The system call\<close>

definition conflict_with :: "file_lock \<Rightarrow> file_lock list \<Rightarrow> bool" where
  "conflict_with q ls \<longleftrightarrow> fl_type q \<noteq> F_UNLCK \<and> (\<exists>l\<in>set ls. fl_kind l = FL_POSIX \<and> posix_locks_conflict q l)"

definition not_waiting :: "file_lock \<Rightarrow> lock_state \<Rightarrow> bool" where
  "not_waiting q s \<longleftrightarrow> fl_id q \<notin> (\<lambda>w. fl_id (wt_lock w)) ` set (waiters s)"

text \<open>The conflict of \<open>__posix_lock_file\<close> as it looks for it, and the part after it.\<close>

definition first_conflict :: "file_lock \<Rightarrow> file_lock list \<Rightarrow> file_lock option" where
  "first_conflict q ls =
     (if fl_type q \<noteq> F_UNLCK then find (\<lambda>fl. fl_kind fl = FL_POSIX \<and> posix_locks_conflict q fl) ls else None)"

lemma first_conflict_None: "first_conflict q ls = None \<longleftrightarrow> \<not> conflict_with q ls"
  by (auto simp: first_conflict_def conflict_with_def find_None_iff)

lemma first_conflict_Some:
  "first_conflict q ls = Some fl \<Longrightarrow>
     fl_type q \<noteq> F_UNLCK \<and> fl \<in> set ls \<and> fl_kind fl = FL_POSIX \<and> posix_locks_conflict q fl"
  by (auto simp: first_conflict_def find_Some_iff split: if_splits)

definition needs_mem :: "lock_request \<Rightarrow> bool" where
  "needs_mem request \<longleftrightarrow> \<not> rq_access request \<and>
     (fl_type (rq_lock request) \<noteq> F_UNLCK \<or> fl_start (rq_lock request) \<noteq> 0 \<or> fl_end (rq_lock request) \<noteq> OFFSET_MAX)"

lemma raw_posix_lock_file_conflict:
  assumes "first_conflict (rq_lock request) (i_flock s) = Some fl" "not_waiting (rq_lock request) s"
  shows "raw_posix_lock_file mem1 mem2 request s =
    Some (if \<not> rq_sleep request then (Failed EAGAIN, Some fl, s)
      else if posix_locks_deadlock (waiters s) (rq_lock request) fl then (Failed EDEADLK, Some fl, s)
      else (Deferred, Some fl, s\<lparr>waiters := \<lparr>wt_lock = rq_lock request, wt_blocker = fl_id fl,
        wt_blocker_owner = fl_owner fl, wt_posix = (fl_kind fl = FL_POSIX)\<rparr> # waiters s\<rparr>))"
  using assms unfolding raw_posix_lock_file_def Let_def first_conflict_def [symmetric] locks_insert_block_def not_waiting_def
  by (auto simp: image_iff)

lemma raw_posix_lock_file_free:
  assumes "\<not> conflict_with (rq_lock request) (i_flock s)"
  shows "raw_posix_lock_file mem1 mem2 request s =
    (if rq_access request then Some (Locked, None, s)
     else let q = rq_lock request;
        (ret, ls, ws) = posix_finish (rq_exists request) (if needs_mem request then mem1 else None)
          (if needs_mem request then mem2 else None)
          (scan_owner (snd (posix_skip q (i_flock s))) \<lparr>ps_pre = fst (posix_skip q (i_flock s)),
            ps_rest = snd (posix_skip q (i_flock s)), ps_req = q, ps_alias = None, ps_added = False,
            ps_left = None, ps_right = None, ps_waiters = waiters s\<rparr>)
      in Some (ret, None, s\<lparr>i_flock := ls, waiters := ws\<rparr>))"
  using assms unfolding first_conflict_None [symmetric] raw_posix_lock_file_def Let_def first_conflict_def [symmetric] needs_mem_def
  by (simp add: posix_skip_def)

lemma posix_lock_file_cases:
  assumes inv: "locks_inv s" and q: "req_ok (fl_owner q) q" and mem: "mem_ok mem1 mem2 s"
    and nw: "conflict_with q (i_flock s) \<longrightarrow> not_waiting q s" and rq: "rq_lock request = q"
  obtains
    (blocked) ret fl s' where "raw_posix_lock_file mem1 mem2 request s = Some (ret, Some fl, s')"
      "first_conflict q (i_flock s) = Some fl" "i_flock s' = i_flock s" "locks_inv s'"
      "ret = (if \<not> rq_sleep request then Failed EAGAIN
        else if posix_locks_deadlock (waiters s) q fl then Failed EDEADLK else Deferred)"
  | (test) "raw_posix_lock_file mem1 mem2 request s = Some (Locked, None, s)"
      "\<not> conflict_with q (i_flock s)" "rq_access request"
  | (applied) ls ws where "raw_posix_lock_file mem1 mem2 request s = Some (Locked, None, s\<lparr>i_flock := ls, waiters := ws\<rparr>)"
      "\<not> conflict_with q (i_flock s)" "\<not> rq_access request" "locks_inv (s\<lparr>i_flock := ls, waiters := ws\<rparr>)"
      "override_held q (i_flock s) ls"
      "filter (\<lambda>l. \<not> mine (fl_owner q) l) ls = filter (\<lambda>l. \<not> mine (fl_owner q) l) (i_flock s)"
  | (failed) ret where "raw_posix_lock_file mem1 mem2 request s = Some (ret, None, s)" "ret \<noteq> Locked"
      "\<not> conflict_with q (i_flock s)" "\<not> rq_access request"
      "fail_ok q (rq_exists request) (if needs_mem request then mem1 else None)
          (if needs_mem request then mem2 else None) (filter (mine (fl_owner q)) (i_flock s)) ret"
proof (cases "first_conflict q (i_flock s)")
  case (Some fl)
  note c = first_conflict_Some [OF Some]
  have nw': "not_waiting q s" using nw c by (auto simp: conflict_with_def)
  let ?w = "\<lparr>wt_lock = q, wt_blocker = fl_id fl, wt_blocker_owner = fl_owner fl, wt_posix = (fl_kind fl = FL_POSIX)\<rparr>"
  have "still_blocks ?w fl" using c by (simp add: still_blocks_def)
  then have iw: "locks_inv (s\<lparr>waiters := ?w # waiters s\<rparr>)"
    using inv c nw' unfolding locks_inv_def waiters_inv_def not_waiting_def by auto
  have c1: "first_conflict (rq_lock request) (i_flock s) = Some fl" using Some rq by simp
  have nw1: "not_waiting (rq_lock request) s" using nw' rq by simp
  note e = raw_posix_lock_file_conflict [OF c1 nw1, of mem1 mem2, unfolded rq]
  consider "\<not> rq_sleep request" | "rq_sleep request" "posix_locks_deadlock (waiters s) q fl"
    | "rq_sleep request" "\<not> posix_locks_deadlock (waiters s) q fl" by blast
  then show ?thesis
  proof cases
    case 1
    show ?thesis by (rule blocked [of "Failed EAGAIN" fl s]) (use 1 e Some inv in simp_all)
  next
    case 2
    show ?thesis by (rule blocked [of "Failed EDEADLK" fl s]) (use 2 e Some inv in simp_all)
  next
    case 3
    show ?thesis by (rule blocked [of Deferred fl "s\<lparr>waiters := ?w # waiters s\<rparr>"]) (use 3 e Some iw in simp_all)
  qed
next
  case None
  then have nc: "\<not> conflict_with q (i_flock s)" by (simp add: first_conflict_None)
  have nc1: "\<not> conflict_with (rq_lock request) (i_flock s)" using nc rq by simp
  note e = raw_posix_lock_file_free [OF nc1, of mem1 mem2, unfolded rq]
  show ?thesis
  proof (cases "rq_access request")
    case True
    then show ?thesis using test e nc by simp
  next
    case False
    let ?n1 = "if needs_mem request then mem1 else None" and ?n2 = "if needs_mem request then mem2 else None"
    obtain ret ls ws where fin: "posix_finish (rq_exists request) ?n1 ?n2
        (scan_owner (snd (posix_skip q (i_flock s))) \<lparr>ps_pre = fst (posix_skip q (i_flock s)),
            ps_rest = snd (posix_skip q (i_flock s)), ps_req = q, ps_alias = None, ps_added = False,
            ps_left = None, ps_right = None, ps_waiters = waiters s\<rparr>) = (ret, ls, ws)"
      by (rule prod_cases3)
    have res: "raw_posix_lock_file mem1 mem2 request s = Some (ret, None, s\<lparr>i_flock := ls, waiters := ws\<rparr>)"
      unfolding e Let_def fin using False by simp
    have mem': "mem_ok ?n1 ?n2 s" using mem by (auto simp: mem_ok_def)
    have nc': "fl_type q \<noteq> F_UNLCK \<longrightarrow> (\<forall>l\<in>set (i_flock s). fl_kind l = FL_POSIX \<longrightarrow> \<not> posix_locks_conflict q l)"
      using nc unfolding conflict_with_def by blast
    note P = posix_apply [OF inv q mem' nc' fin]
    show ?thesis
    proof (cases "ret = Locked")
      case True
      show ?thesis by (rule applied [where ls = ls and ws = ws]) (use True res nc False P in simp_all)
    next
      case F: False
      then have "s\<lparr>i_flock := ls, waiters := ws\<rparr> = s" using P by simp
      then have res': "raw_posix_lock_file mem1 mem2 request s = Some (ret, None, s)" using res by simp
      show ?thesis by (rule failed [OF res' F nc False]) (use P F in blast)
    qed
  qed
qed


text \<open>A file with a write lock of one owner and two read locks, and a request that splits the first.\<close>

definition example_locks :: lock_state where
  "example_locks =
     (let l = (\<lambda>i o1 t a b. (locks_init_lock i)\<lparr>fl_owner := o1, fl_type := t, fl_start := a, fl_end := b\<rparr>)
      in \<lparr>i_flock = [l 1 7 1 0 99, l 2 7 0 200 300, l 3 8 0 250 400], i_others = [], waiters = []\<rparr>)"

definition example_request :: lock_request where
  "example_request =
     \<lparr>rq_lock = (locks_init_lock 50)\<lparr>fl_owner := 7, fl_type := F_UNLCK, fl_start := 10, fl_end := 19\<rparr>,
       rq_access = False, rq_sleep = False, rq_exists = False\<rparr>"

lemma example_ok:
  "locks_inv example_locks" "req_ok (fl_owner (rq_lock example_request)) (rq_lock example_request)"
  "mem_ok (Some 10) (Some 11) example_locks" "not_waiting (rq_lock example_request) example_locks"
  by (simp_all add: example_locks_def example_request_def locks_init_lock_def locks_inv_def list_inv_def group_ok_def
      mine_def canon_def apart_def lock_ok_def compatible_def posix_locks_conflict_def posix_same_owner_def
      locks_overlap_def locks_conflict_def waiters_inv_def req_ok_def mem_ok_def not_waiting_def)

text \<open>
  C15. \<open>__posix_lock_file\<close> on a file whose lock list is well formed. It never hits its \<open>BUG_ON\<close>. When it grants
  a request, the table of locked bytes changes exactly on the requested range and for the
  requesting owner, and every other lock on the list is left alone; when it tests, fails or defers, the list is as before. It does not grant a lock that conflicts with
  one of another owner. In all cases the list stays ordered by owner and offset, disjoint and merged, no two
  owners hold conflicting locks, and every request that is still asleep waits for an existing lock it conflicts
  with, i.e. no wakeup is lost.
\<close>

theorem posix_lock_file_correct:
  assumes "locks_inv s" and "req_ok (fl_owner (rq_lock request)) (rq_lock request)"
    and "mem_ok mem1 mem2 s" and "not_waiting (rq_lock request) s"
  shows "\<exists>ret conf s'. raw_posix_lock_file mem1 mem2 request s = Some (ret, conf, s') \<and> locks_inv s' \<and>
    (ret = Locked \<and> \<not> rq_access request \<longrightarrow> override_held (rq_lock request) (i_flock s) (i_flock s')) \<and>
    (ret = Locked \<longrightarrow> \<not> conflict_with (rq_lock request) (i_flock s)) \<and>
    filter (\<lambda>l. \<not> mine (fl_owner (rq_lock request)) l) (i_flock s') =
      filter (\<lambda>l. \<not> mine (fl_owner (rq_lock request)) l) (i_flock s) \<and>
    (ret \<noteq> Locked \<or> rq_access request \<longrightarrow> i_flock s' = i_flock s)"
proof (rule posix_lock_file_cases [OF assms(1,2,3) impI [OF assms(4)] refl], goal_cases)
  case (1 ret fl s')
  have "ret \<noteq> Locked" using 1(5) by simp
  then show ?thesis using 1(1,3,4) by auto
next
  case 2
  then show ?thesis using assms(1) by auto
next
  case (3 ls ws)
  then show ?thesis by auto
next
  case (4 ret)
  then show ?thesis using assms(1) by auto
qed

theorem posix_lock_file_correct_witness:
  "\<exists>ret conf s'. raw_posix_lock_file (Some 10) (Some 11) example_request example_locks = Some (ret, conf, s') \<and> locks_inv s' \<and>
    (ret = Locked \<and> \<not> rq_access example_request \<longrightarrow>
       override_held (rq_lock example_request) (i_flock example_locks) (i_flock s')) \<and>
    (ret = Locked \<longrightarrow> \<not> conflict_with (rq_lock example_request) (i_flock example_locks)) \<and>
    filter (\<lambda>l. \<not> mine (fl_owner (rq_lock example_request)) l) (i_flock s') =
      filter (\<lambda>l. \<not> mine (fl_owner (rq_lock example_request)) l) (i_flock example_locks) \<and>
    (ret \<noteq> Locked \<or> rq_access example_request \<longrightarrow> i_flock s' = i_flock example_locks)"
  by (rule posix_lock_file_correct [OF example_ok])

text \<open>The owner reached after \<open>k\<close> steps along the chain of waiting owners.\<close>

fun waits_chain :: "waiter list \<Rightarrow> nat \<Rightarrow> nat \<Rightarrow> nat option" where
  "waits_chain ws owner 0 = Some owner"
| "waits_chain ws owner (Suc k) =
     (case what_owner_is_waiting_for ws owner of None \<Rightarrow> None | Some o2 \<Rightarrow> waits_chain ws o2 k)"

lemma deadlock_loop_iff:
  "deadlock_loop ws caller owner n \<longleftrightarrow> (\<exists>k. 1 \<le> k \<and> k \<le> n \<and> waits_chain ws owner k = Some caller)"
proof (induction n arbitrary: owner)
  case 0
  then show ?case by (auto split: option.splits)
next
  case (Suc n)
  show ?case
  proof (cases "what_owner_is_waiting_for ws owner")
    case None
    have "waits_chain ws owner k = None" if "1 \<le> k" for k using None that by (cases k) auto
    then show ?thesis using None by auto
  next
    case (Some o2)
    have "(\<exists>k. 1 \<le> k \<and> k \<le> Suc n \<and> waits_chain ws owner k = Some caller) \<longleftrightarrow>
      (\<exists>k. k \<le> n \<and> waits_chain ws o2 k = Some caller)" (is "?L \<longleftrightarrow> ?R")
    proof
      assume ?L
      then obtain k where k: "1 \<le> k" "k \<le> Suc n" "waits_chain ws owner k = Some caller" by blast
      then obtain j where "k = Suc j" by (cases k) auto
      then show ?R using k Some by auto
    next
      assume ?R
      then obtain k where k: "k \<le> n" "waits_chain ws o2 k = Some caller" by blast
      then show ?L using Some by (intro exI [of _ "Suc k"]) simp
    qed
    also have "\<dots> \<longleftrightarrow> caller = o2 \<or> (\<exists>k. 1 \<le> k \<and> k \<le> n \<and> waits_chain ws o2 k = Some caller)"
    proof -
      have "(k \<le> n \<and> waits_chain ws o2 k = Some caller) \<longleftrightarrow>
        (k = 0 \<and> caller = o2) \<or> (1 \<le> k \<and> k \<le> n \<and> waits_chain ws o2 k = Some caller)" for k by (cases k) auto
      then show ?thesis by auto
    qed
    finally show ?thesis using Some Suc.IH [of o2] by simp
  qed
qed

lemma unlock_reused_iff:
  assumes "canon o1 R" "fl_type q = F_UNLCK" "fl_start q \<le> fl_end q"
  shows "(\<exists>l\<in>set R. reused q l) \<longleftrightarrow> (\<exists>b t. in_range q b \<and> covers R b t)"
proof
  assume "\<exists>l\<in>set R. reused q l"
  then obtain l where l: "l \<in> set R" "reused q l" by blast
  then have ok: "fl_start l \<le> fl_end l" "fl_type l \<noteq> F_UNLCK" using assms(1) by (auto simp: canon_def lock_ok_def)
  have "in_range q (max (fl_start q) (fl_start l))" "covers R (max (fl_start q) (fl_start l)) (fl_type l)"
    using l ok assms(2,3) by (auto simp: reused_def in_range_def covers_def intro!: bexI [of _ l])
  then show "\<exists>b t. in_range q b \<and> covers R b t" by blast
next
  assume "\<exists>b t. in_range q b \<and> covers R b t"
  then obtain b l where l: "l \<in> set R" "fl_start q \<le> b" "b \<le> fl_end q" "fl_start l \<le> b" "b \<le> fl_end l"
    by (auto simp: in_range_def covers_def)
  then show "\<exists>l\<in>set R. reused q l" using assms(2) by (auto simp: reused_def intro!: bexI [of _ l])
qed

text \<open>The return value without a conflict.\<close>

lemma posix_lock_file_free_ret:
  assumes inv: "locks_inv s" and q: "req_ok (fl_owner q) q" and rq: "rq_lock request = q"
    and nc: "\<not> conflict_with q (i_flock s)" and na: "\<not> rq_access request"
  defines "R \<equiv> filter (mine (fl_owner q)) (i_flock s)"
  shows "\<exists>ret s'. raw_posix_lock_file mem1 mem2 request s = Some (ret, None, s') \<and>
     ret = (if splits q R \<and> mem2 = None then Failed ENOLCK
      else if fl_type q = F_UNLCK
      then (if rq_exists request \<and> \<not> (\<exists>b t. in_range q b \<and> held (i_flock s) (fl_owner q) b t) then Failed ENOENT else Locked)
      else if (\<exists>l\<in>set R. reused q l) \<or> mem1 \<noteq> None then Locked else Failed ENOLCK)"
proof -
  have nc1: "\<not> conflict_with (rq_lock request) (i_flock s)" using nc rq by simp
  obtain X B where cR: "canon (fl_owner q) R" by (rule posix_skip_group [OF inv q, folded R_def])
  have sp: "needs_mem request" if sp: "splits q R"
  proof -
    obtain l where "l \<in> set R" "fl_start l < fl_start q" using sp by (auto simp: splits_def)
    then have "0 < fl_start q" using cR by (auto simp: canon_def lock_ok_def)
    then show ?thesis using rq na by (simp add: needs_mem_def)
  qed
  have lk: "needs_mem request" if "fl_type q \<noteq> F_UNLCK" using that rq na by (simp add: needs_mem_def)
  have un: "(\<exists>l\<in>set R. reused q l) \<longleftrightarrow> (\<exists>b t. in_range q b \<and> held (i_flock s) (fl_owner q) b t)"
    if "fl_type q = F_UNLCK"
    using unlock_reused_iff [OF cR that] q unfolding held_def R_def by (simp add: req_ok_def)
  let ?n1 = "if needs_mem request then mem1 else None" and ?n2 = "if needs_mem request then mem2 else None"
  obtain ret ls ws where fin: "posix_finish (rq_exists request) ?n1 ?n2
      (scan_owner (snd (posix_skip q (i_flock s))) \<lparr>ps_pre = fst (posix_skip q (i_flock s)),
          ps_rest = snd (posix_skip q (i_flock s)), ps_req = q, ps_alias = None, ps_added = False,
          ps_left = None, ps_right = None, ps_waiters = waiters s\<rparr>) = (ret, ls, ws)"
    by (rule prod_cases3)
  have "raw_posix_lock_file mem1 mem2 request s = Some (ret, None, s\<lparr>i_flock := ls, waiters := ws\<rparr>)"
    unfolding raw_posix_lock_file_free [OF nc1, of mem1 mem2, unfolded rq] Let_def fin using na by simp
  moreover have "ret = (if splits q R \<and> ?n2 = None then Failed ENOLCK
      else if \<exists>l\<in>set R. reused q l then Locked
      else if fl_type q = F_UNLCK then (if rq_exists request then Failed ENOENT else Locked)
      else if ?n1 = None then Failed ENOLCK else Locked)"
    using posix_ret [OF inv q, of "rq_exists request" ?n1 ?n2 "snd (posix_skip q (i_flock s))" "waiters s"]
    unfolding fin R_def by simp
  ultimately show ?thesis using sp lk un by auto
qed

text \<open>
  C16. What \<open>__posix_lock_file\<close> returns, exactly. If a POSIX lock on the list conflicts with the request,
  the first such lock is reported and the result is \<open>EAGAIN\<close> for a request that may not sleep; for one that may it is
  \<open>EDEADLK\<close> if the chain of waiting owners leads from the holder of that lock to the requesting owner within eleven
  steps, and otherwise the request is deferred. Without a conflict the result is \<open>ENOENT\<close> exactly for an unlock
  with \<open>FL_EXISTS\<close> of a range in which the owner holds nothing, and \<open>ENOLCK\<close> exactly if the request lies strictly
  inside a lock of another type of the owner and the second structure could not be allocated, or if it is a
  lock that can reuse none of the owner's locks and the first could not; otherwise it is granted.
\<close>

theorem posix_lock_file_ret:
  assumes "locks_inv s" and "req_ok (fl_owner q) q" and "not_waiting q s" and "rq_lock request = q"
  shows "\<exists>ret conf s'. raw_posix_lock_file mem1 mem2 request s = Some (ret, conf, s') \<and>
    conf = first_conflict q (i_flock s) \<and>
    (ret = Failed EAGAIN \<longleftrightarrow> conflict_with q (i_flock s) \<and> \<not> rq_sleep request) \<and>
    (ret = Failed EDEADLK \<longleftrightarrow> (\<exists>fl k. conf = Some fl \<and> rq_sleep request \<and> 1 \<le> k \<and> k \<le> 11 \<and>
       waits_chain (waiters s) (fl_owner fl) k = Some (fl_owner q))) \<and>
    (ret = Deferred \<longleftrightarrow> (\<exists>fl. conf = Some fl \<and> rq_sleep request \<and>
       \<not> (\<exists>k. 1 \<le> k \<and> k \<le> 11 \<and> waits_chain (waiters s) (fl_owner fl) k = Some (fl_owner q)))) \<and>
    (ret = Failed ENOENT \<longleftrightarrow> \<not> rq_access request \<and> rq_exists request \<and> fl_type q = F_UNLCK \<and>
       \<not> (\<exists>b t. in_range q b \<and> held (i_flock s) (fl_owner q) b t)) \<and>
    (ret = Failed ENOLCK \<longleftrightarrow> \<not> conflict_with q (i_flock s) \<and> \<not> rq_access request \<and>
       (splits q (filter (mine (fl_owner q)) (i_flock s)) \<and> mem2 = None \<or>
        fl_type q \<noteq> F_UNLCK \<and> \<not> (\<exists>l\<in>set (i_flock s). mine (fl_owner q) l \<and> reused q l) \<and> mem1 = None)) \<and>
    ret \<in> {Locked, Deferred, Failed EAGAIN, Failed EDEADLK, Failed ENOENT, Failed ENOLCK}"
proof (cases "first_conflict q (i_flock s)")
  case (Some fl)
  have c: "conflict_with q (i_flock s)" "fl_type q \<noteq> F_UNLCK"
    using Some first_conflict_None [of q "i_flock s"] first_conflict_Some [OF Some] by auto
  have "not_waiting (rq_lock request) s" "first_conflict (rq_lock request) (i_flock s) = Some fl"
    using assms(3,4) Some by simp_all
  note e = raw_posix_lock_file_conflict [OF this(2,1), of mem1 mem2, unfolded assms(4)]
  have dl: "posix_locks_deadlock (waiters s) q fl \<longleftrightarrow>
      (\<exists>k. 1 \<le> k \<and> k \<le> 11 \<and> waits_chain (waiters s) (fl_owner fl) k = Some (fl_owner q))"
    unfolding posix_locks_deadlock_def by (rule deadlock_loop_iff)
  show ?thesis unfolding e dl using Some c by auto
next
  case None
  then have nc: "\<not> conflict_with q (i_flock s)" by (simp add: first_conflict_None)
  show ?thesis
  proof (cases "rq_access request")
    case True
    then show ?thesis using raw_posix_lock_file_free [of request s mem1 mem2] nc None assms(4) by simp
  next
    case False
    have sp: "(\<exists>b t. in_range q b \<and> held (i_flock s) (fl_owner q) b t)"
      if "splits q (filter (mine (fl_owner q)) (i_flock s))"
      using that assms(2) by (force simp: splits_def req_ok_def in_range_def held_def covers_def)
    from posix_lock_file_free_ret [OF assms(1,2,4) nc False, of mem1 mem2] obtain ret s' where
      r: "raw_posix_lock_file mem1 mem2 request s = Some (ret, None, s')"
      "ret = (if splits q (filter (mine (fl_owner q)) (i_flock s)) \<and> mem2 = None then Failed ENOLCK
      else if fl_type q = F_UNLCK
      then (if rq_exists request \<and> \<not> (\<exists>b t. in_range q b \<and> held (i_flock s) (fl_owner q) b t) then Failed ENOENT else Locked)
      else if (\<exists>l\<in>set (filter (mine (fl_owner q)) (i_flock s)). reused q l) \<or> mem1 \<noteq> None then Locked else Failed ENOLCK)"
      by blast
    show ?thesis
      by (intro exI conjI, rule r(1)) (use r(2) None nc False sp in \<open>auto split: if_splits\<close>)
  qed
qed

text \<open>The request that splits a lock, without memory for the second piece.\<close>

theorem posix_lock_file_ret_witness:
  "\<exists>conf s'. raw_posix_lock_file (Some 10) None example_request example_locks = Some (Failed ENOLCK, conf, s')"
proof -
  have "splits (rq_lock example_request) (filter (mine (fl_owner (rq_lock example_request))) (i_flock example_locks))"
    "\<not> conflict_with (rq_lock example_request) (i_flock example_locks)" "\<not> rq_access example_request"
    by (simp_all add: splits_def example_request_def example_locks_def locks_init_lock_def mine_def conflict_with_def)
  with posix_lock_file_ret [OF example_ok(1,2,4) refl, of "Some 10" None] show ?thesis by blast
qed

end
