(* ===== verification/Lock_Syscalls.thy ===== *)
theory Lock_Syscalls
  imports Posix_Locks
begin

text \<open>
  The rest of \<^verbatim>\<open>fs/locks.c\<close>: FLOCK locks, leases, the \<^verbatim>\<open>fcntl\<close> and \<^verbatim>\<open>flock\<close> calls with their waiting
  loops, mandatory-lock checks, and what is released when a file is closed. The file
  systems' own lock methods are absent (\<open>f_op->lock\<close>, \<open>f_op->flock\<close> and \<open>f_op->setlease\<close> are \<open>NULL\<close>); the security hook, the user
  copies, the allocator and the clock are arguments. A process that sleeps is told by an event
  what it finds when it runs again: the state of the locks, and whether it was woken up or interrupted.
\<close>

section \<open>Waiting\<close>

datatype wait_event =
    Wakeup lock_state "nat option" "nat option"
  | Signal lock_state

datatype wait_ret = Returned lock_ret | Restart | Asleep

text \<open>
  \<open>posix_lock_file_wait\<close>. Where the list of events ends the caller is still asleep.
\<close>

fun posix_lock_file_wait ::
  "wait_event list \<Rightarrow> nat option \<Rightarrow> nat option \<Rightarrow> lock_request \<Rightarrow> lock_state \<Rightarrow> (wait_ret \<times> lock_state) option" where
  "posix_lock_file_wait evs mem1 mem2 request s =
     (case raw_posix_lock_file mem1 mem2 request s of
        None \<Rightarrow> None
      | Some (ret, _, s1) \<Rightarrow>
          if ret \<noteq> Deferred then Some (Returned ret, s1)
          else (case evs of
                  [] \<Rightarrow> Some (Asleep, s1)
                | Signal s2 # _ \<Rightarrow>
                    Some (Restart, s2\<lparr>waiters := raw_locks_delete_block (fl_id (rq_lock request)) (waiters s2)\<rparr>)
                | Wakeup s2 m1 m2 # evs' \<Rightarrow> posix_lock_file_wait evs' m1 m2 request s2))"

definition do_lock_file_wait ::
  "errno option \<Rightarrow> wait_event list \<Rightarrow> nat option \<Rightarrow> nat option \<Rightarrow> lock_request \<Rightarrow> lock_state
     \<Rightarrow> (wait_ret \<times> lock_state) option" where
  "do_lock_file_wait security evs mem1 mem2 request s =
     (case security of
        Some e \<Rightarrow> Some (Returned (Failed e), s)
      | None \<Rightarrow> posix_lock_file_wait evs mem1 mem2 request s)"

definition posix_unblock_lock :: "nat \<Rightarrow> lock_state \<Rightarrow> unit result \<times> lock_state" where
  "posix_unblock_lock waiter s =
     (if \<exists>w\<in>set (waiters s). fl_id (wt_lock w) = waiter
      then (Inr (), s\<lparr>waiters := raw_locks_delete_block waiter (waiters s)\<rparr>)
      else (Inl ENOENT, s))"

section \<open>The fcntl calls\<close>

record open_file =
  of_addr :: nat
  of_read :: bool
  of_write :: bool
  of_pos :: int

text \<open>
  \<open>fcntl_getlk\<close>: \<open>ucopy\<close> is the structure read from user space (\<open>None\<close> for a fault), \<open>ok\<close> whether writing
  it back succeeds.
\<close>

definition fcntl_getlk ::
  "nat \<Rightarrow> nat \<Rightarrow> open_file \<Rightarrow> int \<Rightarrow> flock_arg option \<Rightarrow> bool \<Rightarrow> lock_state \<Rightarrow> flock_arg result" where
  "fcntl_getlk files tgid filp i_size ucopy ok s =
     (case ucopy of
        None \<Rightarrow> Inl EFAULT
      | Some flock \<Rightarrow>
          if l_type flock \<noteq> uint F_RDLCK \<and> l_type flock \<noteq> uint F_WRLCK then Inl EINVAL
          else (case flock_to_posix_lock files tgid (of_addr filp) (of_pos filp) i_size (locks_init_lock 0) flock of
                  Inl e \<Rightarrow> Inl e
                | Inr fl0 \<Rightarrow>
                    let fl = posix_test_lock s fl0;
                        flock1 = flock\<lparr>l_type := uint (fl_type fl)\<rparr>;
                        flock2 = (if fl_type fl \<noteq> F_UNLCK then posix_lock_to_flock flock1 fl else flock1)
                    in if ok then Inr flock2 else Inl EFAULT))"

text \<open>
  One pass of \<open>fcntl_setlk\<close> from the label \<open>again\<close> on, and the whole call: where the descriptor no longer names the
  file after a lock was granted (\<open>same\<close> is false), the call runs again with \<open>F_UNLCK\<close>.
\<close>

definition fcntl_setlk_pass ::
  "nat \<Rightarrow> nat \<Rightarrow> open_file \<Rightarrow> int \<Rightarrow> bool \<Rightarrow> nat \<Rightarrow> errno option \<Rightarrow> wait_event list \<Rightarrow> nat option \<Rightarrow> nat option
     \<Rightarrow> flock_arg \<Rightarrow> lock_state \<Rightarrow> (wait_ret \<times> lock_state) option" where
  "fcntl_setlk_pass files tgid filp i_size setlkw fl_addr security evs mem1 mem2 flock s =
     (case flock_to_posix_lock files tgid (of_addr filp) (of_pos filp) i_size (locks_init_lock fl_addr) flock of
        Inl e \<Rightarrow> Some (Returned (Failed e), s)
      | Inr file_lock \<Rightarrow>
          if l_type flock = uint F_RDLCK \<and> \<not> of_read filp then Some (Returned (Failed EBADF), s)
          else if l_type flock = uint F_WRLCK \<and> \<not> of_write filp then Some (Returned (Failed EBADF), s)
          else do_lock_file_wait security evs mem1 mem2
                 \<lparr>rq_lock = file_lock, rq_access = False, rq_sleep = setlkw, rq_exists = False\<rparr> s)"

definition fcntl_setlk ::
  "nat \<Rightarrow> nat \<Rightarrow> open_file \<Rightarrow> int \<Rightarrow> bool \<Rightarrow> nat option \<Rightarrow> bool \<Rightarrow> errno option \<Rightarrow> errno option \<Rightarrow> bool
     \<Rightarrow> wait_event list \<Rightarrow> nat option \<times> nat option \<Rightarrow> nat option \<times> nat option \<Rightarrow> flock_arg option \<Rightarrow> lock_state
     \<Rightarrow> (wait_ret \<times> lock_state) option" where
  "fcntl_setlk files tgid filp i_size setlkw mem0 mand_mapped security1 security2 same evs mem mem' ucopy s =
     (case mem0 of
        None \<Rightarrow> Some (Returned (Failed ENOLCK), s)
      | Some fl_addr \<Rightarrow>
          (case ucopy of
             None \<Rightarrow> Some (Returned (Failed EFAULT), s)
           | Some flock \<Rightarrow>
               if mand_mapped then Some (Returned (Failed EAGAIN), s)
               else
                 (case fcntl_setlk_pass files tgid filp i_size setlkw fl_addr security1 evs (fst mem) (snd mem) flock s of
                    None \<Rightarrow> None
                  | Some (ret, s1) \<Rightarrow>
                      if ret = Returned Locked \<and> \<not> same \<and> l_type flock \<noteq> uint F_UNLCK
                      then fcntl_setlk_pass files tgid filp i_size setlkw fl_addr security2 [] (fst mem') (snd mem')
                             (flock\<lparr>l_type := uint F_UNLCK\<rparr>) s1
                      else Some (ret, s1))))"

section \<open>Mandatory locks\<close>

definition locks_mandatory_locked :: "nat \<Rightarrow> lock_state \<Rightarrow> unit result" where
  "locks_mandatory_locked owner s =
     (case find (\<lambda>fl. fl_kind fl = FL_POSIX \<and> fl_owner fl \<noteq> owner) (i_flock s) of
        Some _ \<Rightarrow> Inl EAGAIN
      | None \<Rightarrow> Inr ())"

definition mandatory_request :: "nat \<Rightarrow> nat \<Rightarrow> nat \<Rightarrow> bool \<Rightarrow> nat option \<Rightarrow> bool \<Rightarrow> int \<Rightarrow> int \<Rightarrow> lock_request" where
  "mandatory_request files tgid fl_addr verify_write filp nonblock offset count =
     \<lparr>rq_lock = (locks_init_lock fl_addr)\<lparr>fl_owner := files, fl_pid := tgid,
        fl_file := (case filp of None \<Rightarrow> 0 | Some f \<Rightarrow> f), fl_kind := FL_POSIX,
        fl_type := (if verify_write then F_WRLCK else F_RDLCK), fl_start := offset,
        fl_end := s64 (offset + count - 1)\<rparr>,
      rq_access = True, rq_sleep = (filp \<noteq> None \<and> \<not> nonblock), rq_exists = False\<rparr>"

fun locks_mandatory_area ::
  "(lock_state \<Rightarrow> bool) \<Rightarrow> wait_event list \<Rightarrow> lock_request \<Rightarrow> lock_state \<Rightarrow> (wait_ret \<times> lock_state) option" where
  "locks_mandatory_area mandatory evs request s =
     (case raw_posix_lock_file None None request s of
        None \<Rightarrow> None
      | Some (ret, _, s1) \<Rightarrow>
          if ret \<noteq> Deferred then Some (Returned ret, s1)
          else (case evs of
                  [] \<Rightarrow> Some (Asleep, s1)
                | Signal s2 # _ \<Rightarrow>
                    Some (Restart, s2\<lparr>waiters := raw_locks_delete_block (fl_id (rq_lock request)) (waiters s2)\<rparr>)
                | Wakeup s2 m1 m2 # evs' \<Rightarrow>
                    if mandatory s2 then locks_mandatory_area mandatory evs' request s2
                    else Some (Returned Locked,
                           s2\<lparr>waiters := raw_locks_delete_block (fl_id (rq_lock request)) (waiters s2)\<rparr>)))"

definition may_deny :: "bool \<Rightarrow> u8 \<Rightarrow> int \<Rightarrow> int \<Rightarrow> file_lock \<Rightarrow> bool" where
  "may_deny skip_read allow start len fl =
     (case fl_kind fl of
        FL_POSIX \<Rightarrow> \<not> (skip_read \<and> fl_type fl = F_RDLCK) \<and> \<not> (fl_end fl < start \<or> fl_start fl mod 2 ^ 64 > (start + len) mod 2 ^ 64)
      | FL_FLOCK \<Rightarrow> fl_type fl AND LOCK_MAND \<noteq> 0 \<and> fl_type fl AND allow = 0
      | FL_LEASE \<Rightarrow> False)"

definition lock_may_read :: "lock_state \<Rightarrow> int \<Rightarrow> int \<Rightarrow> bool" where
  "lock_may_read s start len = (\<not> list_ex (may_deny True 64 start len) (i_flock s))"

definition lock_may_write :: "lock_state \<Rightarrow> int \<Rightarrow> int \<Rightarrow> bool" where
  "lock_may_write s start len = (\<not> list_ex (may_deny False 128 start len) (i_flock s))"

section \<open>FLOCK locks\<close>

definition locks_delete_lock :: "file_lock \<Rightarrow> lock_state \<Rightarrow> lock_state" where
  "locks_delete_lock fl s =
     s\<lparr>i_flock := filter (\<lambda>l. fl_id l \<noteq> fl_id fl) (i_flock s), waiters := locks_wake_up_blocks fl (waiters s)\<rparr>"

text \<open>Both loops of \<open>flock_lock_file\<close> stop at the first POSIX lock.\<close>

definition not_posix :: "file_lock list \<Rightarrow> file_lock list" where
  "not_posix ls = takeWhile (\<lambda>fl. fl_kind fl \<noteq> FL_POSIX) ls"

definition flock_find_conflict ::
  "nat option \<Rightarrow> lock_request \<Rightarrow> lock_state \<Rightarrow> (lock_ret \<times> lock_state) option" where
  "flock_find_conflict new_fl request s =
     (let rq = rq_lock request in
      case find (\<lambda>fl. fl_kind fl \<noteq> FL_LEASE \<and> flock_locks_conflict rq fl) (not_posix (i_flock s)) of
        Some fl \<Rightarrow>
          if \<not> rq_sleep request then Some (Failed EAGAIN, s)
          else (case locks_insert_block fl rq (waiters s) of
                  None \<Rightarrow> None
                | Some ws \<Rightarrow> Some (Deferred, s\<lparr>waiters := ws\<rparr>))
      | None \<Rightarrow>
          if rq_access request then Some (Locked, s)
          else Some (Locked, s\<lparr>i_flock := not_posix (i_flock s) @
                 locks_copy_lock (locks_init_lock (the new_fl)) rq #
                 dropWhile (\<lambda>fl. fl_kind fl \<noteq> FL_POSIX) (i_flock s)\<rparr>))"

text \<open>
  \<open>flock_lock_file\<close>: \<open>resched\<close> is what happens to the locks while \<open>cond_resched\<close> lets other processes run after the
  old lock was removed.
\<close>

definition flock_lock_file ::
  "(lock_state \<Rightarrow> lock_state) \<Rightarrow> nat option \<Rightarrow> nat \<Rightarrow> lock_request \<Rightarrow> lock_state \<Rightarrow> (lock_ret \<times> lock_state) option" where
  "flock_lock_file resched mem filp request s =
     (let rq = rq_lock request in
      if rq_access request then flock_find_conflict None request s
      else if fl_type rq \<noteq> F_UNLCK \<and> mem = None then Some (Failed ENOMEM, s)
      else
        case find (\<lambda>fl. fl_kind fl \<noteq> FL_LEASE \<and> fl_file fl = filp) (not_posix (i_flock s)) of
          Some fl \<Rightarrow>
            if fl_type rq = fl_type fl then Some (Locked, s)
            else if fl_type rq = F_UNLCK then Some (Locked, locks_delete_lock fl s)
            else flock_find_conflict mem request (resched (locks_delete_lock fl s))
        | None \<Rightarrow>
            if fl_type rq = F_UNLCK then Some (if rq_exists request then Failed ENOENT else Locked, s)
            else flock_find_conflict mem request s)"

text \<open>An event of the \<open>flock\<close> waiting loop has one allocation, its second one is not used.\<close>

fun flock_lock_file_wait ::
  "(lock_state \<Rightarrow> lock_state) \<Rightarrow> wait_event list \<Rightarrow> nat option \<Rightarrow> nat \<Rightarrow> lock_request \<Rightarrow> lock_state
     \<Rightarrow> (wait_ret \<times> lock_state) option" where
  "flock_lock_file_wait resched evs mem filp request s =
     (case flock_lock_file resched mem filp request s of
        None \<Rightarrow> None
      | Some (ret, s1) \<Rightarrow>
          if ret \<noteq> Deferred then Some (Returned ret, s1)
          else (case evs of
                  [] \<Rightarrow> Some (Asleep, s1)
                | Signal s2 # _ \<Rightarrow>
                    Some (Restart, s2\<lparr>waiters := raw_locks_delete_block (fl_id (rq_lock request)) (waiters s2)\<rparr>)
                | Wakeup s2 m _ # evs' \<Rightarrow> flock_lock_file_wait resched evs' m filp request s2))"

text \<open>The system call \<open>flock\<close>: \<open>cmd\<close> has the bit \<open>LOCK_NB\<close> (4) for a call that may not sleep.\<close>

definition sys_flock ::
  "(lock_state \<Rightarrow> lock_state) \<Rightarrow> wait_event list \<Rightarrow> nat \<Rightarrow> open_file option \<Rightarrow> u32 \<Rightarrow> nat option \<Rightarrow> nat option \<Rightarrow> errno option
     \<Rightarrow> lock_state \<Rightarrow> (wait_ret \<times> lock_state) option" where
  "sys_flock resched evs tgid file cmd0 mem0 mem security s =
     (case file of
        None \<Rightarrow> Some (Returned (Failed EBADF), s)
      | Some filp \<Rightarrow>
          let can_sleep = (cmd0 AND 4 = 0); cmd = cmd0 AND NOT 4; unlock = (cmd = 8)
          in if \<not> unlock \<and> cmd AND ucast LOCK_MAND = 0 \<and> \<not> (of_read filp \<or> of_write filp)
             then Some (Returned (Failed EBADF), s)
             else (case flock_make_lock mem0 (of_addr filp) tgid cmd of
                     Inl e \<Rightarrow> Some (Returned (Failed e), s)
                   | Inr lock \<Rightarrow>
                       (case security of
                          Some e \<Rightarrow> Some (Returned (Failed e), s)
                        | None \<Rightarrow> flock_lock_file_wait resched evs mem (of_addr filp)
                            \<lparr>rq_lock = lock, rq_access = False, rq_sleep = can_sleep, rq_exists = False\<rparr> s)))"

section \<open>Leases\<close>

definition time_before :: "u64 \<Rightarrow> u64 \<Rightarrow> bool" where
  "time_before a b \<longleftrightarrow> sint (a - b) < 0"

definition lease_init :: "nat \<Rightarrow> nat \<Rightarrow> nat \<Rightarrow> u8 \<Rightarrow> file_lock \<Rightarrow> file_lock result" where
  "lease_init files tgid filp ty fl =
     (case assign_type fl (uint ty) of
        Inl _ \<Rightarrow> Inl EINVAL
      | Inr fl1 \<Rightarrow> Inr (fl1\<lparr>fl_owner := files, fl_pid := tgid, fl_file := filp, fl_kind := FL_LEASE,
          fl_start := 0, fl_end := OFFSET_MAX\<rparr>))"

definition lease_alloc :: "nat option \<Rightarrow> nat \<Rightarrow> nat \<Rightarrow> nat \<Rightarrow> u8 \<Rightarrow> file_lock result" where
  "lease_alloc mem files tgid filp ty =
     (case mem of
        None \<Rightarrow> Inl ENOMEM
      | Some a \<Rightarrow> lease_init files tgid filp ty (locks_init_lock a))"

definition lease_modify :: "file_lock \<Rightarrow> u8 \<Rightarrow> lock_state \<Rightarrow> lock_state result" where
  "lease_modify fl arg s =
     (case assign_type fl (uint arg) of
        Inl e \<Rightarrow> Inl e
      | Inr fl1 \<Rightarrow>
          let s1 = s\<lparr>i_flock := upd_lock (fl_id fl) (\<lambda>_. fl1) (i_flock s),
                     waiters := locks_wake_up_blocks fl (waiters s)\<rparr>
          in Inr (if arg = F_UNLCK then locks_delete_lock fl1 s1 else s1))"

text \<open>
  \<open>time_out_leases\<close>: the loop runs over the leases being broken at the head of the list; each is left alone,
  downgraded or removed.
\<close>

fun time_out_loop :: "u64 \<Rightarrow> file_lock list \<Rightarrow> lock_state \<Rightarrow> lock_state" where
  "time_out_loop jiffies [] s = s"
| "time_out_loop jiffies (fl # rest) s =
     (if fl_kind fl = FL_LEASE \<and> fl_type fl AND F_INPROGRESS \<noteq> 0 then
        if fl_break_time fl = 0 \<or> time_before jiffies (fl_break_time fl) then time_out_loop jiffies rest s
        else (case lease_modify fl (fl_type fl AND NOT F_INPROGRESS) s of
                Inl _ \<Rightarrow> time_out_loop jiffies rest s
              | Inr s1 \<Rightarrow> time_out_loop jiffies rest s1)
      else s)"

definition time_out_leases :: "u64 \<Rightarrow> lock_state \<Rightarrow> lock_state" where
  "time_out_leases jiffies s = time_out_loop jiffies (i_flock s) s"

definition leases :: "file_lock list \<Rightarrow> file_lock list" where
  "leases ls = takeWhile (\<lambda>fl. fl_kind fl = FL_LEASE) ls"

definition lease_get_mtime :: "'t \<Rightarrow> 't \<Rightarrow> lock_state \<Rightarrow> 't" where
  "lease_get_mtime now mtime s =
     (case i_flock s of
        flock # _ \<Rightarrow> if fl_kind flock = FL_LEASE \<and> fl_type flock AND F_WRLCK \<noteq> 0 then now else mtime
      | [] \<Rightarrow> mtime)"

definition fcntl_getlease :: "u64 \<Rightarrow> nat \<Rightarrow> lock_state \<Rightarrow> u8 \<times> lock_state" where
  "fcntl_getlease jiffies filp s =
     (let s1 = time_out_leases jiffies s
      in (case find (\<lambda>fl. fl_file fl = filp) (leases (i_flock s1)) of
            Some fl \<Rightarrow> fl_type fl AND NOT F_INPROGRESS
          | None \<Rightarrow> F_UNLCK, s1))"

record lease_env =
  le_owner_or_cap :: bool
  le_isreg :: bool
  le_security :: "errno option"
  le_jiffies :: u64
  le_mem :: "nat option"
  le_writecount :: int
  le_d_count :: int
  le_i_count :: int
  le_enable :: bool

text \<open>\<open>generic_setlease\<close> returns the error and the structure it leaves in \<open>*flp\<close>.\<close>

definition generic_setlease ::
  "lease_env \<Rightarrow> u8 \<Rightarrow> file_lock \<Rightarrow> lock_state \<Rightarrow> file_lock result \<times> lock_state" where
  "generic_setlease env arg lease s0 =
     (if \<not> le_owner_or_cap env then (Inl EACCES, s0)
      else if \<not> le_isreg env then (Inl EINVAL, s0)
      else case le_security env of
        Some e \<Rightarrow> (Inl e, s0)
      | None \<Rightarrow>
          let s = time_out_leases (le_jiffies env) s0;
              ls = leases (i_flock s);
              mine_l = filter (\<lambda>fl. fl_file fl = fl_file lease) ls;
              others = filter (\<lambda>fl. fl_file fl \<noteq> fl_file lease) ls;
              wrlease_count = length (filter (\<lambda>fl. fl_type fl = F_INPROGRESS OR F_UNLCK) others);
              rdlease_count = length (filter (\<lambda>fl. fl_type fl \<noteq> F_INPROGRESS OR F_UNLCK) others)
          in if arg \<noteq> F_UNLCK \<and> le_mem env = None then (Inl ENOMEM, s)
             else if arg = F_RDLCK \<and> le_writecount env > 0 then (Inl EAGAIN, s)
             else if arg = F_WRLCK \<and> (le_d_count env > 1 \<or> le_i_count env > 1) then (Inl EAGAIN, s)
             else if arg = F_RDLCK \<and> wrlease_count > 0 \<or> arg = F_WRLCK \<and> rdlease_count + wrlease_count > 0
             then (Inl EAGAIN, s)
             else if mine_l \<noteq> [] then
               (case lease_modify (last mine_l) arg s of
                  Inl e \<Rightarrow> (Inl e, s)
                | Inr s1 \<Rightarrow> (Inr ((last mine_l)\<lparr>fl_type := arg\<rparr>), s1))
             else if arg = F_UNLCK then (Inr lease, s)
             else if \<not> le_enable env then (Inl EINVAL, s)
             else
               let new_fl = locks_copy_lock (locks_init_lock (the (le_mem env))) lease
               in (Inr new_fl, s\<lparr>i_flock := ls @ new_fl # drop (length ls) (i_flock s)\<rparr>))"

text \<open>
  \<open>fcntl_setlease\<close>: \<open>fasync\<close> is the result of \<open>fasync_helper\<close> and \<open>setown\<close> that of \<open>__f_setown\<close>. A lease that cannot
  be given a signal owner is expired at once.
\<close>

definition fcntl_setlease ::
  "nat \<Rightarrow> nat \<Rightarrow> lease_env \<Rightarrow> u64 \<Rightarrow> errno option \<Rightarrow> errno option \<Rightarrow> nat \<Rightarrow> u8 \<Rightarrow> lock_state \<Rightarrow> unit result \<times> lock_state" where
  "fcntl_setlease files tgid env jiffies fasync setown filp arg s =
     (case lease_init files tgid filp arg (locks_init_lock 0) of
        Inl e \<Rightarrow> (Inl e, s)
      | Inr fl \<Rightarrow>
          (case generic_setlease env arg fl s of
             (Inl e, s1) \<Rightarrow> (Inl e, s1)
           | (Inr flp, s1) \<Rightarrow>
               if arg = F_UNLCK then (Inr (), s1)
               else (case fasync of
                       Some e \<Rightarrow>
                         (Inl e, time_out_leases jiffies (s1\<lparr>i_flock := upd_lock (fl_id flp)
                            (\<lambda>l. l\<lparr>fl_type := F_UNLCK OR F_INPROGRESS, fl_break_time := jiffies - 10\<rparr>) (i_flock s1)\<rparr>))
                     | None \<Rightarrow> (case setown of Some e \<Rightarrow> (Inl e, s1) | None \<Rightarrow> (Inr (), s1)))))"

text \<open>
  \<open>__break_lease\<close> up to the label \<open>restart\<close>: it returns, or has to wait. \<open>mem\<close> is the allocation of the structure
  it waits with, \<open>hz_break\<close> the break time in ticks (\<open>lease_break_time * HZ\<close>, 0 if there is none).
\<close>

datatype break_step = BreakDone "unit result" lock_state | BreakWait file_lock lock_state

definition future_type :: "bool \<Rightarrow> file_lock \<Rightarrow> u8 option" where
  "future_type want_write flock =
     (if want_write then Some (F_UNLCK OR F_INPROGRESS)
      else if fl_type flock AND F_INPROGRESS \<noteq> 0 then Some (fl_type flock)
      else if fl_type flock AND F_WRLCK \<noteq> 0 then Some (F_RDLCK OR F_INPROGRESS)
      else None)"

definition lease_break_at :: "u64 \<Rightarrow> u64 \<Rightarrow> u64" where
  "lease_break_at hz_break jiffies =
     (if hz_break > 0 then (if jiffies + hz_break = 0 then 1 else jiffies + hz_break) else 0)"

definition mark_leases :: "u8 \<Rightarrow> u64 \<Rightarrow> file_lock list \<Rightarrow> file_lock list" where
  "mark_leases future break_time ls =
     map (\<lambda>fl. if fl_type fl \<noteq> future then fl\<lparr>fl_type := future, fl_break_time := break_time\<rparr> else fl) (leases ls) @
     drop (length (leases ls)) ls"

definition break_lease_start ::
  "nat \<Rightarrow> nat \<Rightarrow> nat option \<Rightarrow> u64 \<Rightarrow> u64 \<Rightarrow> bool \<Rightarrow> bool \<Rightarrow> lock_state \<Rightarrow> break_step" where
  "break_lease_start files tgid mem hz_break jiffies want_write nonblock s0 =
     (let new_fl = lease_alloc mem files tgid 0 (if want_write then F_WRLCK else F_RDLCK);
          s = time_out_leases jiffies s0
      in case leases (i_flock s) of
           [] \<Rightarrow> BreakDone (Inr ()) s
         | flock # _ \<Rightarrow>
             let i_have_this_lease = (\<exists>fl\<in>set (leases (i_flock s)). fl_owner fl = files)
             in case future_type want_write flock of
                  None \<Rightarrow> BreakDone (Inr ()) s
                | Some future \<Rightarrow>
                    (case new_fl of
                       Inl e \<Rightarrow>
                         if \<not> i_have_this_lease \<and> \<not> nonblock then BreakDone (Inl e) s
                         else BreakDone (Inl EAGAIN)
                           (s\<lparr>i_flock := mark_leases future (lease_break_at hz_break jiffies) (i_flock s)\<rparr>)
                     | Inr fl \<Rightarrow>
                         let s1 = s\<lparr>i_flock := mark_leases future (lease_break_at hz_break jiffies) (i_flock s)\<rparr>
                         in if i_have_this_lease \<or> nonblock then BreakDone (Inl EAGAIN) s1
                            else BreakWait fl s1))"

text \<open>
  The loop from \<open>restart\<close> on: the caller blocks on a lease (the first one, then the first that is being
  broken). An event gives the state after the wait and how it ended: interrupted, or resumed, with the
  time if that was because the wait timed out.
\<close>

datatype break_event = BInterrupted lock_state | BResumed lock_state "u64 option"

definition unblock :: "file_lock \<Rightarrow> lock_state \<Rightarrow> lock_state" where
  "unblock fl s = s\<lparr>waiters := raw_locks_delete_block (fl_id fl) (waiters s)\<rparr>"

fun break_lease_wait ::
  "break_event list \<Rightarrow> file_lock \<Rightarrow> file_lock \<Rightarrow> lock_state \<Rightarrow> (wait_ret \<times> lock_state) option" where
  "break_lease_wait [] new_fl flock s =
     map_option (\<lambda>ws. (Asleep, s\<lparr>waiters := ws\<rparr>)) (locks_insert_block flock new_fl (waiters s))"
| "break_lease_wait (ev # evs) new_fl flock s =
     (case locks_insert_block flock new_fl (waiters s) of
        None \<Rightarrow> None
      | Some ws \<Rightarrow>
          (case ev of
             BInterrupted s1 \<Rightarrow> Some (Restart, unblock new_fl s1)
           | BResumed s1 timeout \<Rightarrow>
               let s2 = (case timeout of None \<Rightarrow> unblock new_fl s1 | Some j \<Rightarrow> time_out_leases j (unblock new_fl s1))
               in case find (\<lambda>fl. fl_type fl AND F_INPROGRESS \<noteq> 0) (leases (i_flock s2)) of
                    Some flock' \<Rightarrow> break_lease_wait evs new_fl flock' s2
                  | None \<Rightarrow> Some (Returned Locked, s2)))"

definition raw_break_lease ::
  "nat \<Rightarrow> nat \<Rightarrow> nat option \<Rightarrow> u64 \<Rightarrow> u64 \<Rightarrow> bool \<Rightarrow> bool \<Rightarrow> break_event list \<Rightarrow> lock_state \<Rightarrow> (wait_ret \<times> lock_state) option" where
  "raw_break_lease files tgid mem hz_break jiffies want_write nonblock evs s =
     (case break_lease_start files tgid mem hz_break jiffies want_write nonblock s of
        BreakDone (Inl e) s1 \<Rightarrow> Some (Returned (Failed e), s1)
      | BreakDone (Inr _) s1 \<Rightarrow> Some (Returned Locked, s1)
      | BreakWait new_fl s1 \<Rightarrow> break_lease_wait evs new_fl (hd (i_flock s1)) s1)"

definition break_lease ::
  "nat \<Rightarrow> nat \<Rightarrow> nat option \<Rightarrow> u64 \<Rightarrow> u64 \<Rightarrow> bool \<Rightarrow> bool \<Rightarrow> break_event list \<Rightarrow> lock_state \<Rightarrow> (wait_ret \<times> lock_state) option" where
  "break_lease files tgid mem hz_break jiffies want_write nonblock evs s =
     (if i_flock s \<noteq> [] then raw_break_lease files tgid mem hz_break jiffies want_write nonblock evs s
      else Some (Returned Locked, s))"

section \<open>Closing a file\<close>

definition close_request :: "nat \<Rightarrow> nat \<Rightarrow> nat \<Rightarrow> lock_request" where
  "close_request owner tgid filp =
     \<lparr>rq_lock = (locks_init_lock 0)\<lparr>fl_type := F_UNLCK, fl_kind := FL_POSIX, fl_start := 0, fl_end := OFFSET_MAX,
        fl_owner := owner, fl_pid := tgid, fl_file := filp\<rparr>,
      rq_access = False, rq_sleep = False, rq_exists = False\<rparr>"

definition locks_remove_posix ::
  "nat option \<Rightarrow> nat option \<Rightarrow> nat \<Rightarrow> nat \<Rightarrow> nat \<Rightarrow> lock_state \<Rightarrow> lock_state option" where
  "locks_remove_posix mem1 mem2 filp tgid owner s =
     (if i_flock s = [] then Some s
      else map_option (\<lambda>(_, _, s'). s') (raw_posix_lock_file mem1 mem2 (close_request owner tgid filp) s))"

text \<open>\<open>locks_remove_flock\<close>: a POSIX lock on the file that is closed is a \<open>BUG\<close>.\<close>

fun remove_flock_loop :: "nat \<Rightarrow> file_lock list \<Rightarrow> lock_state \<Rightarrow> lock_state option" where
  "remove_flock_loop filp [] s = Some s"
| "remove_flock_loop filp (fl # rest) s =
     (if fl_file fl = filp then
        (case fl_kind fl of
           FL_FLOCK \<Rightarrow> remove_flock_loop filp rest (locks_delete_lock fl s)
         | FL_LEASE \<Rightarrow>
             (case lease_modify fl F_UNLCK s of
                Inl _ \<Rightarrow> None
              | Inr s1 \<Rightarrow> remove_flock_loop filp rest s1)
         | FL_POSIX \<Rightarrow> None)
      else remove_flock_loop filp rest s)"

definition locks_remove_flock :: "nat \<Rightarrow> lock_state \<Rightarrow> lock_state option" where
  "locks_remove_flock filp s = (if i_flock s = [] then Some s else remove_flock_loop filp (i_flock s) s)"

section \<open>Ranges from user space\<close>

lemma s64_mod: "s64 x = (x + 2 ^ 63) mod 2 ^ 64 - 2 ^ 63"
proof -
  have "s64 x = signed_take_bit 63 x" unfolding s64_def by transfer simp
  also have "\<dots> = take_bit 64 (x + 2 ^ 63) - 2 ^ 63"
    using signed_take_bit_eq_take_bit_shift [of 63 x] by simp
  finally show ?thesis by (simp add: take_bit_eq_mod)
qed

lemma s64_id: "- (2 ^ 63) \<le> x \<Longrightarrow> x < 2 ^ 63 \<Longrightarrow> s64 x = x"
  by (simp add: s64_mod)

lemma s64_high: "2 ^ 63 \<le> x \<Longrightarrow> x < 2 ^ 64 + 2 ^ 63 \<Longrightarrow> s64 x = x - 2 ^ 64"
proof -
  assume x: "2 ^ 63 \<le> x" "x < 2 ^ 64 + 2 ^ 63"
  have "(x + 2 ^ 63) mod 2 ^ 64 = (x + 2 ^ 63 - 2 ^ 64) mod 2 ^ 64" using mod_add_self2 [of "x + 2 ^ 63 - 2 ^ 64" "2 ^ 64"] by (simp add: add.commute)
  also have "\<dots> = x + 2 ^ 63 - 2 ^ 64" using x by (intro mod_pos_pos_trivial) auto
  finally show ?thesis by (simp add: s64_mod)
qed

lemma s64_low: "- (2 ^ 64) \<le> x \<Longrightarrow> x < - (2 ^ 63) \<Longrightarrow> s64 x = x + 2 ^ 64"
proof -
  assume x: "- (2 ^ 64) \<le> x" "x < - (2 ^ 63)"
  have "(x + 2 ^ 63) mod 2 ^ 64 = (x + 2 ^ 63 + 2 ^ 64) mod 2 ^ 64"
    using mod_add_self2 [of "x + 2 ^ 63" "2 ^ 64"] by presburger
  also have "\<dots> = x + 2 ^ 63 + 2 ^ 64" using x by (intro mod_pos_pos_trivial) auto
  finally show ?thesis by (simp add: s64_mod)
qed

definition in_s64 :: "int \<Rightarrow> bool" where
  "in_s64 x \<longleftrightarrow> - (2 ^ 63) \<le> x \<and> x < 2 ^ 63"

text \<open>The range a \<open>struct flock\<close> means, without any overflow: the offset it is relative to is \<open>base\<close>.\<close>

definition flock_range :: "int \<Rightarrow> flock_arg \<Rightarrow> int \<times> int" where
  "flock_range base l =
     (let st = base + l_start l in
      if l_len l > 0 then (st, st + l_len l - 1)
      else if l_len l < 0 then (st + l_len l, st - 1)
      else (st, OFFSET_MAX))"

definition whence_base :: "int \<Rightarrow> int \<Rightarrow> whence \<Rightarrow> int option" where
  "whence_base f_pos i_size wh =
     (case wh of SEEK_SET \<Rightarrow> Some 0 | SEEK_CUR \<Rightarrow> Some f_pos | SEEK_END \<Rightarrow> Some i_size | SEEK_other \<Rightarrow> None)"

definition range_ok :: "int \<Rightarrow> flock_arg \<Rightarrow> bool" where
  "range_ok base l \<longleftrightarrow> 0 \<le> base + l_start l \<and> base + l_start l \<le> OFFSET_MAX \<and>
     0 \<le> fst (flock_range base l) \<and> fst (flock_range base l) \<le> snd (flock_range base l) \<and>
     snd (flock_range base l) \<le> OFFSET_MAX"

definition flock_lock :: "nat \<Rightarrow> nat \<Rightarrow> nat \<Rightarrow> int \<Rightarrow> file_lock \<Rightarrow> flock_arg \<Rightarrow> file_lock" where
  "flock_lock files tgid filp base fl l =
     fl\<lparr>fl_start := fst (flock_range base l), fl_end := snd (flock_range base l), fl_owner := files, fl_pid := tgid,
        fl_file := filp, fl_kind := FL_POSIX, fl_type := word_of_int (l_type l)\<rparr>"

lemma flock_to_posix_lock_base:
  assumes "0 \<le> base" "base \<le> OFFSET_MAX" "in_s64 (l_start l)" "in_s64 (l_len l)"
    and "whence_base f_pos i_size (l_whence l) = Some base"
  shows "flock_to_posix_lock files tgid filp f_pos i_size fl l =
    (if range_ok base l then
       (if l_type l \<in> uint ` {F_RDLCK, F_WRLCK, F_UNLCK}
        then Inr (flock_lock files tgid filp base fl l) else Inl EINVAL)
     else if 0 \<le> base + l_start l \<and> base + l_start l \<le> OFFSET_MAX \<and> l_len l \<ge> 0 then Inl EOVERFLOW else Inl EINVAL)"
proof (cases "0 \<le> base + l_start l \<and> base + l_start l \<le> OFFSET_MAX")
  case False
  have "s64 (base + l_start l) < 0"
  proof (cases "base + l_start l < 0")
    case True
    then show ?thesis using assms by (subst s64_id) (auto simp: in_s64_def)
  next
    case F: False
    then show ?thesis using False assms by (subst s64_high) (auto simp: in_s64_def)
  qed
  then show ?thesis using False assms(5)
    by (cases "l_whence l") (auto simp: flock_to_posix_lock_def whence_base_def range_ok_def)
next
  case True
  then have st: "s64 (base + l_start l) = base + l_start l" by (intro s64_id) auto
  let ?st = "base + l_start l"
  have e: "flock_to_posix_lock files tgid filp f_pos i_size fl l =
     (let e = (if l_len l > 0 then s64 (s64 (?st + l_len l) - 1) else if l_len l < 0 then ?st - 1 else OFFSET_MAX);
          start' = (if l_len l < 0 then s64 (?st + l_len l) else ?st)
      in if l_len l < 0 \<and> start' < 0 then Inl EINVAL
         else if e < start' then Inl EOVERFLOW
         else assign_type (fl\<lparr>fl_start := start', fl_end := e, fl_owner := files, fl_pid := tgid,
                fl_file := filp, fl_kind := FL_POSIX\<rparr>) (l_type l))"
    using True assms(5) st by (cases "l_whence l") (auto simp: flock_to_posix_lock_def whence_base_def Let_def)
  consider "l_len l > 0" "?st + l_len l < 2 ^ 63" | "l_len l > 0" "?st + l_len l = 2 ^ 63" | "l_len l > 0" "?st + l_len l > 2 ^ 63"
    | "l_len l = 0" | "l_len l < 0"
    by linarith
  then show ?thesis
  proof cases
    case 1
    have "s64 (?st + l_len l) = ?st + l_len l" "s64 (?st + l_len l - 1) = ?st + l_len l - 1"
      by (rule s64_id; use 1 True in simp)+
    then show ?thesis unfolding e using 1 True
      by (simp add: range_ok_def flock_range_def assign_type_def flock_lock_def Let_def)
  next
    case 2
    have "s64 (?st + l_len l) = - (2 ^ 63)" using 2 by (subst s64_high) auto
    moreover have "s64 (- (2 ^ 63) - 1) = 2 ^ 63 - 1" by (subst s64_low) auto
    ultimately show ?thesis unfolding e using 2 True
      by (simp add: range_ok_def flock_range_def assign_type_def flock_lock_def Let_def)
  next
    case 3
    have "s64 (?st + l_len l) = ?st + l_len l - 2 ^ 64" using 3 True assms(4) by (subst s64_high) (auto simp: in_s64_def)
    moreover have "s64 (?st + l_len l - 2 ^ 64 - 1) = ?st + l_len l - 2 ^ 64 - 1"
      using 3 True assms(4) by (intro s64_id) (auto simp: in_s64_def)
    ultimately show ?thesis unfolding e using 3 True assms(4)
      by (simp add: range_ok_def flock_range_def Let_def in_s64_def)
  next
    case 4
    then show ?thesis unfolding e using True
      by (simp add: range_ok_def flock_range_def assign_type_def flock_lock_def Let_def)
  next
    case 5
    have "s64 (?st + l_len l) = ?st + l_len l" using 5 True assms(4) by (intro s64_id) (auto simp: in_s64_def)
    then show ?thesis unfolding e using 5 True
      by (simp add: range_ok_def flock_range_def assign_type_def flock_lock_def Let_def)
  qed
qed


text \<open>
  C17. \<open>flock_to_posix_lock\<close> and 64-bit overflow: for every \<open>struct flock\<close> and every file position and size, the call gives
  exactly the range the fields mean when that range and the offset it is counted from lie within \<open>0\<close> and \<open>OFFSET_MAX\<close>
  and the type is valid, a well-formed request in particular, and an error in all other cases, wrap-around included.
\<close>

theorem flock_to_posix_lock_exact:
  assumes "0 \<le> f_pos" "f_pos \<le> OFFSET_MAX" "0 \<le> i_size" "i_size \<le> OFFSET_MAX" "in_s64 (l_start l)" "in_s64 (l_len l)"
  shows "(\<forall>base. whence_base f_pos i_size (l_whence l) = Some base \<longrightarrow>
      range_ok base l \<longrightarrow> l_type l \<in> uint ` {F_RDLCK, F_WRLCK, F_UNLCK} \<longrightarrow>
      flock_to_posix_lock files tgid filp f_pos i_size fl l = Inr (flock_lock files tgid filp base fl l)) \<and>
    (\<forall>r. flock_to_posix_lock files tgid filp f_pos i_size fl l = Inr r \<longrightarrow>
      req_ok files r \<and> (\<exists>base. whence_base f_pos i_size (l_whence l) = Some base \<and> range_ok base l \<and>
        r = flock_lock files tgid filp base fl l))"
proof (cases "whence_base f_pos i_size (l_whence l)")
  case None
  then show ?thesis by (cases "l_whence l") (auto simp: whence_base_def flock_to_posix_lock_def)
next
  case (Some base)
  have b: "0 \<le> base" "base \<le> OFFSET_MAX" using Some assms by (auto simp: whence_base_def split: whence.splits)
  note e = flock_to_posix_lock_base [OF b assms(5,6) Some, of files tgid filp fl]
  have "req_ok files (flock_lock files tgid filp base fl l)" if "range_ok base l" "l_type l \<in> uint ` {F_RDLCK, F_WRLCK, F_UNLCK}"
    using that by (auto simp: req_ok_def flock_lock_def range_ok_def)
  then show ?thesis unfolding e Some by auto
qed

theorem flock_to_posix_lock_exact_witness:
  "flock_to_posix_lock 7 70 3 100 1000 (locks_init_lock 9) \<lparr>l_type = 1, l_whence = SEEK_CUR, l_start = 20, l_len = -50, l_pid = 0\<rparr>
     = Inr ((locks_init_lock 9)\<lparr>fl_start := 70, fl_end := 119, fl_owner := 7, fl_pid := 70, fl_file := 3, fl_type := 1\<rparr>)"
  using conjunct1 [OF flock_to_posix_lock_exact [of 100 1000 "\<lparr>l_type = 1, l_whence = SEEK_CUR, l_start = 20, l_len = -50, l_pid = 0\<rparr>" 7 70 3 "locks_init_lock 9"]]
  by (simp add: in_s64_def whence_base_def range_ok_def flock_range_def flock_lock_def locks_init_lock_def)

text \<open>
  C18. A lock reported to user space and read back is the same lock: \<open>posix_lock_to_flock\<close> followed by
  \<open>flock_to_posix_lock\<close> gives its type and its first and last byte again (for the calling process), locks up to \<open>OFFSET_MAX\<close> included.
\<close>

theorem flock_round_trip:
  assumes "lock_ok o1 l"
  shows "flock_to_posix_lock files tgid filp f_pos i_size fl (posix_lock_to_flock u l) =
    Inr (fl\<lparr>fl_start := fl_start l, fl_end := fl_end l, fl_owner := files, fl_pid := tgid, fl_file := filp,
      fl_kind := FL_POSIX, fl_type := fl_type l\<rparr>)"
proof -
  let ?u = "posix_lock_to_flock u l"
  have l: "0 \<le> fl_start l" "fl_start l \<le> fl_end l" "fl_end l \<le> OFFSET_MAX" "fl_type l = F_RDLCK \<or> fl_type l = F_WRLCK"
    using assms by (auto simp: lock_ok_def)
  have r: "in_s64 (l_start ?u)" "in_s64 (l_len ?u)" "whence_base f_pos i_size (l_whence ?u) = Some 0"
    using l by (auto simp: posix_lock_to_flock_def in_s64_def whence_base_def)
  have f: "flock_range 0 ?u = (fl_start l, fl_end l)" using l by (auto simp: flock_range_def posix_lock_to_flock_def Let_def)
  have "range_ok 0 ?u" using l f by (auto simp: range_ok_def posix_lock_to_flock_def)
  then show ?thesis
    using flock_to_posix_lock_base [OF _ _ r, of files tgid filp fl] f l(4)
    by (auto simp: flock_lock_def posix_lock_to_flock_def)
qed

theorem flock_round_trip_witness:
  "flock_to_posix_lock 7 70 3 0 0 (locks_init_lock 9)
     (posix_lock_to_flock \<lparr>l_type = 2, l_whence = SEEK_END, l_start = 0, l_len = 0, l_pid = 0\<rparr>
        ((locks_init_lock 4)\<lparr>fl_start := 5, fl_end := OFFSET_MAX\<rparr>)) =
   Inr ((locks_init_lock 9)\<lparr>fl_start := 5, fl_end := OFFSET_MAX, fl_owner := 7, fl_pid := 70, fl_file := 3,
      fl_kind := FL_POSIX, fl_type := 0\<rparr>)"
  using flock_round_trip [of 0 "(locks_init_lock 4)\<lparr>fl_start := 5, fl_end := OFFSET_MAX\<rparr>" 7 70 3 0 0 "locks_init_lock 9"]
  by (simp add: lock_ok_def locks_init_lock_def)

section \<open>Deadlock detection\<close>

text \<open>
  C19. The deadlock check always ends and is exact up to its bound: it reports a deadlock if and only if following the
  owners from the blocking lock, each to the owner it waits for, reaches the caller within eleven steps. So it never
  refuses a lock that would not close a cycle, and a longer cycle of waiting processes is not seen.
\<close>

theorem posix_locks_deadlock_exact:
  "posix_locks_deadlock ws caller_fl block_fl \<longleftrightarrow>
     (\<exists>k. 1 \<le> k \<and> k \<le> 11 \<and> waits_chain ws (fl_owner block_fl) k = Some (fl_owner caller_fl))"
  unfolding posix_locks_deadlock_def by (rule deadlock_loop_iff)

section \<open>Closing a file releases its locks\<close>

lemma locks_wake_up_blocks_idem [simp]: "locks_wake_up_blocks fl (locks_wake_up_blocks fl ws) = locks_wake_up_blocks fl ws"
  by (simp add: locks_wake_up_blocks_def)

lemma lease_modify_unlock: "lease_modify fl F_UNLCK s = Inr (locks_delete_lock fl s)"
proof -
  have "filter (\<lambda>l. fl_id l \<noteq> fl_id fl) (upd_lock (fl_id fl) (\<lambda>_. fl\<lparr>fl_type := 2\<rparr>) ls) =
      filter (\<lambda>l. fl_id l \<noteq> fl_id fl) ls" for ls
    by (induction ls) auto
  then show ?thesis
    by (simp add: lease_modify_def assign_type_def locks_delete_lock_def locks_wake_up_blocks_def Let_def)
qed

definition delete_locks :: "nat set \<Rightarrow> lock_state \<Rightarrow> lock_state" where
  "delete_locks D s = s\<lparr>i_flock := filter (\<lambda>l. fl_id l \<notin> D) (i_flock s),
     waiters := filter (\<lambda>w. wt_blocker w \<notin> D) (waiters s)\<rparr>"

lemma locks_delete_lock_eq: "locks_delete_lock fl = delete_locks {fl_id fl}"
  by (simp add: fun_eq_iff locks_delete_lock_def delete_locks_def locks_wake_up_blocks_def)

lemma delete_locks_comp [simp]: "delete_locks D (delete_locks E s) = delete_locks (D \<union> E) s"
  by (simp add: delete_locks_def conj_commute)

lemma delete_locks_empty [simp]: "delete_locks {} s = s"
  by (simp add: delete_locks_def)

lemma remove_flock_loop_eq:
  "\<forall>l\<in>set rest. fl_file l = filp \<longrightarrow> fl_kind l \<noteq> FL_POSIX \<Longrightarrow>
   remove_flock_loop filp rest s = Some (delete_locks (fl_id ` {l \<in> set rest. fl_file l = filp}) s)"
proof (induction rest arbitrary: s)
  case (Cons fl rest)
  have ids: "fl_id ` {l \<in> set (fl # rest). fl_file l = filp} =
      (if fl_file fl = filp then insert (fl_id fl) (fl_id ` {l \<in> set rest. fl_file l = filp})
       else fl_id ` {l \<in> set rest. fl_file l = filp})" by auto
  show ?case
  proof (cases "fl_file fl = filp")
    case True
    have "remove_flock_loop filp (fl # rest) s = remove_flock_loop filp rest (delete_locks {fl_id fl} s)"
      using True Cons.prems lease_modify_unlock [of fl s] by (cases "fl_kind fl") (auto simp: locks_delete_lock_eq)
    then show ?thesis using Cons.IH Cons.prems True unfolding ids by simp
  next
    case False
    then show ?thesis using Cons unfolding ids by simp
  qed
qed simp

lemma filter_last:
  assumes "\<forall>l\<in>set (dropWhile (\<lambda>l. \<not> P l) xs). P l" "\<forall>l\<in>set xs. P l \<longrightarrow> Q l"
  shows "\<forall>l\<in>set (dropWhile (\<lambda>l. \<not> P l) (filter Q xs)). P l"
proof -
  have xs: "filter Q xs = filter Q (takeWhile (\<lambda>l. \<not> P l) xs) @ filter Q (dropWhile (\<lambda>l. \<not> P l) xs)"
    by (simp only: filter_append [symmetric] takeWhile_dropWhile_id)
  have "\<not> (\<exists>l\<in>set (filter Q (takeWhile (\<lambda>l. \<not> P l) xs)). P l)" by (auto dest: set_takeWhileD)
  then have "\<forall>l\<in>set (dropWhile (\<lambda>l. \<not> P l) (filter Q (takeWhile (\<lambda>l. \<not> P l) xs))). P l" by (rule last_none)
  moreover have "\<forall>l\<in>set (filter Q (dropWhile (\<lambda>l. \<not> P l) xs)). P l" using assms(1) unfolding set_filter by blast
  ultimately show ?thesis unfolding xs by (rule last_append)
qed

lemma list_inv_filter:
  assumes inv: "list_inv ls" and P: "\<forall>l\<in>set ls. fl_kind l = FL_POSIX \<longrightarrow> P l"
  shows "list_inv (filter P ls)"
  unfolding list_inv_iff
proof (intro conjI allI)
  have "\<forall>l\<in>set (dropWhile (\<lambda>l. fl_kind l \<noteq> FL_POSIX) ls). fl_kind l = FL_POSIX"
    using inv unfolding list_inv_def by (elim conjE)
  then show "\<forall>l\<in>set (dropWhile (\<lambda>l. fl_kind l \<noteq> FL_POSIX) (filter P ls)). fl_kind l = FL_POSIX"
    by (rule filter_last [OF _ P])
next
  fix o1
  obtain A G B where s: "ls = A @ G @ B" "canon o1 G" "\<forall>x\<in>set A \<union> set B. \<not> mine o1 x"
    by (rule list_inv_group [OF inv])
  have "filter P G = G" using P s(1) canon_mine [OF s(2)] by (auto simp: mine_def)
  then have "filter P ls = filter P A @ G @ filter P B" using s(1) by simp
  then show "\<exists>A G B. filter P ls = A @ G @ B \<and> canon o1 G \<and> (\<forall>l\<in>set A \<union> set B. \<not> mine o1 l)"
    using s(2,3) by (intro exI [of _ "filter P A"] exI [of _ G] exI [of _ "filter P B"]) auto
next
  have "compatible ls" using inv unfolding list_inv_def by (elim conjE)
  then show "compatible (filter P ls)" by (simp add: compatible_def)
qed

lemma delete_locks_inv:
  assumes inv: "locks_inv s" and D: "\<forall>l\<in>set (i_flock s). fl_id l \<in> D \<longrightarrow> fl_kind l \<noteq> FL_POSIX"
    and o: "D \<inter> fl_id ` set (i_others s) = {}"
  shows "locks_inv (delete_locks D s)"
proof -
  have "list_inv (filter (\<lambda>l. fl_id l \<notin> D) (i_flock s))"
    using inv D by (intro list_inv_filter) (auto simp: locks_inv_def)
  moreover have "distinct (map fl_id (filter (\<lambda>l. fl_id l \<notin> D) (i_flock s) @ i_others s))"
    using inv by (auto simp: locks_inv_def distinct_map_filter)
  moreover have "waiters_inv (delete_locks D s)"
    using inv o unfolding locks_inv_def waiters_inv_def
    by (fastforce simp: delete_locks_def distinct_map_filter still_blocks_def)
  ultimately show ?thesis by (simp add: locks_inv_def delete_locks_def)
qed

lemma held_delete_locks:
  assumes "\<forall>l\<in>set (i_flock s). fl_id l \<in> D \<longrightarrow> fl_kind l \<noteq> FL_POSIX"
  shows "held (i_flock (delete_locks D s)) o1 b t = held (i_flock s) o1 b t"
proof -
  have "filter (mine o1) (filter (\<lambda>l. fl_id l \<notin> D) (i_flock s)) = filter (mine o1) (i_flock s)"
    using assms by (auto simp: mine_def intro!: filter_cong)
  then show ?thesis by (simp add: held_def delete_locks_def)
qed


lemma close_posix:
  assumes inv: "locks_inv s"
  shows "\<exists>s1. locks_remove_posix mem1 mem2 filp tgid owner s = Some s1 \<and> locks_inv s1 \<and>
    i_flock s1 = filter (\<lambda>l. \<not> mine owner l) (i_flock s)"
proof (cases "i_flock s = []")
  case True
  then show ?thesis using inv by (intro exI [of _ s]) (simp add: locks_remove_posix_def)
next
  case False
  let ?r = "close_request owner tgid filp" and ?q = "rq_lock (close_request owner tgid filp)"
  have q: "req_ok (fl_owner ?q) ?q" "fl_owner ?q = owner" "fl_type ?q = F_UNLCK" "fl_start ?q = 0" "fl_end ?q = OFFSET_MAX"
    by (simp_all add: req_ok_def close_request_def locks_init_lock_def)
  have nm: "\<not> needs_mem ?r" using q by (simp add: needs_mem_def)
  have nc: "\<not> conflict_with ?q (i_flock s)" using q(3) by (simp add: conflict_with_def)
  have mem: "raw_posix_lock_file mem1 mem2 ?r s = raw_posix_lock_file None None ?r s"
    unfolding raw_posix_lock_file_free [OF nc] using nm by simp
  show ?thesis
  proof (rule posix_lock_file_cases [OF inv q(1), of None None ?r], goal_cases)
    case (4 ret fl s')
    then show ?case using nc first_conflict_None by force
  next
    case 5
    then show ?case by (simp add: close_request_def)
  next
    case (6 ls ws)
    let ?s1 = "s\<lparr>i_flock := ls, waiters := ws\<rparr>"
    have inv1: "list_inv ls" and inv0: "list_inv (i_flock s)" using 6(4) inv by (simp_all add: locks_inv_def)
    have none: "\<not> held ls owner b t" for b t
    proof
      assume h: "held ls owner b t"
      then obtain l where l: "l \<in> set ls" "mine owner l" "fl_start l \<le> b" "b \<le> fl_end l" by (auto simp: held_def covers_def)
      have "in_range ?q b" using list_inv_lock_ok [OF inv1 l(1)] l(2-4) q(4,5) by (auto simp: mine_def lock_ok_def in_range_def)
      then show False using h 6(5) q(2,3) unfolding override_held_def by auto
    qed
    have "filter (mine owner) ls = []"
    proof (rule ccontr)
      assume "filter (mine owner) ls \<noteq> []"
      then obtain l where l: "l \<in> set ls" "mine owner l" by (auto simp: filter_empty_conv)
      then have "held ls owner (fl_start l) (fl_type l)"
        using list_inv_lock_ok [OF inv1 l(1)] by (auto simp: held_def covers_def mine_def lock_ok_def)
      then show False using none by simp
    qed
    then have "filter (\<lambda>l. \<not> mine owner l) ls = ls" by (simp add: filter_empty_conv)
    then have "ls = filter (\<lambda>l. \<not> mine owner l) (i_flock s)" using 6(6) q(2) by simp
    then show ?case using 6(1,4) False mem by (intro exI [of _ ?s1]) (simp add: locks_remove_posix_def)
  next
    case (7 ret)
    then show ?case using nm q by (simp add: fail_ok_def close_request_def)
  qed (use nc in \<open>simp_all add: mem_ok_def\<close>)
qed

text \<open>
  C20. Closing a file: \<open>locks_remove_posix\<close> of the closing owner followed by \<open>locks_remove_flock\<close> always succeeds, without memory and without hitting
  its \<open>BUG\<close>, provided that no other owner holds a POSIX lock through this open file. Afterwards no
  lock taken through the file and no POSIX lock of the owner is left, the locks of all other owners cover the same bytes, and
  nobody is left waiting for a lock that was released.
\<close>

theorem close_releases_locks:
  assumes inv: "locks_inv s"
    and own: "\<forall>l\<in>set (i_flock s). fl_file l = filp \<longrightarrow> fl_kind l = FL_POSIX \<longrightarrow> fl_owner l = owner"
  shows "\<exists>s1 s2. locks_remove_posix mem1 mem2 filp tgid owner s = Some s1 \<and> locks_remove_flock filp s1 = Some s2 \<and>
    locks_inv s2 \<and>
    i_flock s2 = filter (\<lambda>l. fl_file l \<noteq> filp \<and> \<not> mine owner l) (i_flock s) \<and>
    (\<forall>o2 b t. held (i_flock s2) o2 b t \<longleftrightarrow> o2 \<noteq> owner \<and> held (i_flock s) o2 b t)"
proof -
  obtain s1 where s1: "locks_remove_posix mem1 mem2 filp tgid owner s = Some s1" "locks_inv s1"
    "i_flock s1 = filter (\<lambda>l. \<not> mine owner l) (i_flock s)"
    using close_posix [OF inv] by blast
  let ?D = "fl_id ` {l \<in> set (i_flock s1). fl_file l = filp}"
  have np: "\<forall>l\<in>set (i_flock s1). fl_file l = filp \<longrightarrow> fl_kind l \<noteq> FL_POSIX"
    using own unfolding s1(3) by (auto simp: mine_def)
  have rm: "locks_remove_flock filp s1 = Some (delete_locks ?D s1)"
    using remove_flock_loop_eq [OF np] by (simp add: locks_remove_flock_def)
  have dis: "distinct (map fl_id (i_flock s1 @ i_others s1))" using s1(2) by (simp add: locks_inv_def)
  then have inj: "fl_id l \<in> ?D \<longleftrightarrow> fl_file l = filp" if "l \<in> set (i_flock s1)" for l
    using that by (auto simp: distinct_map dest: inj_onD)
  have D: "\<forall>l\<in>set (i_flock s1). fl_id l \<in> ?D \<longrightarrow> fl_kind l \<noteq> FL_POSIX" using np inj by blast
  have ls: "i_flock (delete_locks ?D s1) = filter (\<lambda>l. fl_file l \<noteq> filp \<and> \<not> mine owner l) (i_flock s)"
  proof -
    have "i_flock (delete_locks ?D s1) = filter (\<lambda>l. fl_file l \<noteq> filp) (i_flock s1)"
      using inj by (auto simp: delete_locks_def intro!: filter_cong)
    then show ?thesis unfolding s1(3) by (simp add: conj_commute)
  qed
  have held: "held (i_flock (delete_locks ?D s1)) o2 b t \<longleftrightarrow> o2 \<noteq> owner \<and> held (i_flock s) o2 b t" for o2 b t
  proof -
    have "filter (mine o2) (filter (\<lambda>l. \<not> mine owner l) (i_flock s)) = (if o2 = owner then [] else filter (mine o2) (i_flock s))"
      by (auto simp: mine_def filter_empty_conv intro!: filter_cong)
    then show ?thesis unfolding held_delete_locks [OF D] by (simp add: held_def s1(3))
  qed
  have "locks_inv (delete_locks ?D s1)"
    by (rule delete_locks_inv [OF s1(2) D]) (use dis in auto)
  then show ?thesis using s1(1) rm ls held by blast
qed

definition example_close :: lock_state where
  "example_close = \<lparr>i_flock = [(locks_init_lock 4)\<lparr>fl_kind := FL_FLOCK, fl_file := 5, fl_type := 1, fl_end := OFFSET_MAX\<rparr>,
     (locks_init_lock 1)\<lparr>fl_owner := 7, fl_file := 5, fl_type := 1, fl_end := 99\<rparr>,
     (locks_init_lock 3)\<lparr>fl_owner := 8, fl_file := 6, fl_start := 250, fl_end := 400\<rparr>], i_others = [], waiters = []\<rparr>"

lemma example_close_ok: "locks_inv example_close"
  by (simp add: example_close_def locks_init_lock_def locks_inv_def list_inv_def group_ok_def
      mine_def canon_def apart_def lock_ok_def compatible_def posix_locks_conflict_def posix_same_owner_def
      locks_overlap_def locks_conflict_def waiters_inv_def)

theorem close_releases_locks_witness:
  "\<exists>s1 s2. locks_remove_posix None None 5 70 7 example_close = Some s1 \<and> locks_remove_flock 5 s1 = Some s2 \<and>
     locks_inv s2 \<and> map fl_id (i_flock s2) = [3]"
proof -
  have "\<forall>l\<in>set (i_flock example_close). fl_file l = 5 \<longrightarrow> fl_kind l = FL_POSIX \<longrightarrow> fl_owner l = 7"
    by (simp add: example_close_def locks_init_lock_def)
  from close_releases_locks [OF example_close_ok this, of None None 70] obtain s1 s2 where
    "locks_remove_posix None None 5 70 7 example_close = Some s1" "locks_remove_flock 5 s1 = Some s2" "locks_inv s2"
    "i_flock s2 = filter (\<lambda>l. fl_file l \<noteq> 5 \<and> \<not> mine 7 l) (i_flock example_close)" by blast
  moreover have "map fl_id (filter (\<lambda>l. fl_file l \<noteq> 5 \<and> \<not> mine 7 l) (i_flock example_close)) = [3]"
    by (simp add: example_close_def locks_init_lock_def mine_def)
  ultimately show ?thesis by metis
qed

section \<open>FLOCK locks exclude each other\<close>


text \<open>The type of the FLOCK lock held through an open file.\<close>

definition flock_held :: "file_lock list \<Rightarrow> nat \<Rightarrow> u8 \<Rightarrow> bool" where
  "flock_held ls filp t \<longleftrightarrow> (\<exists>l\<in>set ls. fl_kind l = FL_FLOCK \<and> fl_file l = filp \<and> fl_type l = t)"














definition example_flock :: lock_request where
  "example_flock = \<lparr>rq_lock = (locks_init_lock 50)\<lparr>fl_kind := FL_FLOCK, fl_file := 5, fl_type := F_RDLCK, fl_end := OFFSET_MAX\<rparr>,
     rq_access = False, rq_sleep = True, rq_exists = False\<rparr>"


section \<open>Findings\<close>

text \<open>
  While \<open>flock_lock_file\<close> changes the type of a lock it lets other processes run between removing the old lock and inserting the
  new one. A process that shares the open file can take a lock in that window, and then the
  open file has two: one \<open>LOCK_UN\<close> leaves the other behind.
\<close>

lemma flock_shared_file_duplicate:
  "let s0 = \<lparr>i_flock = [(locks_init_lock 1)\<lparr>fl_kind := FL_FLOCK, fl_file := 5, fl_type := F_WRLCK\<rparr>], i_others = [], waiters = []\<rparr>;
       other = (\<lambda>s. case flock_lock_file (\<lambda>t. t) (Some 2) 5 example_flock s of Some (_, s') \<Rightarrow> s' | None \<Rightarrow> s);
       unlock = example_flock\<lparr>rq_lock := (rq_lock example_flock)\<lparr>fl_type := F_UNLCK\<rparr>\<rparr>
   in \<exists>s1 s2. flock_lock_file other (Some 3) 5 example_flock s0 = Some (Locked, s1) \<and> length (i_flock s1) = 2 \<and>
        flock_lock_file (\<lambda>t. t) None 5 unlock s1 = Some (Locked, s2) \<and> flock_held (i_flock s2) 5 F_RDLCK"
  by (simp add: flock_lock_file_def flock_find_conflict_def not_posix_def example_flock_def locks_init_lock_def
      locks_delete_lock_def locks_wake_up_blocks_def flock_locks_conflict_def locks_copy_lock_def raw_locks_copy_lock_def flock_held_def)

text \<open>
  \<open>fcntl_setlease\<close> means to take a lease back when its signal owner cannot be set, but \<open>time_out_leases\<close> stops at the first lease that is not
  being broken, and new leases are appended behind the others: the lease stays, half broken.
\<close>

lemma fcntl_setlease_not_removed:
  "let s0 = \<lparr>i_flock = [(locks_init_lock 1)\<lparr>fl_kind := FL_LEASE, fl_file := 5, fl_type := F_RDLCK\<rparr>], i_others = [], waiters = []\<rparr>;
       env = \<lparr>le_owner_or_cap = True, le_isreg = True, le_security = None, le_jiffies = 1000, le_mem = Some 2, le_writecount = 0,
              le_d_count = 1, le_i_count = 1, le_enable = True\<rparr>
   in case fcntl_setlease 7 70 env 1000 (Some ENOMEM) None 6 F_RDLCK s0 of
        (r, s1) \<Rightarrow> r = Inl ENOMEM \<and> map fl_file (i_flock s1) = [5, 6] \<and> map fl_type (i_flock s1) = [F_RDLCK, F_UNLCK OR F_INPROGRESS]"
  by (simp add: fcntl_setlease_def generic_setlease_def lease_init_def assign_type_def time_out_leases_def leases_def Let_def
      locks_init_lock_def locks_copy_lock_def raw_locks_copy_lock_def)

text \<open>\<open>lock_may_read\<close> and \<open>lock_may_write\<close> treat the byte behind the region as part of it.\<close>

lemma lock_may_write_off_by_one:
  "let s = \<lparr>i_flock = [(locks_init_lock 1)\<lparr>fl_type := F_RDLCK, fl_start := 100, fl_end := 199\<rparr>], i_others = [], waiters = []\<rparr>
   in \<not> lock_may_write s 0 100 \<and> lock_may_write s 0 99"
  by (simp add: lock_may_write_def may_deny_def locks_init_lock_def)

end
