(* ===== verification/Group_Info.thy ===== *)
theory Group_Info
  imports Kernel_Prelude "HOL-Library.Multiset"
begin

text \<open>
  Supplementary group lists, \<^verbatim>\<open>kernel/groups.c\<close>: the two-level array of group ids, its
  allocation and its transfer from and to user space, the Shell sort that is applied to a
  new list and the binary search that answers membership. Every access to the array is
  bounds checked in the model (\<open>None\<close> is an access outside a block), so the theorems also
  show that no such access happens. The reference counts of the lists are not modelled: a
  list is immutable once it is installed in a set of credentials.
\<close>

type_synonym gid = u32

section \<open>The array\<close>

text \<open>The block size is that of a machine with pages of 4096 bytes and 4-byte group ids.\<close>

definition NGROUPS_SMALL :: nat where "NGROUPS_SMALL = 32"

definition NGROUPS_PER_BLOCK :: nat where "NGROUPS_PER_BLOCK = 1024"

definition NGROUPS_MAX :: nat where "NGROUPS_MAX = 65536"

text \<open>An entry of the array of block pointers points to the list's own \<open>small_block\<close> or to
  a page.\<close>

datatype gid_block = Small_block | Page "gid list"

record group_info =
  ngroups :: nat
  nblocks :: nat
  small_block :: "gid list"
  blocks :: "gid_block list"

text \<open>The list of the first task: no groups, and no array of blocks.\<close>

definition init_groups :: group_info where
  "init_groups = \<lparr>ngroups = 0, nblocks = 0, small_block = replicate NGROUPS_SMALL 0, blocks = []\<rparr>"

definition block_at :: "group_info \<Rightarrow> nat \<Rightarrow> gid list option" where
  "block_at gi b =
     (if b < length (blocks gi)
      then Some (case blocks gi ! b of Small_block \<Rightarrow> small_block gi | Page p \<Rightarrow> p)
      else None)"

definition block_set :: "group_info \<Rightarrow> nat \<Rightarrow> gid list \<Rightarrow> group_info" where
  "block_set gi b xs =
     (case blocks gi ! b of
        Small_block \<Rightarrow> gi\<lparr>small_block := xs\<rparr>
      | Page _ \<Rightarrow> gi\<lparr>blocks := (blocks gi)[b := Page xs]\<rparr>)"

text \<open>\<open>GROUP_AT(gi, i)\<close> read and \<open>GROUP_AT(gi, i) = v\<close>.\<close>

definition GROUP_AT :: "group_info \<Rightarrow> nat \<Rightarrow> gid option" where
  "GROUP_AT gi i = do {
     xs \<leftarrow> block_at gi (i div NGROUPS_PER_BLOCK);
     if i mod NGROUPS_PER_BLOCK < length xs then Some (xs ! (i mod NGROUPS_PER_BLOCK)) else None }"

definition GROUP_SET :: "group_info \<Rightarrow> nat \<Rightarrow> gid \<Rightarrow> group_info option" where
  "GROUP_SET gi i v = do {
     xs \<leftarrow> block_at gi (i div NGROUPS_PER_BLOCK);
     if i mod NGROUPS_PER_BLOCK < length xs
     then Some (block_set gi (i div NGROUPS_PER_BLOCK) (xs[i mod NGROUPS_PER_BLOCK := v]))
     else None }"

section \<open>Allocation and transfer\<close>

text \<open>
  The memory a list is built from: \<open>gi_kmalloc\<close> is the stale content of the small block when
  \<open>kmalloc\<close> succeeds, \<open>gi_page i\<close> that of the page the \<open>i\<close>-th call of \<open>__get_free_page\<close>
  returns.
\<close>

record group_mem =
  gi_kmalloc :: "(nat \<Rightarrow> gid) option"
  gi_page :: "nat \<Rightarrow> (nat \<Rightarrow> gid) option"

fun alloc_pages_loop :: "group_mem \<Rightarrow> nat list \<Rightarrow> gid_block list option" where
  "alloc_pages_loop m [] = Some []"
| "alloc_pages_loop m (i # is) = do {
     c \<leftarrow> gi_page m i;
     bs \<leftarrow> alloc_pages_loop m is;
     Some (Page (map c [0..<NGROUPS_PER_BLOCK]) # bs) }"

definition groups_alloc :: "group_mem \<Rightarrow> nat \<Rightarrow> group_info option" where
  "groups_alloc m gidsetsize = do {
     let nb = (gidsetsize + NGROUPS_PER_BLOCK - 1) div NGROUPS_PER_BLOCK;
     let nb = (if nb \<noteq> 0 then nb else 1);
     c \<leftarrow> gi_kmalloc m;
     bs \<leftarrow> (if gidsetsize \<le> NGROUPS_SMALL then Some [Small_block] else alloc_pages_loop m [0..<nb]);
     Some \<lparr>ngroups = gidsetsize, nblocks = nb, small_block = map c [0..<NGROUPS_SMALL],
           blocks = bs\<rparr> }"

text \<open>
  User memory from the address of \<open>grouplist\<close> on, one entry per group id: \<open>None\<close> is an
  address that faults. A transfer is done block by block; the outer \<open>None\<close> is an access
  outside the kernel's block.
\<close>

definition copy_from_user :: "(nat \<Rightarrow> gid option) \<Rightarrow> nat \<Rightarrow> nat \<Rightarrow> gid list option" where
  "copy_from_user usr off n =
     (if \<forall>i \<in> set [off..<off + n]. usr i \<noteq> None then Some (map (\<lambda>i. the (usr i)) [off..<off + n])
      else None)"

definition copy_to_user ::
  "(nat \<Rightarrow> gid option) \<Rightarrow> nat \<Rightarrow> gid list \<Rightarrow> (nat \<Rightarrow> gid option) option" where
  "copy_to_user usr off xs =
     (if \<forall>i \<in> set [off..<off + length xs]. usr i \<noteq> None
      then Some (\<lambda>i. if off \<le> i \<and> i < off + length xs then Some (xs ! (i - off)) else usr i)
      else None)"

fun from_user_loop ::
  "(nat \<Rightarrow> gid option) \<Rightarrow> nat list \<Rightarrow> nat \<Rightarrow> group_info \<Rightarrow> group_info result option" where
  "from_user_loop usr [] cnt gi = Some (Inr gi)"
| "from_user_loop usr (i # is) cnt gi =
     (let cp_count = min NGROUPS_PER_BLOCK cnt in
      case copy_from_user usr (i * NGROUPS_PER_BLOCK) cp_count of
        None \<Rightarrow> Some (Inl EFAULT)
      | Some xs \<Rightarrow> do {
          b \<leftarrow> block_at gi i;
          b' \<leftarrow> mem_write 0 xs b;
          from_user_loop usr is (cnt - cp_count) (block_set gi i b') })"

definition groups_from_user ::
  "group_info \<Rightarrow> (nat \<Rightarrow> gid option) \<Rightarrow> group_info result option" where
  "groups_from_user gi usr = from_user_loop usr [0..<nblocks gi] (ngroups gi) gi"

fun to_user_loop ::
  "group_info \<Rightarrow> nat list \<Rightarrow> nat \<Rightarrow> (nat \<Rightarrow> gid option) \<Rightarrow> (nat \<Rightarrow> gid option) result option" where
  "to_user_loop gi [] cnt usr = Some (Inr usr)"
| "to_user_loop gi (i # is) cnt usr = do {
     let cp_count = min NGROUPS_PER_BLOCK cnt;
     b \<leftarrow> block_at gi i;
     xs \<leftarrow> mem_read 0 cp_count b;
     (case copy_to_user usr (i * NGROUPS_PER_BLOCK) xs of
        None \<Rightarrow> Some (Inl EFAULT)
      | Some usr' \<Rightarrow> to_user_loop gi is (cnt - cp_count) usr') }"

definition groups_to_user ::
  "(nat \<Rightarrow> gid option) \<Rightarrow> group_info \<Rightarrow> (nat \<Rightarrow> gid option) result option" where
  "groups_to_user usr gi = to_user_loop gi [0..<nblocks gi] (ngroups gi) usr"

section \<open>Sorting and searching\<close>

text \<open>
  The sort: \<open>sift\<close> is the innermost loop, which moves larger elements one stride up and
  returns the free position, \<open>sort_insert\<close> the body of the loop over \<open>base\<close>, \<open>sort_pass\<close>
  that loop and \<open>sort_strides\<close> the loop over the strides. The innermost loop would not end
  with a stride of 0, so it is a partial function.
\<close>

function first_stride :: "nat \<Rightarrow> nat \<Rightarrow> nat" where
  "first_stride gidsetsize stride =
     (if stride < gidsetsize then first_stride gidsetsize (3 * stride + 1) else stride)"
  by pat_completeness auto

termination first_stride
  by (relation "measure (\<lambda>(n, s). n - s)") auto

declare first_stride.simps [simp del]

partial_function (option) sift ::
  "nat \<Rightarrow> gid \<Rightarrow> int \<Rightarrow> nat \<Rightarrow> group_info \<Rightarrow> (nat \<times> group_info) option" where
  "sift stride tmp left right gi =
     (if left < 0 then Some (right, gi)
      else do {
        x \<leftarrow> GROUP_AT gi (nat left);
        if x > tmp
        then do {
          gi' \<leftarrow> GROUP_SET gi right x;
          sift stride tmp (left - int stride) (nat left) gi' }
        else Some (right, gi) })"

definition sort_insert :: "nat \<Rightarrow> nat \<Rightarrow> group_info \<Rightarrow> group_info option" where
  "sort_insert stride base gi = do {
     let right = base + stride;
     tmp \<leftarrow> GROUP_AT gi right;
     (right, gi) \<leftarrow> sift stride tmp (int base) right gi;
     GROUP_SET gi right tmp }"

fun sort_pass :: "nat \<Rightarrow> nat list \<Rightarrow> group_info \<Rightarrow> group_info option" where
  "sort_pass stride [] gi = Some gi"
| "sort_pass stride (base # bases) gi = do {
     gi \<leftarrow> sort_insert stride base gi;
     sort_pass stride bases gi }"

function sort_strides :: "nat \<Rightarrow> group_info \<Rightarrow> group_info option" where
  "sort_strides stride gi =
     (if stride = 0 then Some gi
      else do {
        gi \<leftarrow> sort_pass stride [0..<ngroups gi - stride] gi;
        sort_strides (stride div 3) gi })"
  by pat_completeness auto

termination sort_strides
  by (relation "measure fst") auto

declare sort_strides.simps [simp del]

definition groups_sort :: "group_info \<Rightarrow> group_info option" where
  "groups_sort gi = sort_strides (first_stride (ngroups gi) 1 div 3) gi"

text \<open>\<open>groups_search\<close>: the sign of the 32-bit difference decides. The sum of the two indices
  cannot wrap for lists of at most \<open>NGROUPS_MAX\<close> entries.\<close>

function search_loop :: "group_info \<Rightarrow> gid \<Rightarrow> nat \<Rightarrow> nat \<Rightarrow> bool option" where
  "search_loop gi grp left right =
     (if left < right
      then do {
        let mid = (left + right) div 2;
        x \<leftarrow> GROUP_AT gi mid;
        let cmp = grp - x;
        if 0 <s cmp then search_loop gi grp (mid + 1) right
        else if cmp <s 0 then search_loop gi grp left mid
        else Some True }
      else Some False)"
  by pat_completeness auto

termination search_loop
  by (relation "measure (\<lambda>(gi, g, l, r). r - l)") auto

declare search_loop.simps [simp del]

definition groups_search :: "group_info option \<Rightarrow> gid \<Rightarrow> bool option" where
  "groups_search gi grp =
     (case gi of None \<Rightarrow> Some False | Some gi \<Rightarrow> search_loop gi grp 0 (ngroups gi))"

section \<open>The array as a list\<close>

text \<open>What the allocator establishes and every access keeps, and the list a valid array stands
  for.\<close>

definition blocks_for :: "nat \<Rightarrow> nat" where
  "blocks_for n = (let nb = (n + NGROUPS_PER_BLOCK - 1) div NGROUPS_PER_BLOCK in
                   if nb \<noteq> 0 then nb else 1)"

definition is_page :: "gid_block \<Rightarrow> bool" where
  "is_page b = (case b of Small_block \<Rightarrow> False | Page p \<Rightarrow> length p = NGROUPS_PER_BLOCK)"

definition group_ok :: "group_info \<Rightarrow> bool" where
  "group_ok gi \<longleftrightarrow>
     ngroups gi \<le> NGROUPS_MAX \<and> nblocks gi = blocks_for (ngroups gi) \<and>
     length (small_block gi) = NGROUPS_SMALL \<and>
     (if ngroups gi \<le> NGROUPS_SMALL then blocks gi = [Small_block]
      else length (blocks gi) = nblocks gi \<and> (\<forall>b \<in> set (blocks gi). is_page b))"

definition groups_list :: "group_info \<Rightarrow> gid list" where
  "groups_list gi = map (\<lambda>i. the (GROUP_AT gi i)) [0..<ngroups gi]"

lemma length_groups_list [simp]: "length (groups_list gi) = ngroups gi"
  by (simp add: groups_list_def)

lemma blocks_for_less:
  assumes "i < n"
  shows "i div NGROUPS_PER_BLOCK < blocks_for n"
proof -
  have "i div 1024 < (n + 1023) div 1024"
    using assms by (simp add: less_eq_div_iff_mult_less_eq Suc_le_eq [symmetric] del: Suc_le_eq)
  then show ?thesis by (auto simp: blocks_for_def NGROUPS_PER_BLOCK_def Let_def)
qed

text \<open>The block and the position of an index below \<open>ngroups\<close> exist.\<close>

lemma block_at_ok:
  assumes "group_ok gi" and "i < ngroups gi"
  obtains xs where "block_at gi (i div NGROUPS_PER_BLOCK) = Some xs"
    and "i mod NGROUPS_PER_BLOCK < length xs"
proof (cases "ngroups gi \<le> NGROUPS_SMALL")
  case True
  then show ?thesis
    using assms that [of "small_block gi"]
    by (auto simp: group_ok_def block_at_def NGROUPS_SMALL_def NGROUPS_PER_BLOCK_def)
next
  case False
  let ?b = "i div NGROUPS_PER_BLOCK"
  have "?b < length (blocks gi)" using assms False blocks_for_less by (simp add: group_ok_def)
  moreover from this have "is_page (blocks gi ! ?b)" using assms False by (simp add: group_ok_def)
  ultimately show ?thesis
    using that by (auto simp: is_page_def block_at_def NGROUPS_PER_BLOCK_def split: gid_block.splits)
qed

lemma GROUP_AT_ok:
  assumes "group_ok gi" and "i < ngroups gi"
  shows "GROUP_AT gi i = Some (groups_list gi ! i)"
proof -
  obtain xs where "block_at gi (i div NGROUPS_PER_BLOCK) = Some xs" "i mod NGROUPS_PER_BLOCK < length xs"
    by (rule block_at_ok [OF assms])
  then show ?thesis using assms(2) by (simp add: GROUP_AT_def groups_list_def)
qed

lemma block_at_block_set:
  assumes "block_at gi b = Some xs" and "block_at gi c = Some ys"
    and "b \<noteq> c \<Longrightarrow> blocks gi ! b \<noteq> Small_block \<or> blocks gi ! c \<noteq> Small_block"
  shows "block_at (block_set gi b zs) c = Some (if b = c then zs else ys)"
  using assms by (auto simp: block_at_def block_set_def nth_list_update split: gid_block.splits if_splits)

lemma ngroups_block_set [simp]: "ngroups (block_set gi b xs) = ngroups gi"
  by (simp add: block_set_def split: gid_block.splits)

lemma group_ok_block_set:
  assumes "group_ok gi" and "block_at gi b = Some xs" and "length ys = length xs"
  shows "group_ok (block_set gi b ys)"
proof (cases "blocks gi ! b")
  case Small_block
  then show ?thesis using assms by (auto simp: group_ok_def block_at_def block_set_def split: if_splits)
next
  case (Page p)
  have "set ((blocks gi)[b := Page ys]) \<subseteq> insert (Page ys) (set (blocks gi))"
    by (rule set_update_subset_insert)
  moreover have "is_page (Page ys)" if "\<not> ngroups gi \<le> NGROUPS_SMALL"
  proof -
    have "b < length (blocks gi)" and "xs = p"
      using assms(2) Page by (auto simp: block_at_def split: if_splits)
    then have "is_page (Page p)"
      using assms(1) that Page nth_mem [of b "blocks gi"] by (simp add: group_ok_def)
    then show ?thesis using assms(3) \<open>xs = p\<close> by (simp add: is_page_def)
  qed
  moreover have "b = 0 \<Longrightarrow> \<not> ngroups gi \<le> NGROUPS_SMALL" "b \<noteq> 0 \<Longrightarrow> \<not> ngroups gi \<le> NGROUPS_SMALL"
    using assms Page by (auto simp: group_ok_def block_at_def split: if_splits)
  ultimately show ?thesis
    using assms Page by (fastforce simp: group_ok_def block_set_def)
qed

lemma two_small_blocks:
  assumes "group_ok gi" and "b < length (blocks gi)" and "c < length (blocks gi)" and "b \<noteq> c"
  shows "blocks gi ! b \<noteq> Small_block"
proof -
  have "is_page (blocks gi ! b)"
    using assms nth_mem [of b "blocks gi"] by (auto simp: group_ok_def split: if_splits)
  then show ?thesis by (auto simp: is_page_def)
qed

lemma GROUP_AT_block_set:
  assumes ok: "group_ok gi" and b: "block_at gi b = Some xs" and len: "length ys = length xs"
    and j: "j < ngroups gi"
  shows "GROUP_AT (block_set gi b ys) j =
    (if j div NGROUPS_PER_BLOCK = b then Some (ys ! (j mod NGROUPS_PER_BLOCK)) else GROUP_AT gi j)"
proof -
  let ?c = "j div NGROUPS_PER_BLOCK"
  obtain zs where zs: "block_at gi ?c = Some zs" "j mod NGROUPS_PER_BLOCK < length zs"
    by (rule block_at_ok [OF ok j])
  have "blocks gi ! b \<noteq> Small_block \<or> blocks gi ! ?c \<noteq> Small_block" if "b \<noteq> ?c"
    using two_small_blocks [OF ok _ _ that] b zs by (simp add: block_at_def split: if_splits)
  then have "block_at (block_set gi b ys) ?c = Some (if b = ?c then ys else zs)"
    by (rule block_at_block_set [OF b zs(1)])
  then show ?thesis using b zs len by (auto simp: GROUP_AT_def)
qed

lemma groups_list_eqI:
  assumes "ngroups gi = length xs" and "\<And>i. i < length xs \<Longrightarrow> GROUP_AT gi i = Some (xs ! i)"
  shows "groups_list gi = xs"
  using assms by (intro nth_equalityI) (simp_all add: groups_list_def)

lemma GROUP_SET_ok:
  assumes ok: "group_ok gi" and i: "i < ngroups gi"
  obtains gi' where "GROUP_SET gi i v = Some gi'" and "group_ok gi'"
    and "ngroups gi' = ngroups gi" and "groups_list gi' = (groups_list gi)[i := v]"
proof -
  let ?b = "i div NGROUPS_PER_BLOCK" and ?k = "i mod NGROUPS_PER_BLOCK"
  obtain xs where xs: "block_at gi ?b = Some xs" "?k < length xs" by (rule block_at_ok [OF ok i])
  define gi' where "gi' = block_set gi ?b (xs[?k := v])"
  have "groups_list gi' = (groups_list gi)[i := v]"
  proof (rule groups_list_eqI)
    fix j assume "j < length ((groups_list gi)[i := v])"
    then have j: "j < ngroups gi" by simp
    have "i \<noteq> j \<Longrightarrow> ?b = j div NGROUPS_PER_BLOCK \<Longrightarrow> ?k \<noteq> j mod NGROUPS_PER_BLOCK"
      using div_mult_mod_eq [of i NGROUPS_PER_BLOCK] div_mult_mod_eq [of j NGROUPS_PER_BLOCK] by auto
    moreover have "?b = j div NGROUPS_PER_BLOCK \<Longrightarrow> GROUP_AT gi j = Some (xs ! (j mod NGROUPS_PER_BLOCK))"
      using xs GROUP_AT_ok [OF ok j] by (auto simp: GROUP_AT_def split: if_splits)
    ultimately show "GROUP_AT gi' j = Some ((groups_list gi)[i := v] ! j)"
      using xs i j GROUP_AT_ok [OF ok j] unfolding gi'_def
      by (auto simp: GROUP_AT_block_set [OF ok xs(1) _ j] nth_list_update)
  qed (simp add: gi'_def)
  moreover have "GROUP_SET gi i v = Some gi'" using xs by (simp add: GROUP_SET_def gi'_def)
  moreover have "group_ok gi'" using group_ok_block_set [OF ok xs(1)] by (simp add: gi'_def)
  moreover have "ngroups gi' = ngroups gi" by (simp add: gi'_def)
  ultimately show ?thesis by (intro that)
qed

section \<open>The sort\<close>

text \<open>A rule for the innermost loop: an invariant of the free position and the list.\<close>

lemma sift_rule:
  assumes "group_ok gi" and "ngroups gi = n" and "0 < stride" and "right < n" and "left < int right"
    and "I left right (groups_list gi)"
    and step: "\<And>l r xs. I l r xs \<Longrightarrow> 0 \<le> l \<Longrightarrow> l < int r \<Longrightarrow> r < n \<Longrightarrow> length xs = n \<Longrightarrow>
      tmp < xs ! nat l \<Longrightarrow> I (l - int stride) (nat l) (xs[r := xs ! nat l])"
  shows "\<exists>l r gi'. sift stride tmp left right gi = Some (r, gi') \<and> group_ok gi' \<and>
    ngroups gi' = n \<and> r < n \<and> l < int r \<and> I l r (groups_list gi') \<and>
    (0 \<le> l \<longrightarrow> groups_list gi' ! nat l \<le> tmp)"
  using assms(1-6)
proof (induction "nat (left + 1)" arbitrary: left right gi rule: less_induct)
  case less
  show ?case
  proof (cases "0 \<le> left \<and> tmp < groups_list gi ! nat left")
    case False
    have "sift stride tmp left right gi = Some (right, gi)"
    proof (cases "left < 0")
      case True
      then show ?thesis by (subst sift.simps) simp
    next
      case nonneg: False
      then have "GROUP_AT gi (nat left) = Some (groups_list gi ! nat left)"
        using less.prems by (intro GROUP_AT_ok) auto
      moreover have "\<not> tmp < groups_list gi ! nat left" using nonneg False by simp
      ultimately show ?thesis using nonneg by (subst sift.simps) simp
    qed
    then show ?thesis using less.prems False by (auto simp: not_less)
  next
    case True
    let ?x = "groups_list gi ! nat left"
    have at: "GROUP_AT gi (nat left) = Some ?x"
      using less.prems True by (intro GROUP_AT_ok) auto
    obtain gi' where gi': "GROUP_SET gi right ?x = Some gi'" "group_ok gi'" "ngroups gi' = ngroups gi"
        "groups_list gi' = (groups_list gi)[right := ?x]"
      by (rule GROUP_SET_ok [OF less.prems(1)]) (use less.prems in auto)
    have "sift stride tmp left right gi = sift stride tmp (left - int stride) (nat left) gi'"
      using True at gi'(1) by (subst sift.simps) simp
    moreover have "I (left - int stride) (nat left) (groups_list gi')"
      unfolding gi'(4) using less.prems True by (intro step) auto
    ultimately show ?thesis
      using less.hyps [of "left - int stride" gi' "nat left"] less.prems True gi' by auto
  qed
qed

text \<open>Every insertion permutes the list; with stride 1 it extends the sorted prefix.\<close>

definition inserted :: "gid list \<Rightarrow> nat \<Rightarrow> gid \<Rightarrow> int \<Rightarrow> nat \<Rightarrow> gid list \<Rightarrow> bool" where
  "inserted zs b tmp l r xs \<longleftrightarrow>
     length xs = length zs \<and> l = int r - 1 \<and> r \<le> b + 1 \<and> (\<forall>j < r. xs ! j = zs ! j) \<and>
     (\<forall>j \<in> {r<..b + 1}. xs ! j = zs ! (j - 1) \<and> tmp \<le> zs ! (j - 1))"

lemma inserted_step:
  assumes "inserted zs b tmp l r xs" and "0 \<le> l" and "r < length zs" and "tmp < xs ! nat l"
  shows "inserted zs b tmp (l - 1) (nat l) (xs[r := xs ! nat l])"
  using assms by (auto simp: inserted_def nth_list_update nat_diff_distrib)

lemma inserted_sorted:
  assumes I: "inserted zs b tmp l r xs" and stop: "0 \<le> l \<longrightarrow> xs ! nat l \<le> tmp"
    and zs: "sorted (take (b + 1) zs)" and b: "b + 1 < length zs"
  shows "sorted (take (b + 2) (xs[r := tmp]))"
proof -
  have mono: "zs ! i \<le> zs ! j" if "i \<le> j" "j \<le> b" for i j
    using sorted_nth_mono [OF zs, of i j] that b by simp
  have below: "zs ! i \<le> tmp" if "i < r" for i
  proof -
    have "zs ! i \<le> zs ! (r - 1)" using that I by (intro mono) (auto simp: inserted_def)
    also have "\<dots> \<le> tmp" using stop that I by (auto simp: inserted_def nat_diff_distrib)
    finally show ?thesis .
  qed
  have above: "tmp \<le> xs ! j \<and> xs ! j = zs ! (j - 1)" if "r < j" "j \<le> b + 1" for j
    using I that by (auto simp: inserted_def)
  have len: "length xs = length zs" and pre: "\<And>j. j < r \<Longrightarrow> xs ! j = zs ! j"
    using I by (auto simp: inserted_def)
  show ?thesis
  proof (subst sorted_iff_nth_mono_less, intro allI impI)
    fix i j
    assume ij: "i < j" "j < length (take (b + 2) (xs[r := tmp]))"
    then have j: "j \<le> b + 1" "j < length xs" by auto
    consider "j < r" | "j = r" | "i = r" | "i < r" "r < j" | "r < i" using ij by linarith
    then have "xs[r := tmp] ! i \<le> xs[r := tmp] ! j"
    proof cases
      case 1
      then show ?thesis using ij j pre mono [of i j] I by (auto simp: inserted_def)
    next
      case 2
      then show ?thesis using ij j pre below by auto
    next
      case 3
      then show ?thesis using ij j above [of j] by auto
    next
      case 4
      then show ?thesis using j pre above [of j] order_trans [OF below [of i], of "zs ! (j - 1)"] by auto
    next
      case 5
      then show ?thesis using ij j above [of i] above [of j] mono [of "i - 1" "j - 1"] by auto
    qed
    then show "take (b + 2) (xs[r := tmp]) ! i \<le> take (b + 2) (xs[r := tmp]) ! j"
      using ij by simp
  qed
qed

lemma mset_shift_free:
  assumes "l \<noteq> r" and "l < length xs" and "r < length xs"
  shows "mset ((xs[r := xs ! l])[l := v]) = mset (xs[r := v])"
proof -
  have "(xs[r := xs ! l])[l := v] = (xs[r := v])[l := (xs[r := v]) ! r, r := (xs[r := v]) ! l]"
    using assms by (auto simp: list_update_swap)
  also have "mset \<dots> = mset (xs[r := v])" using assms by (intro mset_swap) auto
  finally show ?thesis .
qed

lemma sort_insert_permutes:
  assumes "group_ok gi" and "0 < stride" and "base + stride < ngroups gi"
  obtains gi' where "sort_insert stride base gi = Some gi'" and "group_ok gi'"
    and "ngroups gi' = ngroups gi" and "mset (groups_list gi') = mset (groups_list gi)"
    and "stride = 1 \<Longrightarrow> sorted (take (base + 1) (groups_list gi)) \<Longrightarrow> sorted (take (base + 2) (groups_list gi'))"
proof -
  let ?xs = "groups_list gi"
  let ?tmp = "?xs ! (base + stride)"
  define I where "I l r xs \<longleftrightarrow> mset (xs[r := ?tmp]) = mset ?xs \<and>
      (stride = 1 \<longrightarrow> inserted ?xs base ?tmp l r xs)" for l r xs
  have start: "I (int base) (base + stride) ?xs" by (auto simp: I_def inserted_def)
  have step: "\<And>l r xs. I l r xs \<Longrightarrow> 0 \<le> l \<Longrightarrow> l < int r \<Longrightarrow> r < ngroups gi \<Longrightarrow>
      length xs = ngroups gi \<Longrightarrow> ?tmp < xs ! nat l \<Longrightarrow> I (l - int stride) (nat l) (xs[r := xs ! nat l])"
  proof -
    fix l r xs
    assume that: "I l r xs" "0 \<le> l" "l < int r" "r < ngroups gi" "length xs = ngroups gi"
      "?tmp < xs ! nat l"
    have "mset ((xs[r := xs ! nat l])[nat l := ?tmp]) = mset ?xs"
      using that(1-5) mset_shift_free [of "nat l" r xs ?tmp] by (simp add: I_def nat_less_iff)
    moreover have "stride = 1 \<Longrightarrow> inserted ?xs base ?tmp (l - 1) (nat l) (xs[r := xs ! nat l])"
      using that by (intro inserted_step) (simp_all add: I_def)
    ultimately show "I (l - int stride) (nat l) (xs[r := xs ! nat l])" by (simp add: I_def)
  qed
  have "int base < int (base + stride)" using assms(2) by simp
  then have "\<exists>l r gi'. sift stride ?tmp (int base) (base + stride) gi = Some (r, gi') \<and> group_ok gi' \<and>
      ngroups gi' = ngroups gi \<and> r < ngroups gi \<and> l < int r \<and> I l r (groups_list gi') \<and>
      (0 \<le> l \<longrightarrow> groups_list gi' ! nat l \<le> ?tmp)"
    by (rule sift_rule [where I = I, OF assms(1) refl assms(2,3) _ start]) (rule step)
  then obtain l r gi1 where s: "sift stride ?tmp (int base) (base + stride) gi = Some (r, gi1)"
      "group_ok gi1" "ngroups gi1 = ngroups gi" "r < ngroups gi" "l < int r" "I l r (groups_list gi1)"
      "0 \<le> l \<longrightarrow> groups_list gi1 ! nat l \<le> ?tmp"
    by (elim exE conjE) (rule that)
  obtain gi' where gi': "GROUP_SET gi1 r ?tmp = Some gi'" "group_ok gi'" "ngroups gi' = ngroups gi1"
      "groups_list gi' = (groups_list gi1)[r := ?tmp]"
    by (rule GROUP_SET_ok [OF s(2)]) (use s in auto)
  have "sort_insert stride base gi = Some gi'"
    using s(1) gi'(1) GROUP_AT_ok [OF assms(1,3)] by (simp add: sort_insert_def)
  moreover have "sorted (take (base + 2) (groups_list gi'))"
    if "stride = 1" "sorted (take (base + 1) ?xs)"
    unfolding gi'(4) using s(6,7) that assms(3)
    by (intro inserted_sorted [of ?xs base ?tmp l]) (simp_all add: I_def)
  moreover have "mset (groups_list gi') = mset ?xs" using s(6) by (simp add: gi'(4) I_def)
  ultimately show ?thesis using gi'(2,3) s(3) by (intro that) simp_all
qed

lemma sort_pass_permutes:
  assumes "group_ok gi" and "0 < stride" and "a + m + stride \<le> ngroups gi"
  shows "\<exists>gi'. sort_pass stride [a..<a + m] gi = Some gi' \<and> group_ok gi' \<and> ngroups gi' = ngroups gi \<and>
    mset (groups_list gi') = mset (groups_list gi) \<and>
    (stride = 1 \<longrightarrow> sorted (take (a + 1) (groups_list gi)) \<longrightarrow> sorted (take (a + m + 1) (groups_list gi')))"
  using assms
proof (induction m arbitrary: a gi)
  case 0
  then show ?case by simp
next
  case (Suc m)
  obtain g where g: "sort_insert stride a gi = Some g" "group_ok g" "ngroups g = ngroups gi"
    "mset (groups_list g) = mset (groups_list gi)"
    "stride = 1 \<Longrightarrow> sorted (take (a + 1) (groups_list gi)) \<Longrightarrow> sorted (take (a + 2) (groups_list g))"
    by (rule sort_insert_permutes [OF Suc.prems(1,2), of a]) (use Suc.prems in auto)
  have "[a..<a + Suc m] = a # [Suc a..<Suc a + m]" by (simp add: upt_conv_Cons)
  then show ?case using Suc.IH [of g "Suc a"] Suc.prems g by auto
qed

text \<open>The strides are 1, 4, 13, 40 and so on, so the last pass has stride 1.\<close>

inductive knuth_stride :: "nat \<Rightarrow> bool" where
  "knuth_stride 0"
| "knuth_stride s \<Longrightarrow> knuth_stride (3 * s + 1)"

lemma knuth_stride_div:
  assumes "knuth_stride s"
  shows "knuth_stride (s div 3)" and "s div 3 = 0 \<Longrightarrow> 0 < s \<Longrightarrow> s = 1"
proof -
  have "knuth_stride (s div 3) \<and> (s div 3 = 0 \<longrightarrow> 0 < s \<longrightarrow> s = 1)"
    using assms
  proof cases
    case 1
    then show ?thesis using knuth_stride.intros(1) by simp
  next
    case (2 t)
    then have "s div 3 = t" by simp
    then show ?thesis using 2 by simp
  qed
  then show "knuth_stride (s div 3)" and "s div 3 = 0 \<Longrightarrow> 0 < s \<Longrightarrow> s = 1" by blast+
qed

lemma first_stride_knuth: "knuth_stride s \<Longrightarrow> knuth_stride (first_stride n s)"
  by (induction n s rule: first_stride.induct)
    (metis first_stride.simps knuth_stride.intros(2))

lemma first_stride_bounds:
  assumes "0 < s" and "s < 3 * n \<or> s = 1" and "2 \<le> n"
  shows "n \<le> first_stride n s \<and> first_stride n s < 3 * n"
  using assms
proof (induction n s rule: first_stride.induct)
  case (1 n s)
  then show ?case by (cases "s < n") (auto simp: first_stride.simps [of n s])
qed

lemma sort_strides_sorts:
  assumes "group_ok gi" and "knuth_stride s" and "s < ngroups gi \<or> s = 0"
  shows "\<exists>gi'. sort_strides s gi = Some gi' \<and> group_ok gi' \<and> ngroups gi' = ngroups gi \<and>
    mset (groups_list gi') = mset (groups_list gi) \<and> (0 < s \<longrightarrow> sorted (groups_list gi'))"
  using assms
proof (induction s gi rule: sort_strides.induct)
  case (1 s gi)
  show ?case
  proof (cases "s = 0")
    case True
    then show ?thesis using 1 by (simp add: sort_strides.simps)
  next
    case False
    then have s: "0 + (ngroups gi - s) + s \<le> ngroups gi" "0 < s" "s < ngroups gi" using 1 by auto
    obtain g where g: "sort_pass s [0..<ngroups gi - s] gi = Some g" "group_ok g"
      "ngroups g = ngroups gi" "mset (groups_list g) = mset (groups_list gi)"
      "s = 1 \<Longrightarrow> sorted (groups_list g)"
    proof -
      have "sorted (take (0 + 1) (groups_list gi))" by (rule sorted01) simp
      moreover have "take (0 + (ngroups gi - s) + 1) (groups_list g) = groups_list g"
        if "ngroups g = ngroups gi" "s = 1" for g using that s by simp
      ultimately show ?thesis
        using sort_pass_permutes [OF "1.prems"(1) s(2,1)] that by (elim exE conjE) (metis add_0)
    qed
    have "s div 3 < ngroups g \<or> s div 3 = 0" using s g by linarith
    from "1.IH" [OF False g(1,2) knuth_stride_div(1) [OF "1.prems"(2)] this]
    obtain g' where g': "sort_strides (s div 3) g = Some g'" "group_ok g'" "ngroups g' = ngroups g"
      "mset (groups_list g') = mset (groups_list g)" "0 < s div 3 \<longrightarrow> sorted (groups_list g')"
      by (elim exE conjE) (rule that)
    have "sorted (groups_list g')"
    proof (cases "s div 3 = 0")
      case True
      then have "g' = g" and "s = 1"
        using g' knuth_stride_div(2) [OF "1.prems"(2)] s by (auto simp: sort_strides.simps)
      then show ?thesis using g by simp
    next
      case False
      then show ?thesis using g' by simp
    qed
    then show ?thesis using False g g' by (simp add: sort_strides.simps [of s])
  qed
qed

lemma groups_sort_sorts:
  assumes "group_ok gi"
  obtains gi' where "groups_sort gi = Some gi'" and "group_ok gi'" and "ngroups gi' = ngroups gi"
    and "mset (groups_list gi') = mset (groups_list gi)" and "sorted (groups_list gi')"
proof -
  let ?s = "first_stride (ngroups gi) 1 div 3"
  have "knuth_stride 1" using knuth_stride.intros(2) [OF knuth_stride.intros(1)] by simp
  then have k: "knuth_stride ?s" by (intro knuth_stride_div(1) first_stride_knuth)
  have pos: "0 < ?s \<and> ?s < ngroups gi" if n: "2 \<le> ngroups gi"
  proof -
    have b: "ngroups gi \<le> first_stride (ngroups gi) 1" "first_stride (ngroups gi) 1 < 3 * ngroups gi"
      using first_stride_bounds [of 1 "ngroups gi"] n by auto
    have "?s \<noteq> 0"
    proof
      assume "?s = 0"
      then have "first_stride (ngroups gi) 1 = 1"
        using b n by (intro knuth_stride_div(2) first_stride_knuth \<open>knuth_stride 1\<close>) auto
      then show False using b n by simp
    qed
    moreover have "?s < ngroups gi" using b(2) by (intro less_mult_imp_div_less) (simp add: mult.commute)
    ultimately show ?thesis by simp
  qed
  have "?s = 0" if "\<not> 2 \<le> ngroups gi" using that by (simp add: first_stride.simps [of _ "Suc 0"])
  then have "?s < ngroups gi \<or> ?s = 0" by (cases "2 \<le> ngroups gi") (auto dest: pos)
  from sort_strides_sorts [OF assms k this]
  obtain gi' where g: "sort_strides ?s gi = Some gi'" "group_ok gi'" "ngroups gi' = ngroups gi"
    "mset (groups_list gi') = mset (groups_list gi)" "0 < ?s \<longrightarrow> sorted (groups_list gi')"
    by (elim exE conjE) (rule that)
  have "sorted (groups_list gi')"
    using g pos by (cases "2 \<le> ngroups gi") (auto simp: sorted01)
  with g show ?thesis by (intro that) (simp_all add: groups_sort_def)
qed

section \<open>The search\<close>

text \<open>The sign of the wrapped difference orders two ids that are less than \<open>2^31\<close> apart.\<close>

lemma sless_diff:
  fixes g x :: gid
  assumes "\<bar>uint g - uint x\<bar> < 2 ^ 31"
  shows "0 <s g - x \<longleftrightarrow> x < g" and "g - x <s 0 \<longleftrightarrow> g < x"
proof -
  have "sint (g - x) = signed_take_bit 31 (uint g - uint x)"
    by (simp only: word_sub_wi sint_sbintrunc') simp
  also have "\<dots> = uint g - uint x"
    using assms by (intro signed_take_bit_int_eq_self) auto
  finally show "0 <s g - x \<longleftrightarrow> x < g" "g - x <s 0 \<longleftrightarrow> g < x"
    by (auto simp: word_sless_alt word_less_def)
qed

lemma search_loop_step:
  assumes "group_ok gi" and "l < r" and "r \<le> ngroups gi"
  shows "search_loop gi grp l r =
    (let m = (l + r) div 2; x = groups_list gi ! m in
     if 0 <s grp - x then search_loop gi grp (m + 1) r
     else if grp - x <s 0 then search_loop gi grp l m else Some True)"
proof -
  have "(l + r) div 2 < ngroups gi" using assms by linarith
  then show ?thesis using assms by (simp add: search_loop.simps [of gi grp l r] GROUP_AT_ok Let_def)
qed

lemma sless_zero_cases:
  fixes d :: "32 word"
  assumes "\<not> 0 <s d" and "\<not> d <s 0"
  shows "d = 0"
  using assms by (metis signed.linorder_cases)

lemma search_loop_sound:
  assumes "group_ok gi" and "r \<le> ngroups gi"
  shows "\<exists>b. search_loop gi grp l r = Some b \<and> (b \<longrightarrow> grp \<in> set (groups_list gi))"
  using assms(2)
proof (induction "r - l" arbitrary: l r rule: less_induct)
  case less
  show ?case
  proof (cases "l < r")
    case False
    then have "search_loop gi grp l r = Some False" by (simp add: search_loop.simps)
    then show ?thesis by blast
  next
    case True
    let ?m = "(l + r) div 2"
    have m: "l \<le> ?m" "?m < r" using True by auto
    consider "0 <s grp - groups_list gi ! ?m"
      | "\<not> 0 <s grp - groups_list gi ! ?m" "grp - groups_list gi ! ?m <s 0"
      | "\<not> 0 <s grp - groups_list gi ! ?m" "\<not> grp - groups_list gi ! ?m <s 0" by blast
    then show ?thesis
    proof cases
      case 1
      then have "search_loop gi grp l r = search_loop gi grp (?m + 1) r"
        by (simp only: search_loop_step [OF assms(1) True less.prems] Let_def if_True)
      then show ?thesis using less.hyps [of r "?m + 1"] less.prems m by simp
    next
      case 2
      then have "search_loop gi grp l r = search_loop gi grp l ?m"
        by (simp only: search_loop_step [OF assms(1) True less.prems] Let_def if_True if_False)
      then show ?thesis using less.hyps [of ?m l] less.prems m by simp
    next
      case 3
      then have "search_loop gi grp l r = Some True"
        by (simp only: search_loop_step [OF assms(1) True less.prems] Let_def if_False)
      moreover have "groups_list gi ! ?m = grp" using sless_zero_cases [OF 3] by simp
      then have "grp \<in> set (groups_list gi)" using m less.prems by (metis length_groups_list nth_mem order_less_le_trans)
      ultimately show ?thesis by blast
    qed
  qed
qed

lemma search_loop_complete:
  assumes "group_ok gi" and "r \<le> ngroups gi" and "sorted (groups_list gi)"
    and near: "\<And>x. x \<in> set (groups_list gi) \<Longrightarrow> \<bar>uint grp - uint x\<bar> < 2 ^ 31"
    and "l \<le> i" and "i < r" and "groups_list gi ! i = grp"
  shows "search_loop gi grp l r = Some True"
  using assms(2,5,6)
proof (induction "r - l" arbitrary: l r rule: less_induct)
  case less
  let ?m = "(l + r) div 2"
  let ?x = "groups_list gi ! ?m"
  have lr: "l < r" and m: "l \<le> ?m" "?m < r" "?m < ngroups gi" using less.prems by auto
  have x: "0 <s grp - ?x \<longleftrightarrow> ?x < grp" "grp - ?x <s 0 \<longleftrightarrow> grp < ?x"
    using sless_diff [OF near, of ?x] m by auto
  have "?x < grp \<Longrightarrow> ?m < i" and "grp < ?x \<Longrightarrow> i < ?m"
    using sorted_nth_mono [OF assms(3), of i ?m] sorted_nth_mono [OF assms(3), of ?m i] m less.prems
      assms(7) by (auto simp: not_less [symmetric] intro: ccontr)
  note i = this
  consider "?x < grp" | "grp < ?x" | "?x = grp" by (rule linorder_cases)
  then show ?case
  proof cases
    case 1
    then have "search_loop gi grp l r = search_loop gi grp (?m + 1) r"
      using x by (simp only: search_loop_step [OF assms(1) lr less.prems(1)] Let_def if_True)
    then show ?thesis using less.hyps [of r "?m + 1"] less.prems m i(1) [OF 1] by simp
  next
    case 2
    then have "search_loop gi grp l r = search_loop gi grp l ?m"
      using x less_not_sym [OF 2]
      by (simp only: search_loop_step [OF assms(1) lr less.prems(1)] Let_def if_True if_False)
    then show ?thesis using less.hyps [of ?m l] less.prems m i(2) [OF 2] by simp
  next
    case 3
    then show ?thesis by (simp add: search_loop_step [OF assms(1) lr less.prems(1)] Let_def)
  qed
qed

lemma groups_search_sound:
  assumes "group_ok gi"
  shows "\<exists>b. groups_search (Some gi) grp = Some b \<and> (b \<longrightarrow> grp \<in> set (groups_list gi))"
  using search_loop_sound [OF assms order_refl] by (simp add: groups_search_def)

lemma groups_search_exact:
  assumes "group_ok gi" and "sorted (groups_list gi)"
    and "\<And>x. x \<in> set (groups_list gi) \<Longrightarrow> \<bar>uint grp - uint x\<bar> < 2 ^ 31"
  shows "groups_search (Some gi) grp = Some (grp \<in> set (groups_list gi))"
proof (cases "grp \<in> set (groups_list gi)")
  case True
  then obtain i where "i < ngroups gi" "groups_list gi ! i = grp" by (auto simp: in_set_conv_nth)
  then show ?thesis
    using search_loop_complete [OF assms(1) order_refl assms(2,3), of 0 i] True
    by (simp add: groups_search_def)
next
  case False
  then show ?thesis using groups_search_sound [OF assms(1), of grp] by auto
qed

section \<open>Allocation and transfer\<close>

lemma alloc_pages_loop_ok:
  "alloc_pages_loop m is = Some bs \<Longrightarrow> length bs = length is \<and> (\<forall>b \<in> set bs. is_page b)"
  by (induction "is" arbitrary: bs) (auto simp: is_page_def split: bind_splits)

lemma groups_alloc_ok:
  assumes "groups_alloc m n = Some gi" and "n \<le> NGROUPS_MAX"
  shows "group_ok gi \<and> ngroups gi = n"
  using assms alloc_pages_loop_ok [of m "[0..<nblocks gi]" "blocks gi"]
  by (auto simp: groups_alloc_def group_ok_def blocks_for_def Let_def split: bind_splits if_splits)

text \<open>The last block of an array, which may be only partly used.\<close>

lemma block_at_transfer:
  assumes "group_ok gi" and "a < nblocks gi"
  obtains b where "block_at gi a = Some b"
    and "min NGROUPS_PER_BLOCK (ngroups gi - a * NGROUPS_PER_BLOCK) \<le> length b"
proof (cases "ngroups gi \<le> NGROUPS_SMALL")
  case True
  then have "a = 0" using assms
    by (auto simp: group_ok_def blocks_for_def NGROUPS_SMALL_def NGROUPS_PER_BLOCK_def Let_def
        split: if_splits)
  then show ?thesis using assms True that [of "small_block gi"] by (auto simp: group_ok_def block_at_def)
next
  case False
  then have "is_page (blocks gi ! a)" "a < length (blocks gi)" using assms by (auto simp: group_ok_def)
  then show ?thesis using that by (auto simp: block_at_def is_page_def split: gid_block.splits)
qed

lemma blocks_for_covers: "n \<le> blocks_for n * NGROUPS_PER_BLOCK"
proof -
  have "n \<le> (n + 1023) div 1024 * 1024"
    using div_mult_mod_eq [of "n + 1023" 1024] mod_less_divisor [of 1024 "n + 1023"] by linarith
  then show ?thesis by (auto simp: blocks_for_def NGROUPS_PER_BLOCK_def Let_def)
qed

lemma div_eq_block:
  "i div NGROUPS_PER_BLOCK = a \<longleftrightarrow> a * NGROUPS_PER_BLOCK \<le> i \<and> i < Suc a * NGROUPS_PER_BLOCK"
proof
  have "i mod NGROUPS_PER_BLOCK < NGROUPS_PER_BLOCK" by (simp add: NGROUPS_PER_BLOCK_def)
  moreover assume "i div NGROUPS_PER_BLOCK = a"
  ultimately show "a * NGROUPS_PER_BLOCK \<le> i \<and> i < Suc a * NGROUPS_PER_BLOCK"
    using div_mult_mod_eq [of i NGROUPS_PER_BLOCK] by simp
next
  assume "a * NGROUPS_PER_BLOCK \<le> i \<and> i < Suc a * NGROUPS_PER_BLOCK"
  then show "i div NGROUPS_PER_BLOCK = a" by (intro div_nat_eqI) (simp_all add: mult.commute)
qed

lemma from_user_step:
  assumes ok: "group_ok gi" and a: "a < nblocks gi"
    and pre: "\<And>i. i < ngroups gi \<Longrightarrow> i < a * NGROUPS_PER_BLOCK \<Longrightarrow> usr i = GROUP_AT gi i"
    and cp: "cp = min NGROUPS_PER_BLOCK (ngroups gi - a * NGROUPS_PER_BLOCK)"
    and usr: "copy_from_user usr (a * NGROUPS_PER_BLOCK) cp = Some xs"
  obtains b b' where "block_at gi a = Some b" and "mem_write 0 xs b = Some b'"
    and "group_ok (block_set gi a b')" and "nblocks (block_set gi a b') = nblocks gi"
    and "\<And>i. i < ngroups gi \<Longrightarrow> i < Suc a * NGROUPS_PER_BLOCK \<Longrightarrow> usr i = GROUP_AT (block_set gi a b') i"
proof -
  obtain b where b: "block_at gi a = Some b" "cp \<le> length b"
    unfolding cp by (rule block_at_transfer [OF ok a])
  have xs: "xs = map (\<lambda>i. the (usr i)) [a * NGROUPS_PER_BLOCK..<a * NGROUPS_PER_BLOCK + cp]"
    and mapped: "\<And>i. a * NGROUPS_PER_BLOCK \<le> i \<Longrightarrow> i < a * NGROUPS_PER_BLOCK + cp \<Longrightarrow> usr i \<noteq> None"
    using usr by (auto simp: copy_from_user_def split: if_splits)
  let ?b' = "xs @ drop cp b"
  have len: "length xs = cp" using xs by simp
  have w: "mem_write 0 xs b = Some ?b'" using b len by (simp add: mem_write_def)
  have len': "length ?b' = length b" using b len by simp
  have "usr i = GROUP_AT (block_set gi a ?b') i"
    if i: "i < ngroups gi" "i < Suc a * NGROUPS_PER_BLOCK" for i
  proof (cases "i < a * NGROUPS_PER_BLOCK")
    case True
    then show ?thesis
      using pre [OF i(1) True] by (simp add: GROUP_AT_block_set [OF ok b(1) len' i(1)] div_eq_block)
  next
    case False
    then have "i div NGROUPS_PER_BLOCK = a" using i by (simp add: div_eq_block)
    then have m: "a * NGROUPS_PER_BLOCK + i mod NGROUPS_PER_BLOCK = i"
      using div_mult_mod_eq [of i NGROUPS_PER_BLOCK] by simp
    moreover have "i < a * NGROUPS_PER_BLOCK + cp" using i False cp by auto
    ultimately have "i mod NGROUPS_PER_BLOCK < cp" by linarith
    then show ?thesis
      using \<open>i div _ = a\<close> m mapped [of i] False \<open>i < a * _ + cp\<close>
      by (simp add: GROUP_AT_block_set [OF ok b(1) len' i(1)] nth_append len) (simp add: xs)
  qed
  moreover have "nblocks (block_set gi a ?b') = nblocks gi"
    by (simp add: block_set_def split: gid_block.splits)
  ultimately show ?thesis using group_ok_block_set [OF ok b(1) len'] b(1) w by (intro that)
qed

lemma from_user_loop_reads:
  assumes "group_ok gi" and "ngroups gi = n" and "a + m = nblocks gi" and "cnt = n - a * NGROUPS_PER_BLOCK"
    and "\<And>i. i < n \<Longrightarrow> i < a * NGROUPS_PER_BLOCK \<Longrightarrow> usr i = GROUP_AT gi i"
  shows "(from_user_loop usr [a..<a + m] cnt gi = Some (Inl EFAULT) \<and> (\<exists>i < n. usr i = None)) \<or>
    (\<exists>gi'. from_user_loop usr [a..<a + m] cnt gi = Some (Inr gi') \<and> group_ok gi' \<and> ngroups gi' = n \<and>
       (\<forall>i < n. usr i = GROUP_AT gi' i))"
  using assms
proof (induction m arbitrary: a gi cnt)
  case 0
  then have "n \<le> a * NGROUPS_PER_BLOCK" using blocks_for_covers [of n] by (simp add: group_ok_def)
  with 0 show ?case by auto
next
  case (Suc m)
  let ?cp = "min NGROUPS_PER_BLOCK cnt"
  have upt: "[a..<a + Suc m] = a # [Suc a..<Suc a + m]" by (simp add: upt_conv_Cons)
  show ?case
  proof (cases "copy_from_user usr (a * NGROUPS_PER_BLOCK) ?cp")
    case None
    then obtain i where "a * NGROUPS_PER_BLOCK \<le> i" "i < a * NGROUPS_PER_BLOCK + ?cp" "usr i = None"
      by (auto simp: copy_from_user_def split: if_splits)
    moreover from this have "i < n" using Suc.prems by (auto simp: min_def split: if_splits)
    moreover have "from_user_loop usr [a..<a + Suc m] cnt gi = Some (Inl EFAULT)"
      unfolding upt using None by simp
    ultimately show ?thesis by blast
  next
    case (Some xs)
    have a: "a < nblocks gi" and cp: "?cp = min NGROUPS_PER_BLOCK (ngroups gi - a * NGROUPS_PER_BLOCK)"
      using Suc.prems by auto
    obtain b b' where b: "block_at gi a = Some b" "mem_write 0 xs b = Some b'"
      "group_ok (block_set gi a b')" "nblocks (block_set gi a b') = nblocks gi"
      "\<And>i. i < ngroups gi \<Longrightarrow> i < Suc a * NGROUPS_PER_BLOCK \<Longrightarrow> usr i = GROUP_AT (block_set gi a b') i"
      using from_user_step [OF Suc.prems(1) a _ cp Some] Suc.prems by metis
    have cnt: "cnt - ?cp = n - Suc a * NGROUPS_PER_BLOCK" using Suc.prems(4) by auto
    have loop: "from_user_loop usr [a..<a + Suc m] cnt gi =
        from_user_loop usr [Suc a..<Suc a + m] (cnt - ?cp) (block_set gi a b')"
      unfolding upt using Some b by (simp add: Let_def)
    show ?thesis
      unfolding loop by (rule Suc.IH [OF b(3) _ _ cnt]) (use Suc.prems b in simp_all)
  qed
qed

lemma groups_from_user_reads:
  assumes "group_ok gi"
  shows "(\<exists>i < ngroups gi. usr i = None) \<and> groups_from_user gi usr = Some (Inl EFAULT) \<or>
    (\<exists>gi'. groups_from_user gi usr = Some (Inr gi') \<and> group_ok gi' \<and>
       ngroups gi' = ngroups gi \<and> map Some (groups_list gi') = map usr [0..<ngroups gi])"
proof -
  have "map Some (groups_list gi') = map usr [0..<ngroups gi]"
    if "group_ok gi'" "ngroups gi' = ngroups gi" "\<forall>i < ngroups gi. usr i = GROUP_AT gi' i" for gi'
    using that by (intro nth_equalityI) (simp_all add: GROUP_AT_ok)
  then show ?thesis
    using from_user_loop_reads [OF assms refl, of 0 "nblocks gi"]
    by (simp add: groups_from_user_def) blast
qed

lemma mem_read_block:
  assumes ok: "group_ok gi" and a: "a < nblocks gi"
    and cp: "cp = min NGROUPS_PER_BLOCK (ngroups gi - a * NGROUPS_PER_BLOCK)"
  obtains b xs where "block_at gi a = Some b" and "mem_read 0 cp b = Some xs" and "length xs = cp"
    and "\<And>i. i < cp \<Longrightarrow> GROUP_AT gi (a * NGROUPS_PER_BLOCK + i) = Some (xs ! i)"
proof -
  obtain b where b: "block_at gi a = Some b" "cp \<le> length b"
    unfolding cp by (rule block_at_transfer [OF ok a])
  have "GROUP_AT gi (a * NGROUPS_PER_BLOCK + i) = Some (take cp b ! i)" if "i < cp" for i
  proof -
    have i: "i < NGROUPS_PER_BLOCK" using that cp by simp
    then have "(a * NGROUPS_PER_BLOCK + i) div NGROUPS_PER_BLOCK = a" by (simp add: div_eq_block)
    moreover have "(a * NGROUPS_PER_BLOCK + i) mod NGROUPS_PER_BLOCK = i" using i by simp
    ultimately show ?thesis using b that by (simp add: GROUP_AT_def)
  qed
  then show ?thesis using b that [of b "take cp b"] by (simp add: mem_read_def)
qed

lemma to_user_loop_writes:
  assumes "group_ok gi" and "ngroups gi = n" and "a + m = nblocks gi" and "cnt = n - a * NGROUPS_PER_BLOCK"
  shows "(to_user_loop gi [a..<a + m] cnt usr = Some (Inl EFAULT) \<and> (\<exists>i < n. usr i = None)) \<or>
    (\<exists>usr'. to_user_loop gi [a..<a + m] cnt usr = Some (Inr usr') \<and>
       (\<forall>i. usr' i = (if a * NGROUPS_PER_BLOCK \<le> i \<and> i < n then GROUP_AT gi i else usr i)))"
  using assms
proof (induction m arbitrary: a cnt usr)
  case 0
  then have "n \<le> a * NGROUPS_PER_BLOCK" using blocks_for_covers [of n] by (simp add: group_ok_def)
  then show ?case by auto
next
  case (Suc m)
  let ?N = NGROUPS_PER_BLOCK
  let ?cp = "min ?N cnt"
  have upt: "[a..<a + Suc m] = a # [Suc a..<Suc a + m]" by (simp add: upt_conv_Cons)
  have a: "a < nblocks gi" and cp: "?cp = min ?N (ngroups gi - a * ?N)" using Suc.prems by auto
  obtain b xs where b: "block_at gi a = Some b" "mem_read 0 ?cp b = Some xs" "length xs = ?cp"
    and xs: "\<And>i. i < ?cp \<Longrightarrow> GROUP_AT gi (a * ?N + i) = Some (xs ! i)"
    by (rule mem_read_block [OF Suc.prems(1) a cp]) (rule that)
  show ?case
  proof (cases "copy_to_user usr (a * ?N) xs")
    case None
    then obtain i where "a * ?N \<le> i" "i < a * ?N + ?cp" "usr i = None"
      by (auto simp: copy_to_user_def b(3) split: if_splits)
    moreover from this have "i < n" using Suc.prems by (auto simp: min_def split: if_splits)
    moreover have "to_user_loop gi [a..<a + Suc m] cnt usr = Some (Inl EFAULT)"
      unfolding upt using None b by (simp add: Let_def)
    ultimately show ?thesis by blast
  next
    case (Some u)
    then have u: "u i = (if a * ?N \<le> i \<and> i < a * ?N + ?cp then GROUP_AT gi i else usr i)" for i
    proof (cases "a * ?N \<le> i \<and> i < a * ?N + ?cp")
      case True
      then have "i - a * ?N < ?cp" by linarith
      then show ?thesis using xs [of "i - a * ?N"] True Some
        by (auto simp: copy_to_user_def b(3) split: if_splits)
    next
      case False
      then show ?thesis using Some by (auto simp: copy_to_user_def b(3) split: if_splits)
    qed
    have "cnt - ?cp = n - Suc a * ?N" using Suc.prems(4) by auto
    note IH = Suc.IH [OF Suc.prems(1,2) _ this, of u]
    have loop: "to_user_loop gi [a..<a + Suc m] cnt usr = to_user_loop gi [Suc a..<Suc a + m] (cnt - ?cp) u"
      unfolding upt using Some b by (simp add: Let_def)
    have none: "\<exists>i < n. usr i = None" if "\<exists>i < n. u i = None"
    proof -
      from that obtain i where i: "i < n" "u i = None" by blast
      then have "GROUP_AT gi i \<noteq> None" using GROUP_AT_ok [OF Suc.prems(1), of i] Suc.prems(2) by simp
      then show ?thesis using i u [of i] by (auto split: if_splits)
    qed
    have range: "(if Suc a * ?N \<le> i \<and> i < n then GROUP_AT gi i else u i) =
        (if a * ?N \<le> i \<and> i < n then GROUP_AT gi i else usr i)" for i
      using Suc.prems(4) by (auto simp: u)
    show ?thesis using IH none Suc.prems(3) unfolding loop range by fastforce
  qed
qed

lemma groups_to_user_writes:
  assumes "group_ok gi"
  shows "(groups_to_user usr gi = Some (Inl EFAULT) \<and> (\<exists>i < ngroups gi. usr i = None)) \<or>
    (\<exists>usr'. groups_to_user usr gi = Some (Inr usr') \<and>
       (\<forall>i. usr' i = (if i < ngroups gi then Some (groups_list gi ! i) else usr i)))"
  using to_user_loop_writes [OF assms refl, of 0 "nblocks gi" _ usr] GROUP_AT_ok [OF assms]
  by (simp add: groups_to_user_def) (metis (lifting))

lemma groups_to_user_init: "groups_to_user usr init_groups = Some (Inr usr)"
  by (simp add: groups_to_user_def init_groups_def)

lemma groups_search_init: "groups_search (Some init_groups) grp = Some False"
  by (simp add: groups_search_def init_groups_def search_loop.simps)

text \<open>
  The difference of ids that are at least \<open>2^31\<close> apart has the wrong sign: a member is not
  found although the list is sorted.
\<close>

definition wide_groups :: group_info where
  "wide_groups = \<lparr>ngroups = 3, nblocks = 1, small_block = [1, 2, 0x80000005] @ replicate 29 0,
     blocks = [Small_block]\<rparr>"

lemma groups_search_misses_member:
  "sorted (groups_list wide_groups)" "0x80000005 \<in> set (groups_list wide_groups)"
  "groups_search (Some wide_groups) 0x80000005 = Some False"
proof -
  have at: "GROUP_AT wide_groups 0 = Some 1" "GROUP_AT wide_groups 1 = Some 2"
    "GROUP_AT wide_groups 2 = Some 0x80000005"
    by (simp_all add: GROUP_AT_def block_at_def wide_groups_def NGROUPS_PER_BLOCK_def)
  then have list: "groups_list wide_groups = [1, 2, 0x80000005]"
    by (simp add: groups_list_def wide_groups_def upt_rec numeral_2_eq_2)
  show "sorted (groups_list wide_groups)" "0x80000005 \<in> set (groups_list wide_groups)"
    by (simp_all add: list)
  show "groups_search (Some wide_groups) 0x80000005 = Some False"
    using at by (simp add: groups_search_def search_loop.simps word_sless_alt wide_groups_def)
qed

end
