(* ===== verification/Capability.thy ===== *)
theory Capability
  imports Group_Info
begin

text \<open>
  Capability sets and the credentials of a task: \<^verbatim>\<open>include/linux/capability.h\<close>,
  \<^verbatim>\<open>struct cred\<close>, the capability security module \<^verbatim>\<open>security/commoncap.c\<close> with file capabilities
  configured (\<open>CONFIG_SECURITY_FILE_CAPABILITIES\<close>), and the system calls of
  \<^verbatim>\<open>kernel/capability.c\<close>. A set is two 32-bit words as in the source; the locale \<open>cap_sets\<close>
  gives the laws of the sets, one capability at a time, that the proofs about credentials use.
\<close>

section \<open>Capability sets\<close>

datatype kernel_cap = Kernel_cap (cap0: u32) (cap1: u32)

definition CAP_TO_INDEX :: "nat \<Rightarrow> nat" where "CAP_TO_INDEX x = drop_bit 5 x"

definition CAP_TO_MASK :: "nat \<Rightarrow> u32" where "CAP_TO_MASK x = push_bit (x AND 31) 1"

definition cap_word :: "kernel_cap \<Rightarrow> nat \<Rightarrow> u32" where
  "cap_word c i = (if i = 0 then cap0 c else cap1 c)"

definition cap_raised :: "kernel_cap \<Rightarrow> nat \<Rightarrow> bool" where
  "cap_raised c flag \<longleftrightarrow> cap_word c (CAP_TO_INDEX flag) AND CAP_TO_MASK flag \<noteq> 0"

definition cap_lower :: "kernel_cap \<Rightarrow> nat \<Rightarrow> kernel_cap" where
  "cap_lower c flag =
     (if CAP_TO_INDEX flag = 0 then Kernel_cap (cap0 c AND NOT (CAP_TO_MASK flag)) (cap1 c)
      else Kernel_cap (cap0 c) (cap1 c AND NOT (CAP_TO_MASK flag)))"

definition CAP_EMPTY_SET :: kernel_cap where "CAP_EMPTY_SET = Kernel_cap 0 0"

definition CAP_FULL_SET :: kernel_cap where "CAP_FULL_SET = Kernel_cap (NOT 0) (NOT 0)"

definition cap_combine :: "kernel_cap \<Rightarrow> kernel_cap \<Rightarrow> kernel_cap" where
  "cap_combine a b = Kernel_cap (cap0 a OR cap0 b) (cap1 a OR cap1 b)"

definition cap_intersect :: "kernel_cap \<Rightarrow> kernel_cap \<Rightarrow> kernel_cap" where
  "cap_intersect a b = Kernel_cap (cap0 a AND cap0 b) (cap1 a AND cap1 b)"

definition cap_drop :: "kernel_cap \<Rightarrow> kernel_cap \<Rightarrow> kernel_cap" where
  "cap_drop a d = Kernel_cap (cap0 a AND NOT (cap0 d)) (cap1 a AND NOT (cap1 d))"

definition cap_isclear :: "kernel_cap \<Rightarrow> bool" where
  "cap_isclear a \<longleftrightarrow> cap0 a = 0 \<and> cap1 a = 0"

definition cap_issubset :: "kernel_cap \<Rightarrow> kernel_cap \<Rightarrow> bool" where
  "cap_issubset a s \<longleftrightarrow> cap_isclear (cap_drop a s)"

definition CAP_CHOWN :: nat where "CAP_CHOWN = 0"
definition CAP_DAC_OVERRIDE :: nat where "CAP_DAC_OVERRIDE = 1"
definition CAP_DAC_READ_SEARCH :: nat where "CAP_DAC_READ_SEARCH = 2"
definition CAP_FOWNER :: nat where "CAP_FOWNER = 3"
definition CAP_FSETID :: nat where "CAP_FSETID = 4"
definition CAP_SETGID :: nat where "CAP_SETGID = 6"
definition CAP_SETUID :: nat where "CAP_SETUID = 7"
definition CAP_SETPCAP :: nat where "CAP_SETPCAP = 8"
definition CAP_LINUX_IMMUTABLE :: nat where "CAP_LINUX_IMMUTABLE = 9"
definition CAP_SYS_PTRACE :: nat where "CAP_SYS_PTRACE = 19"
definition CAP_SYS_ADMIN :: nat where "CAP_SYS_ADMIN = 21"
definition CAP_SYS_NICE :: nat where "CAP_SYS_NICE = 23"
definition CAP_MKNOD :: nat where "CAP_MKNOD = 27"
definition CAP_SETFCAP :: nat where "CAP_SETFCAP = 31"
definition CAP_MAC_OVERRIDE :: nat where "CAP_MAC_OVERRIDE = 32"
definition CAP_LAST_CAP :: nat where "CAP_LAST_CAP = 33"

definition CAP_FS_SET :: kernel_cap where
  "CAP_FS_SET = Kernel_cap
     (CAP_TO_MASK CAP_CHOWN OR CAP_TO_MASK CAP_MKNOD OR CAP_TO_MASK CAP_DAC_OVERRIDE OR
      CAP_TO_MASK CAP_DAC_READ_SEARCH OR CAP_TO_MASK CAP_FOWNER OR CAP_TO_MASK CAP_FSETID OR
      CAP_TO_MASK CAP_LINUX_IMMUTABLE)
     (CAP_TO_MASK CAP_MAC_OVERRIDE)"

definition cap_drop_fs_set :: "kernel_cap \<Rightarrow> kernel_cap" where
  "cap_drop_fs_set a = cap_drop a CAP_FS_SET"

definition cap_raise_fs_set :: "kernel_cap \<Rightarrow> kernel_cap \<Rightarrow> kernel_cap" where
  "cap_raise_fs_set a permitted = cap_combine a (cap_intersect permitted CAP_FS_SET)"

subsection \<open>Their laws\<close>

locale cap_sets =
  fixes raised :: "'c \<Rightarrow> nat \<Rightarrow> bool"
    and combine intersect drop :: "'c \<Rightarrow> 'c \<Rightarrow> 'c"
    and issubset :: "'c \<Rightarrow> 'c \<Rightarrow> bool"
    and empty :: 'c
  assumes raised_combine: "raised (combine a b) k \<longleftrightarrow> raised a k \<or> raised b k"
    and raised_intersect: "raised (intersect a b) k \<longleftrightarrow> raised a k \<and> raised b k"
    and raised_drop: "raised (drop a b) k \<longleftrightarrow> raised a k \<and> \<not> raised b k"
    and raised_empty: "\<not> raised empty k"
    and issubset_iff: "issubset a b \<longleftrightarrow> (\<forall>k. raised a k \<longrightarrow> raised b k)"
begin

lemmas member_simps = raised_combine raised_intersect raised_drop raised_empty

lemma issubset_refl: "issubset a a"
  by (simp add: issubset_iff)

lemma issubset_trans: "issubset a b \<Longrightarrow> issubset b c \<Longrightarrow> issubset a c"
  by (simp add: issubset_iff)

lemma issubsetD: "issubset a b \<Longrightarrow> raised a k \<Longrightarrow> raised b k"
  by (simp add: issubset_iff)

lemma empty_issubset: "issubset empty a"
  by (simp add: issubset_iff raised_empty)

lemma intersect_issubset: "issubset (intersect a b) a" "issubset (intersect a b) b"
  by (simp_all add: issubset_iff raised_intersect)

lemma drop_issubset: "issubset a c \<Longrightarrow> issubset (drop a b) c"
  by (simp add: issubset_iff raised_drop)

lemma combine_issubset: "issubset a c \<Longrightarrow> issubset b c \<Longrightarrow> issubset (combine a b) c"
  by (auto simp: issubset_iff raised_combine)

end

lemma cap_raised_bit: "cap_raised c k \<longleftrightarrow> bit (if k < 32 then cap0 c else cap1 c) (k mod 32)"
proof -
  have "k AND 31 = take_bit 5 k" by (simp add: take_bit_eq_mask mask_eq_exp_minus_1)
  then have "k AND 31 = k mod 32" by (simp add: take_bit_eq_mod)
  moreover have "drop_bit 5 k = 0 \<longleftrightarrow> k < 32" by (simp add: drop_bit_eq_div div_eq_0_iff)
  ultimately show ?thesis
    by (simp add: cap_raised_def cap_word_def CAP_TO_INDEX_def CAP_TO_MASK_def and_exp_eq_0_iff_not_bit)
qed

lemma word32_zero_iff: "(w :: u32) = 0 \<longleftrightarrow> (\<forall>n < 32. \<not> bit w n)"
  by (auto simp: bit_eq_iff bit_imp_le_length dest: bit_imp_le_length)

lemma cap_all_iff:
  fixes P :: "u32 \<Rightarrow> nat \<Rightarrow> u32 \<Rightarrow> bool"
  shows "(\<forall>k. P (if k < 32 then cap0 c else cap1 c) (k mod 32) (if k < 32 then cap0 d else cap1 d)) \<longleftrightarrow>
   (\<forall>n < 32. P (cap0 c) n (cap0 d) \<and> P (cap1 c) n (cap1 d))"
proof (intro iffI allI impI)
  fix n :: nat
  assume P: "\<forall>k. P (if k < 32 then cap0 c else cap1 c) (k mod 32) (if k < 32 then cap0 d else cap1 d)"
    and "n < 32"
  then show "P (cap0 c) n (cap0 d) \<and> P (cap1 c) n (cap1 d)"
    using spec [OF P, of n] spec [OF P, of "n + 32"] by simp
next
  fix k
  assume "\<forall>n < 32. P (cap0 c) n (cap0 d) \<and> P (cap1 c) n (cap1 d)"
  then show "P (if k < 32 then cap0 c else cap1 c) (k mod 32) (if k < 32 then cap0 d else cap1 d)"
    by simp
qed

lemma cap_issubset_bits:
  "cap_issubset a b \<longleftrightarrow> (\<forall>k. cap_raised a k \<longrightarrow> cap_raised b k)"
  unfolding cap_raised_bit cap_all_iff [of "\<lambda>u n v. bit u n \<longrightarrow> bit v n"]
  by (auto simp: cap_issubset_def cap_isclear_def cap_drop_def word32_zero_iff bit_simps)

interpretation kcap: cap_sets cap_raised cap_combine cap_intersect cap_drop cap_issubset CAP_EMPTY_SET
proof
  fix a b and k :: nat
  have "k mod 32 < 32" by simp
  then show "cap_raised (cap_combine a b) k \<longleftrightarrow> cap_raised a k \<or> cap_raised b k"
    and "cap_raised (cap_intersect a b) k \<longleftrightarrow> cap_raised a k \<and> cap_raised b k"
    and "cap_raised (cap_drop a b) k \<longleftrightarrow> cap_raised a k \<and> \<not> cap_raised b k"
    and "\<not> cap_raised CAP_EMPTY_SET k"
    by (auto simp: cap_raised_bit cap_combine_def cap_intersect_def cap_drop_def CAP_EMPTY_SET_def
        bit_simps)
qed (rule cap_issubset_bits)

lemma cap_eqI:
  assumes "\<And>k. cap_raised a k \<longleftrightarrow> cap_raised b k"
  shows "a = b"
proof -
  have "\<forall>n < 32. (bit (cap0 a) n \<longleftrightarrow> bit (cap0 b) n) \<and> (bit (cap1 a) n \<longleftrightarrow> bit (cap1 b) n)"
    using assms unfolding cap_raised_bit cap_all_iff [of "\<lambda>u n v. bit u n \<longleftrightarrow> bit v n", symmetric] by simp
  then show ?thesis by (cases a, cases b) (auto intro!: bit_word_eqI)
qed

lemma cap_isclear_iff: "cap_isclear a \<longleftrightarrow> a = CAP_EMPTY_SET"
  by (cases a) (simp add: cap_isclear_def CAP_EMPTY_SET_def)

lemma cap_issubset_empty: "cap_issubset a CAP_EMPTY_SET \<longleftrightarrow> a = CAP_EMPTY_SET"
  by (cases a) (simp add: cap_issubset_def cap_isclear_def cap_drop_def CAP_EMPTY_SET_def)

section \<open>Credentials\<close>

text \<open>
  \<open>us_addr\<close> is the address of a \<open>user_struct\<close>, and \<open>INIT_USER\<close> that of \<open>root_user\<close>. The reference
  counts, keys and security blobs of \<open>struct cred\<close> are left out.
\<close>

record user_struct =
  us_addr :: nat
  processes :: u32

definition INIT_USER :: nat where "INIT_USER = 0"

record cred =
  uid :: u32
  gid :: u32
  suid :: u32
  sgid :: u32
  euid :: u32
  egid :: u32
  fsuid :: u32
  fsgid :: u32
  securebits :: u32
  cap_inheritable :: kernel_cap
  cap_permitted :: kernel_cap
  cap_effective :: kernel_cap
  cap_bset :: kernel_cap
  cr_user :: user_struct
  cr_group_info :: group_info

definition SECURE_NOROOT :: nat where "SECURE_NOROOT = 0"
definition SECURE_NO_SETUID_FIXUP :: nat where "SECURE_NO_SETUID_FIXUP = 2"
definition SECURE_KEEP_CAPS :: nat where "SECURE_KEEP_CAPS = 4"
definition SECURE_KEEP_CAPS_LOCKED :: nat where "SECURE_KEEP_CAPS_LOCKED = 5"

definition issecure_mask :: "nat \<Rightarrow> u32" where "issecure_mask x = push_bit x 1"

text \<open>\<open>issecure(X)\<close> reads the credentials of the current task, here \<open>c\<close>.\<close>

definition issecure :: "nat \<Rightarrow> cred \<Rightarrow> bool" where
  "issecure x c \<longleftrightarrow> issecure_mask x AND securebits c \<noteq> 0"

definition SECURE_ALL_BITS :: u32 where
  "SECURE_ALL_BITS = issecure_mask SECURE_NOROOT OR issecure_mask SECURE_NO_SETUID_FIXUP OR
     issecure_mask SECURE_KEEP_CAPS"

definition SECURE_ALL_LOCKS :: u32 where
  "SECURE_ALL_LOCKS = push_bit 1 SECURE_ALL_BITS"

definition cap_valid :: "nat \<Rightarrow> bool" where "cap_valid x \<longleftrightarrow> x \<le> CAP_LAST_CAP"

definition cap_capable :: "cred \<Rightarrow> nat \<Rightarrow> unit result" where
  "cap_capable c cap = (if cap_raised (cap_effective c) cap then Inr () else Inl EPERM)"

definition capable :: "cred \<Rightarrow> nat \<Rightarrow> bool" where
  "capable c cap \<longleftrightarrow> cap_capable c cap = Inr ()"

section \<open>Checks of the capability module\<close>

definition cap_ptrace_access_check :: "cred \<Rightarrow> cred \<Rightarrow> unit result" where
  "cap_ptrace_access_check cur child =
     (if \<not> cap_issubset (cap_permitted child) (cap_permitted cur) \<and> \<not> capable cur CAP_SYS_PTRACE
      then Inl EPERM else Inr ())"

definition cap_ptrace_traceme :: "cred \<Rightarrow> cred \<Rightarrow> unit result" where
  "cap_ptrace_traceme cur parent =
     (if \<not> cap_issubset (cap_permitted cur) (cap_permitted parent) \<and> \<not> capable parent CAP_SYS_PTRACE
      then Inl EPERM else Inr ())"

definition cap_safe_nice :: "cred \<Rightarrow> cred \<Rightarrow> unit result" where
  "cap_safe_nice cur p =
     (if \<not> cap_issubset (cap_permitted p) (cap_permitted cur) \<and> \<not> capable cur CAP_SYS_NICE
      then Inl EPERM else Inr ())"

definition XATTR_SECURITY_PREFIX :: string where "XATTR_SECURITY_PREFIX = ''security.''"

definition XATTR_NAME_CAPS :: string where "XATTR_NAME_CAPS = XATTR_SECURITY_PREFIX @ ''capability''"

definition cap_inode_setxattr :: "cred \<Rightarrow> string \<Rightarrow> unit result" where
  "cap_inode_setxattr c name =
     (if name = XATTR_NAME_CAPS then (if \<not> capable c CAP_SETFCAP then Inl EPERM else Inr ())
      else if take (length XATTR_SECURITY_PREFIX) name = XATTR_SECURITY_PREFIX \<and>
              \<not> capable c CAP_SYS_ADMIN then Inl EPERM
      else Inr ())"

definition cap_inode_removexattr :: "cred \<Rightarrow> string \<Rightarrow> unit result" where
  "cap_inode_removexattr c name =
     (if name = XATTR_NAME_CAPS then (if \<not> capable c CAP_SETFCAP then Inl EPERM else Inr ())
      else if take (length XATTR_SECURITY_PREFIX) name = XATTR_SECURITY_PREFIX \<and>
              \<not> capable c CAP_SYS_ADMIN then Inl EPERM
      else Inr ())"

section \<open>Changing the capabilities of the current task\<close>

definition cap_inh_is_capped :: "cred \<Rightarrow> bool" where
  "cap_inh_is_capped cur \<longleftrightarrow> cap_capable cur CAP_SETPCAP \<noteq> Inr ()"

definition cap_capset ::
  "cred \<Rightarrow> cred \<Rightarrow> kernel_cap \<Rightarrow> kernel_cap \<Rightarrow> kernel_cap \<Rightarrow> cred result" where
  "cap_capset new old effective inheritable permitted =
     (if cap_inh_is_capped old \<and>
         \<not> cap_issubset inheritable (cap_combine (cap_inheritable old) (cap_permitted old))
      then Inl EPERM
      else if \<not> cap_issubset inheritable (cap_combine (cap_inheritable old) (cap_bset old))
      then Inl EPERM
      else if \<not> cap_issubset permitted (cap_permitted old) then Inl EPERM
      else if \<not> cap_issubset effective permitted then Inl EPERM
      else Inr (new\<lparr>cap_effective := effective, cap_inheritable := inheritable,
                    cap_permitted := permitted\<rparr>))"

definition cap_emulate_setxuid :: "cred \<Rightarrow> cred \<Rightarrow> cred" where
  "cap_emulate_setxuid new old =
     (let new = (if (uid old = 0 \<or> euid old = 0 \<or> suid old = 0) \<and>
                    (uid new \<noteq> 0 \<and> euid new \<noteq> 0 \<and> suid new \<noteq> 0) \<and> \<not> issecure SECURE_KEEP_CAPS old
                 then new\<lparr>cap_permitted := CAP_EMPTY_SET, cap_effective := CAP_EMPTY_SET\<rparr> else new);
          new = (if euid old = 0 \<and> euid new \<noteq> 0 then new\<lparr>cap_effective := CAP_EMPTY_SET\<rparr> else new)
      in if euid old \<noteq> 0 \<and> euid new = 0 then new\<lparr>cap_effective := cap_permitted new\<rparr> else new)"

definition LSM_SETID_ID :: nat where "LSM_SETID_ID = 1"
definition LSM_SETID_RE :: nat where "LSM_SETID_RE = 2"
definition LSM_SETID_RES :: nat where "LSM_SETID_RES = 4"
definition LSM_SETID_FS :: nat where "LSM_SETID_FS = 8"

definition cap_task_fix_setuid :: "cred \<Rightarrow> cred \<Rightarrow> nat \<Rightarrow> cred result" where
  "cap_task_fix_setuid new old flags =
     (if flags = LSM_SETID_RE \<or> flags = LSM_SETID_ID \<or> flags = LSM_SETID_RES
      then Inr (if \<not> issecure SECURE_NO_SETUID_FIXUP old then cap_emulate_setxuid new old else new)
      else if flags = LSM_SETID_FS
      then Inr (if \<not> issecure SECURE_NO_SETUID_FIXUP old
                then (let new = (if fsuid old = 0 \<and> fsuid new \<noteq> 0
                                 then new\<lparr>cap_effective := cap_drop_fs_set (cap_effective new)\<rparr>
                                 else new)
                      in if fsuid old \<noteq> 0 \<and> fsuid new = 0
                         then new\<lparr>cap_effective :=
                                  cap_raise_fs_set (cap_effective new) (cap_permitted new)\<rparr>
                         else new)
                else new)
      else Inl EINVAL)"

definition cap_prctl_drop :: "cred \<Rightarrow> cred \<Rightarrow> u64 \<Rightarrow> cred result" where
  "cap_prctl_drop cur new cap =
     (if \<not> capable cur CAP_SETPCAP then Inl EPERM
      else if \<not> cap_valid (unat cap) then Inl EINVAL
      else Inr (new\<lparr>cap_bset := cap_lower (cap_bset new) (unat cap)\<rparr>))"

text \<open>
  \<open>cap_task_prctl\<close> returns its value and the credentials in force afterwards. \<open>prepare\<close> says
  whether \<open>prepare_creds\<close> found memory for the copy. The securebits argument is 64 bits wide
  and is compared at that width.
\<close>

definition PR_GET_KEEPCAPS :: nat where "PR_GET_KEEPCAPS = 7"
definition PR_SET_KEEPCAPS :: nat where "PR_SET_KEEPCAPS = 8"
definition PR_CAPBSET_READ :: nat where "PR_CAPBSET_READ = 23"
definition PR_CAPBSET_DROP :: nat where "PR_CAPBSET_DROP = 24"
definition PR_GET_SECUREBITS :: nat where "PR_GET_SECUREBITS = 27"
definition PR_SET_SECUREBITS :: nat where "PR_SET_SECUREBITS = 28"

definition cap_task_prctl :: "bool \<Rightarrow> cred \<Rightarrow> nat \<Rightarrow> u64 \<Rightarrow> (nat \<times> cred) result" where
  "cap_task_prctl prepare cur opt arg2 =
     (let new = cur; locks = ucast SECURE_ALL_LOCKS; bits = (ucast (securebits new) :: u64) in
      if \<not> prepare then Inl ENOMEM
      else if opt = PR_CAPBSET_READ then
        (if \<not> cap_valid (unat arg2) then Inl EINVAL
         else Inr (of_bool (cap_raised (cap_bset new) (unat arg2)), cur))
      else if opt = PR_CAPBSET_DROP then
        (case cap_prctl_drop cur new arg2 of Inl e \<Rightarrow> Inl e | Inr new \<Rightarrow> Inr (0, new))
      else if opt = PR_SET_SECUREBITS then
        (if drop_bit 1 (bits AND locks) AND (bits XOR arg2) \<noteq> 0
            \<or> bits AND locks AND NOT arg2 \<noteq> 0
            \<or> arg2 AND NOT (locks OR ucast SECURE_ALL_BITS) \<noteq> 0
            \<or> cap_capable cur CAP_SETPCAP \<noteq> Inr ()
         then Inl EPERM
         else Inr (0, new\<lparr>securebits := ucast arg2\<rparr>))
      else if opt = PR_GET_SECUREBITS then Inr (unat (securebits new), cur)
      else if opt = PR_GET_KEEPCAPS then Inr (of_bool (issecure SECURE_KEEP_CAPS cur), cur)
      else if opt = PR_SET_KEEPCAPS then
        (if arg2 > 1 then Inl EINVAL
         else if issecure SECURE_KEEP_CAPS_LOCKED cur then Inl EPERM
         else if arg2 \<noteq> 0
         then Inr (0, new\<lparr>securebits := securebits new OR issecure_mask SECURE_KEEP_CAPS\<rparr>)
         else Inr (0, new\<lparr>securebits := securebits new AND NOT (issecure_mask SECURE_KEEP_CAPS)\<rparr>))
      else Inl ENOSYS)"

section \<open>The capget and capset calls\<close>

text \<open>
  User memory is given by what reading and writing it yields: the header's version and pid,
  whether the version can be written back, and the array of data elements (\<open>None\<close> for a fault).
\<close>

record user_cap_data =
  ud_effective :: u32
  ud_permitted :: u32
  ud_inheritable :: u32

record cap_header =
  hd_version :: "u32 option"
  hd_writable :: bool
  hd_pid :: "int option"

definition cap_validate_magic :: "cap_header \<Rightarrow> nat result" where
  "cap_validate_magic h =
     (case hd_version h of
        None \<Rightarrow> Inl EFAULT
      | Some version \<Rightarrow>
          if version = 0x19980330 then Inr 1
          else if version = 0x20071026 \<or> version = 0x20080522 then Inr 2
          else if \<not> hd_writable h then Inl EFAULT else Inl EINVAL)"

definition cap_capget :: "cred \<Rightarrow> kernel_cap \<times> kernel_cap \<times> kernel_cap" where
  "cap_capget c = (cap_effective c, cap_inheritable c, cap_permitted c)"

text \<open>The credentials of another task are found by its pid, \<open>find_task_by_vpid\<close>.\<close>

definition cap_get_target_pid ::
  "(int \<Rightarrow> cred option) \<Rightarrow> int \<Rightarrow> cred \<Rightarrow> int \<Rightarrow> (kernel_cap \<times> kernel_cap \<times> kernel_cap) result" where
  "cap_get_target_pid tasks cur_pid cur pid =
     (if pid \<noteq> 0 \<and> pid \<noteq> cur_pid
      then (case tasks pid of None \<Rightarrow> Inl ESRCH | Some c \<Rightarrow> Inr (cap_capget c))
      else Inr (cap_capget cur))"

definition sys_capget ::
  "(int \<Rightarrow> cred option) \<Rightarrow> int \<Rightarrow> cred \<Rightarrow> cap_header \<Rightarrow> bool \<Rightarrow> user_cap_data list result" where
  "sys_capget tasks cur_pid cur h data_writable =
     (case cap_validate_magic h of
        Inl e \<Rightarrow> Inl e
      | Inr tocopy \<Rightarrow>
        (case hd_pid h of
           None \<Rightarrow> Inl EFAULT
         | Some pid \<Rightarrow>
           if pid < 0 then Inl EINVAL
           else (case cap_get_target_pid tasks cur_pid cur pid of
                   Inl e \<Rightarrow> Inl e
                 | Inr (pE, pI, pP) \<Rightarrow>
                   if \<not> data_writable then Inl EFAULT
                   else Inr (map (\<lambda>i. \<lparr>ud_effective = cap_word pE i, ud_permitted = cap_word pP i,
                                        ud_inheritable = cap_word pI i\<rparr>) [0..<tocopy]))))"

definition user_caps :: "(user_cap_data \<Rightarrow> u32) \<Rightarrow> user_cap_data list \<Rightarrow> kernel_cap" where
  "user_caps f kdata =
     Kernel_cap (if 0 < length kdata then f (kdata ! 0) else 0)
                (if 1 < length kdata then f (kdata ! 1) else 0)"

definition sys_capset ::
  "bool \<Rightarrow> int \<Rightarrow> cred \<Rightarrow> cap_header \<Rightarrow> user_cap_data list option \<Rightarrow> cred result" where
  "sys_capset prepare cur_pid cur h data =
     (case cap_validate_magic h of
        Inl e \<Rightarrow> Inl e
      | Inr tocopy \<Rightarrow>
        (case hd_pid h of
           None \<Rightarrow> Inl EFAULT
         | Some pid \<Rightarrow>
           if pid \<noteq> 0 \<and> pid \<noteq> cur_pid then Inl EPERM
           else (case data of
                   None \<Rightarrow> Inl EFAULT
                 | Some d \<Rightarrow>
                   if length d < tocopy then Inl EFAULT
                   else
                     (let kdata = take tocopy d in
                      if \<not> prepare then Inl ENOMEM
                      else cap_capset cur cur (user_caps ud_effective kdata)
                             (user_caps ud_inheritable kdata) (user_caps ud_permitted kdata)))))"

section \<open>Credentials of a new program\<close>

text \<open>
  What \<open>prepare_binprm\<close> reads of the file: \<open>xattr\<close> is \<open>None\<close> if the file system has no
  \<open>getxattr\<close>, and otherwise what reading the attribute \<open>security.capability\<close> into a
  buffer of \<open>XATTR_CAPS_SZ\<close> bytes returns; \<open>audit_fcaps\<close> is the verdict of
  \<open>audit_log_bprm_fcaps\<close>, \<open>read_head\<close> that of \<open>kernel_read\<close>.
\<close>

record exec_file =
  has_f_op :: bool
  mnt_nosuid :: bool
  x_mode :: u16
  x_uid :: u32
  x_gid :: u32
  xattr :: "u8 list result option"
  audit_fcaps :: "errno option"
  read_head :: "nat result"

text \<open>
  Of \<open>struct linux_binprm\<close> the fields that concern the credentials and the personality; the file, the
  buffer with its first bytes and the arguments are not part of the record.
\<close>

record linux_binprm =
  b_cred :: cred
  b_unsafe :: u32
  b_per_clear :: u32
  b_cap_effective :: bool
  b_cred_prepared :: bool

record cpu_vfs_cap_data =
  vc_magic_etc :: u32
  vc_permitted :: kernel_cap
  vc_inheritable :: kernel_cap

definition le32_at :: "u8 list \<Rightarrow> nat \<Rightarrow> u32" where
  "le32_at bs off = ucast (bs ! off) OR push_bit 8 (ucast (bs ! (off + 1))) OR
     push_bit 16 (ucast (bs ! (off + 2))) OR push_bit 24 (ucast (bs ! (off + 3)))"

definition VFS_CAP_REVISION_MASK :: u32 where "VFS_CAP_REVISION_MASK = 0xFF000000"
definition VFS_CAP_FLAGS_EFFECTIVE :: u32 where "VFS_CAP_FLAGS_EFFECTIVE = 0x000001"
definition VFS_CAP_REVISION_1 :: u32 where "VFS_CAP_REVISION_1 = 0x01000000"
definition VFS_CAP_REVISION_2 :: u32 where "VFS_CAP_REVISION_2 = 0x02000000"
definition XATTR_CAPS_SZ_1 :: nat where "XATTR_CAPS_SZ_1 = 12"
definition XATTR_CAPS_SZ_2 :: nat where "XATTR_CAPS_SZ_2 = 20"

definition vfs_caps_copy :: "u8 list \<Rightarrow> nat \<Rightarrow> cpu_vfs_cap_data" where
  "vfs_caps_copy bs tocopy =
     \<lparr>vc_magic_etc = le32_at bs 0,
      vc_permitted = Kernel_cap (le32_at bs 4) (if 1 < tocopy then le32_at bs 12 else 0),
      vc_inheritable = Kernel_cap (le32_at bs 8) (if 1 < tocopy then le32_at bs 16 else 0)\<rparr>"

definition get_vfs_caps_from_disk :: "u8 list result option \<Rightarrow> cpu_vfs_cap_data result" where
  "get_vfs_caps_from_disk x =
     (case x of
        None \<Rightarrow> Inl ENODATA
      | Some (Inl e) \<Rightarrow> if e = ENODATA \<or> e = EOPNOTSUPP then Inl ENODATA else Inl e
      | Some (Inr bs) \<Rightarrow>
          if length bs < 4 then Inl EINVAL
          else let rev = le32_at bs 0 AND VFS_CAP_REVISION_MASK in
            if rev = VFS_CAP_REVISION_1
            then (if length bs \<noteq> XATTR_CAPS_SZ_1 then Inl EINVAL else Inr (vfs_caps_copy bs 1))
            else if rev = VFS_CAP_REVISION_2
            then (if length bs \<noteq> XATTR_CAPS_SZ_2 then Inl EINVAL else Inr (vfs_caps_copy bs 2))
            else Inl EINVAL)"

text \<open>The result is the return value, the credentials and \<open>*effective\<close>.\<close>

definition bprm_caps_from_vfs_caps ::
  "cpu_vfs_cap_data \<Rightarrow> cred \<Rightarrow> bool \<Rightarrow> errno option \<times> cred \<times> bool" where
  "bprm_caps_from_vfs_caps caps new effective =
     (let effective = (if vc_magic_etc caps AND VFS_CAP_FLAGS_EFFECTIVE \<noteq> 0 then True else effective);
          perm = (\<lambda>i. (cap_word (cap_bset new) i AND cap_word (vc_permitted caps) i) OR
                      (cap_word (cap_inheritable new) i AND cap_word (vc_inheritable caps) i));
          new = new\<lparr>cap_permitted := Kernel_cap (perm 0) (perm 1)\<rparr>;
          ret = (if cap_word (vc_permitted caps) 0 AND NOT (perm 0) \<noteq> 0 \<or>
                    cap_word (vc_permitted caps) 1 AND NOT (perm 1) \<noteq> 0 then Some EPERM else None)
      in (if effective then ret else None, new, effective))"

definition bprm_clear_caps :: "cred \<Rightarrow> cred" where
  "bprm_clear_caps new = new\<lparr>cap_permitted := CAP_EMPTY_SET\<rparr>"

definition get_file_caps ::
  "bool \<Rightarrow> exec_file \<Rightarrow> cred \<Rightarrow> bool \<Rightarrow> errno option \<times> cred \<times> bool" where
  "get_file_caps file_caps_enabled f new effective =
     (let new = bprm_clear_caps new in
      if \<not> file_caps_enabled then (None, new, effective)
      else if mnt_nosuid f then (None, new, effective)
      else
        (case get_vfs_caps_from_disk (xattr f) of
           Inl e \<Rightarrow> (if e = ENODATA then None else Some e, new, effective)
         | Inr vcaps \<Rightarrow>
             (case bprm_caps_from_vfs_caps vcaps new effective of
                (None, new, effective) \<Rightarrow> (None, new, effective)
              | (Some e, new, effective) \<Rightarrow> (Some e, bprm_clear_caps new, effective))))"

definition LSM_UNSAFE_PTRACE_CAP :: u32 where "LSM_UNSAFE_PTRACE_CAP = 4"

text \<open>The steps of \<open>cap_bprm_set_creds\<close>: the emulation of root, the limits for a traced or
  shared task, and the ids and the effective set that follow.\<close>

definition bprm_emulate_root :: "cred \<Rightarrow> cred \<Rightarrow> bool \<Rightarrow> cred \<times> bool" where
  "bprm_emulate_root old new effective =
     (if \<not> issecure SECURE_NOROOT old
      then if effective \<and> uid new \<noteq> 0 \<and> euid new = 0 then (new, effective)
           else (if euid new = 0 \<or> uid new = 0
                 then new\<lparr>cap_permitted := cap_combine (cap_bset old) (cap_inheritable old)\<rparr> else new,
                 if euid new = 0 then True else effective)
      else (new, effective))"

definition bprm_limit_unsafe :: "cred \<Rightarrow> u32 \<Rightarrow> cred \<Rightarrow> cred" where
  "bprm_limit_unsafe old unsafe new =
     (if (euid new \<noteq> uid old \<or> egid new \<noteq> gid old \<or>
          \<not> cap_issubset (cap_permitted new) (cap_permitted old)) \<and>
         unsafe AND NOT LSM_UNSAFE_PTRACE_CAP \<noteq> 0
      then (let new = (if \<not> capable old CAP_SETUID then new\<lparr>euid := uid new, egid := gid new\<rparr> else new)
            in new\<lparr>cap_permitted := cap_intersect (cap_permitted new) (cap_permitted old)\<rparr>)
      else new)"

definition bprm_finish_ids :: "bool \<Rightarrow> bool \<Rightarrow> cred \<Rightarrow> cred" where
  "bprm_finish_ids is_init effective new =
     (let new = new\<lparr>suid := euid new, fsuid := euid new, sgid := egid new, fsgid := egid new\<rparr>
      in if \<not> is_init
         then new\<lparr>cap_effective := (if effective then cap_permitted new else CAP_EMPTY_SET)\<rparr>
         else new)"

definition cap_bprm_set_creds ::
  "bool \<Rightarrow> bool \<Rightarrow> cred \<Rightarrow> exec_file \<Rightarrow> linux_binprm \<Rightarrow> linux_binprm result" where
  "cap_bprm_set_creds file_caps_enabled is_init old f bprm =
     (case get_file_caps file_caps_enabled f (b_cred bprm) False of
        (Some e, _, _) \<Rightarrow> Inl e
      | (None, new, effective) \<Rightarrow>
          let (new, effective) = bprm_emulate_root old new effective;
              new = bprm_finish_ids is_init effective (bprm_limit_unsafe old (b_unsafe bprm) new);
              audit = (if \<not> cap_isclear (cap_effective new) \<and>
                          (\<not> cap_issubset CAP_FULL_SET (cap_effective new) \<or> euid new \<noteq> 0 \<or>
                           uid new \<noteq> 0 \<or> issecure SECURE_NOROOT old)
                       then audit_fcaps f else None)
          in case audit of
               Some e \<Rightarrow> Inl e
             | None \<Rightarrow>
                 Inr (bprm\<lparr>b_cred := new\<lparr>securebits :=
                             securebits new AND NOT (issecure_mask SECURE_KEEP_CAPS)\<rparr>,
                           b_cap_effective := effective\<rparr>))"

definition cap_bprm_secureexec :: "cred \<Rightarrow> linux_binprm \<Rightarrow> bool" where
  "cap_bprm_secureexec c bprm \<longleftrightarrow>
     (uid c \<noteq> 0 \<and> (b_cap_effective bprm \<or> \<not> cap_isclear (cap_permitted c))) \<or>
     euid c \<noteq> uid c \<or> egid c \<noteq> gid c"

definition S_ISUID :: u16 where "S_ISUID = 0x800"
definition S_ISGID :: u16 where "S_ISGID = 0x400"
definition S_IXGRP :: u16 where "S_IXGRP = 0x8"

text \<open>
  \<open>READ_IMPLIES_EXEC\<close>, \<open>ADDR_NO_RANDOMIZE\<close>, \<open>ADDR_COMPAT_LAYOUT\<close> and \<open>MMAP_PAGE_ZERO\<close>, and the part
  of \<open>prepare_binprm\<close> for the set-user-ID and set-group-ID bits of the file.
\<close>

definition PER_CLEAR_ON_SETID :: u32 where
  "PER_CLEAR_ON_SETID = 0x0400000 OR 0x0040000 OR 0x0200000 OR 0x0100000"

definition bprm_setid :: "cred \<Rightarrow> exec_file \<Rightarrow> linux_binprm \<Rightarrow> linux_binprm" where
  "bprm_setid cur f bprm =
     (let bprm = bprm\<lparr>b_cred := (b_cred bprm)\<lparr>euid := euid cur, egid := egid cur\<rparr>\<rparr>
      in if \<not> mnt_nosuid f
         then (let bprm = (if x_mode f AND S_ISUID \<noteq> 0
                           then bprm\<lparr>b_per_clear := b_per_clear bprm OR PER_CLEAR_ON_SETID,
                                     b_cred := (b_cred bprm)\<lparr>euid := x_uid f\<rparr>\<rparr>
                           else bprm)
               in if x_mode f AND (S_ISGID OR S_IXGRP) = S_ISGID OR S_IXGRP
                  then bprm\<lparr>b_per_clear := b_per_clear bprm OR PER_CLEAR_ON_SETID,
                            b_cred := (b_cred bprm)\<lparr>egid := x_gid f\<rparr>\<rparr>
                  else bprm)
         else bprm)"

definition prepare_binprm ::
  "bool \<Rightarrow> bool \<Rightarrow> cred \<Rightarrow> exec_file \<Rightarrow> linux_binprm \<Rightarrow> (nat \<times> linux_binprm) result" where
  "prepare_binprm file_caps_enabled is_init cur f bprm =
     (if \<not> has_f_op f then Inl EACCES
      else
        case cap_bprm_set_creds file_caps_enabled is_init cur f (bprm_setid cur f bprm) of
          Inl e \<Rightarrow> Inl e
        | Inr bprm \<Rightarrow>
            (case read_head f of
               Inl e \<Rightarrow> Inl e
             | Inr n \<Rightarrow> Inr (n, bprm\<lparr>b_cred_prepared := True\<rparr>)))"

end
