(* ===== verification/Credentials.thy ===== *)
theory Credentials
  imports Capability
begin

text \<open>
  The system calls that change the user and group ids of a task (\<^verbatim>\<open>kernel/sys.c\<close>) and its
  supplementary groups (\<^verbatim>\<open>kernel/groups.c\<close>), each on a copy of the credentials that is
  committed at the end, and the transition system of all calls on credentials. The theorems
  are about what a task can and cannot reach with them.
\<close>

section \<open>The calls\<close>

text \<open>
  What a call meets: whether \<open>prepare_creds\<close> finds memory, the verdict of the security
  module's hook (\<open>security_task_setuid\<close>, \<open>security_task_setgid\<close> or
  \<open>security_task_setgroups\<close>), the user structures \<open>alloc_uid\<close> returns, whether the
  scheduler lets the task switch to one, and the limit on processes.
\<close>

record cred_env =
  ce_prepare :: bool
  ce_lsm :: "errno option"
  ce_alloc_uid :: "u32 \<Rightarrow> user_struct option"
  ce_can_switch :: "user_struct \<Rightarrow> bool"
  ce_nproc :: u64

definition set_user :: "cred_env \<Rightarrow> cred \<Rightarrow> cred result" where
  "set_user env new =
     (case ce_alloc_uid env (uid new) of
        None \<Rightarrow> Inl EAGAIN
      | Some new_user \<Rightarrow>
          if \<not> ce_can_switch env new_user then Inl EINVAL
          else if scast (processes new_user) \<ge> ce_nproc env \<and> us_addr new_user \<noteq> INIT_USER then Inl EAGAIN
          else Inr (new\<lparr>cr_user := new_user\<rparr>))"

text \<open>The common start of a call: the copy and the security hook.\<close>

definition with_new_creds :: "cred_env \<Rightarrow> (cred \<Rightarrow> cred result) \<Rightarrow> cred \<Rightarrow> cred result" where
  "with_new_creds env f old =
     (if \<not> ce_prepare env then Inl ENOMEM
      else case ce_lsm env of Some e \<Rightarrow> Inl e | None \<Rightarrow> f old)"

definition sys_setregid :: "cred_env \<Rightarrow> u32 \<Rightarrow> u32 \<Rightarrow> cred \<Rightarrow> cred result" where
  "sys_setregid env rgid eg old = with_new_creds env (\<lambda>new.
     if rgid \<noteq> -1 \<and> \<not> (gid old = rgid \<or> egid old = rgid \<or> capable old CAP_SETGID) then Inl EPERM
     else let new = (if rgid \<noteq> -1 then new\<lparr>gid := rgid\<rparr> else new) in
     if eg \<noteq> -1 \<and> \<not> (gid old = eg \<or> egid old = eg \<or> sgid old = eg \<or> capable old CAP_SETGID)
     then Inl EPERM
     else let new = (if eg \<noteq> -1 then new\<lparr>egid := eg\<rparr> else new);
              new = (if rgid \<noteq> -1 \<or> (eg \<noteq> -1 \<and> eg \<noteq> gid old) then new\<lparr>sgid := egid new\<rparr> else new)
          in Inr (new\<lparr>fsgid := egid new\<rparr>)) old"

definition sys_setgid :: "cred_env \<Rightarrow> u32 \<Rightarrow> cred \<Rightarrow> cred result" where
  "sys_setgid env g old = with_new_creds env (\<lambda>new.
     if capable old CAP_SETGID then Inr (new\<lparr>gid := g, egid := g, sgid := g, fsgid := g\<rparr>)
     else if g = gid old \<or> g = sgid old then Inr (new\<lparr>egid := g, fsgid := g\<rparr>)
     else Inl EPERM) old"

definition sys_setreuid :: "cred_env \<Rightarrow> u32 \<Rightarrow> u32 \<Rightarrow> cred \<Rightarrow> cred result" where
  "sys_setreuid env ruid eu old = with_new_creds env (\<lambda>new.
     let new = (if ruid \<noteq> -1 then new\<lparr>uid := ruid\<rparr> else new) in
     if ruid \<noteq> -1 \<and> uid old \<noteq> ruid \<and> euid old \<noteq> ruid \<and> \<not> capable old CAP_SETUID then Inl EPERM
     else let new = (if eu \<noteq> -1 then new\<lparr>euid := eu\<rparr> else new) in
     if eu \<noteq> -1 \<and> uid old \<noteq> eu \<and> euid old \<noteq> eu \<and> suid old \<noteq> eu \<and> \<not> capable old CAP_SETUID
     then Inl EPERM
     else case (if uid new \<noteq> uid old then set_user env new else Inr new) of
            Inl e \<Rightarrow> Inl e
          | Inr new \<Rightarrow>
              let new = (if ruid \<noteq> -1 \<or> (eu \<noteq> -1 \<and> eu \<noteq> uid old) then new\<lparr>suid := euid new\<rparr> else new);
                  new = new\<lparr>fsuid := euid new\<rparr>
              in cap_task_fix_setuid new old LSM_SETID_RE) old"

definition sys_setuid :: "cred_env \<Rightarrow> u32 \<Rightarrow> cred \<Rightarrow> cred result" where
  "sys_setuid env u old = with_new_creds env (\<lambda>new.
     case (if capable old CAP_SETUID
           then let new = new\<lparr>suid := u, uid := u\<rparr>
                in if u \<noteq> uid old then set_user env new else Inr new
           else if u \<noteq> uid old \<and> u \<noteq> suid new then Inl EPERM else Inr new) of
       Inl e \<Rightarrow> Inl e
     | Inr new \<Rightarrow> cap_task_fix_setuid (new\<lparr>fsuid := u, euid := u\<rparr>) old LSM_SETID_ID) old"

definition sys_setresuid :: "cred_env \<Rightarrow> u32 \<Rightarrow> u32 \<Rightarrow> u32 \<Rightarrow> cred \<Rightarrow> cred result" where
  "sys_setresuid env ruid eu su old = with_new_creds env (\<lambda>new.
     if \<not> capable old CAP_SETUID \<and>
        ((ruid \<noteq> -1 \<and> ruid \<noteq> uid old \<and> ruid \<noteq> euid old \<and> ruid \<noteq> suid old) \<or>
         (eu \<noteq> -1 \<and> eu \<noteq> uid old \<and> eu \<noteq> euid old \<and> eu \<noteq> suid old) \<or>
         (su \<noteq> -1 \<and> su \<noteq> uid old \<and> su \<noteq> euid old \<and> su \<noteq> suid old)) then Inl EPERM
     else case (if ruid \<noteq> -1
                then let new = new\<lparr>uid := ruid\<rparr>
                     in if ruid \<noteq> uid old then set_user env new else Inr new
                else Inr new) of
            Inl e \<Rightarrow> Inl e
          | Inr new \<Rightarrow>
              let new = (if eu \<noteq> -1 then new\<lparr>euid := eu\<rparr> else new);
                  new = (if su \<noteq> -1 then new\<lparr>suid := su\<rparr> else new)
              in cap_task_fix_setuid (new\<lparr>fsuid := euid new\<rparr>) old LSM_SETID_RES) old"

definition sys_setresgid :: "cred_env \<Rightarrow> u32 \<Rightarrow> u32 \<Rightarrow> u32 \<Rightarrow> cred \<Rightarrow> cred result" where
  "sys_setresgid env rg eg sg old = with_new_creds env (\<lambda>new.
     if \<not> capable old CAP_SETGID \<and>
        ((rg \<noteq> -1 \<and> rg \<noteq> gid old \<and> rg \<noteq> egid old \<and> rg \<noteq> sgid old) \<or>
         (eg \<noteq> -1 \<and> eg \<noteq> gid old \<and> eg \<noteq> egid old \<and> eg \<noteq> sgid old) \<or>
         (sg \<noteq> -1 \<and> sg \<noteq> gid old \<and> sg \<noteq> egid old \<and> sg \<noteq> sgid old)) then Inl EPERM
     else let new = (if rg \<noteq> -1 then new\<lparr>gid := rg\<rparr> else new);
              new = (if eg \<noteq> -1 then new\<lparr>egid := eg\<rparr> else new);
              new = (if sg \<noteq> -1 then new\<lparr>sgid := sg\<rparr> else new)
          in Inr (new\<lparr>fsgid := egid new\<rparr>)) old"

text \<open>The two calls that return the former id, whether or not they change it.\<close>

definition sys_setfsuid :: "cred_env \<Rightarrow> u32 \<Rightarrow> cred \<Rightarrow> u32 \<times> cred" where
  "sys_setfsuid env u old =
     (if \<not> ce_prepare env \<or> ce_lsm env \<noteq> None then (fsuid old, old)
      else if u = uid old \<or> u = euid old \<or> u = suid old \<or> u = fsuid old \<or> capable old CAP_SETUID
      then (if u \<noteq> fsuid old
            then (case cap_task_fix_setuid (old\<lparr>fsuid := u\<rparr>) old LSM_SETID_FS of
                    Inr new \<Rightarrow> (fsuid old, new)
                  | Inl e \<Rightarrow> (fsuid old, old))
            else (fsuid old, old))
      else (fsuid old, old))"

definition sys_setfsgid :: "cred_env \<Rightarrow> u32 \<Rightarrow> cred \<Rightarrow> u32 \<times> cred" where
  "sys_setfsgid env g old =
     (if \<not> ce_prepare env \<or> ce_lsm env \<noteq> None then (fsgid old, old)
      else if g = gid old \<or> g = egid old \<or> g = sgid old \<or> g = fsgid old \<or> capable old CAP_SETGID
      then (if g \<noteq> fsgid old then (fsgid old, old\<lparr>fsgid := g\<rparr>) else (fsgid old, old))
      else (fsgid old, old))"

subsection \<open>Supplementary groups\<close>

text \<open>The outer \<open>None\<close> is an access outside the array of groups.\<close>

definition set_groups :: "cred_env \<Rightarrow> cred \<Rightarrow> group_info \<Rightarrow> cred result option" where
  "set_groups env new gi =
     (case ce_lsm env of
        Some e \<Rightarrow> Some (Inl e)
      | None \<Rightarrow> do { gi \<leftarrow> groups_sort gi; Some (Inr (new\<lparr>cr_group_info := gi\<rparr>)) })"

definition set_current_groups :: "cred_env \<Rightarrow> cred \<Rightarrow> group_info \<Rightarrow> cred result option" where
  "set_current_groups env cur gi =
     (if \<not> ce_prepare env then Some (Inl ENOMEM) else set_groups env cur gi)"

definition sys_setgroups ::
  "cred_env \<Rightarrow> group_mem \<Rightarrow> cred \<Rightarrow> u32 \<Rightarrow> (nat \<Rightarrow> gid option) \<Rightarrow> cred result option" where
  "sys_setgroups env mem cur gidsetsize usr =
     (if \<not> capable cur CAP_SETGID then Some (Inl EPERM)
      else if unat gidsetsize > NGROUPS_MAX then Some (Inl EINVAL)
      else case groups_alloc mem (unat gidsetsize) of
             None \<Rightarrow> Some (Inl ENOMEM)
           | Some gi \<Rightarrow> do {
               r \<leftarrow> groups_from_user gi usr;
               case r of Inl e \<Rightarrow> Some (Inl e) | Inr gi \<Rightarrow> set_current_groups env cur gi })"

definition sys_getgroups ::
  "cred \<Rightarrow> u32 \<Rightarrow> (nat \<Rightarrow> gid option) \<Rightarrow> (nat \<times> (nat \<Rightarrow> gid option)) result option" where
  "sys_getgroups cur gidsetsize usr =
     (if gidsetsize <s 0 then Some (Inl EINVAL)
      else let i = ngroups (cr_group_info cur) in
        if gidsetsize \<noteq> 0
        then if int i > sint gidsetsize then Some (Inl EINVAL)
             else do {
               r \<leftarrow> groups_to_user usr (cr_group_info cur);
               Some (case r of Inl e \<Rightarrow> Inl EFAULT | Inr usr' \<Rightarrow> Inr (i, usr')) }
        else Some (Inr (i, usr)))"

definition in_group_p :: "cred \<Rightarrow> gid \<Rightarrow> bool option" where
  "in_group_p c grp =
     (if grp \<noteq> fsgid c then groups_search (Some (cr_group_info c)) grp else Some True)"

definition in_egroup_p :: "cred \<Rightarrow> gid \<Rightarrow> bool option" where
  "in_egroup_p c grp =
     (if grp \<noteq> egid c then groups_search (Some (cr_group_info c)) grp else Some True)"

section \<open>Steps on credentials\<close>

text \<open>
  One successful call of a task on its own credentials. \<open>exec_step\<close> is the installation of
  the credentials \<open>prepare_binprm\<close> computes from a copy of the current ones.
\<close>

inductive cred_step :: "cred \<Rightarrow> cred \<Rightarrow> bool" where
  setregid: "sys_setregid env r e c = Inr c' \<Longrightarrow> cred_step c c'"
| setgid: "sys_setgid env g c = Inr c' \<Longrightarrow> cred_step c c'"
| setreuid: "sys_setreuid env r e c = Inr c' \<Longrightarrow> cred_step c c'"
| setuid: "sys_setuid env u c = Inr c' \<Longrightarrow> cred_step c c'"
| setresuid: "sys_setresuid env r e s c = Inr c' \<Longrightarrow> cred_step c c'"
| setresgid: "sys_setresgid env r e s c = Inr c' \<Longrightarrow> cred_step c c'"
| setfsuid: "sys_setfsuid env u c = (r, c') \<Longrightarrow> cred_step c c'"
| setfsgid: "sys_setfsgid env g c = (r, c') \<Longrightarrow> cred_step c c'"
| setgroups: "sys_setgroups env mem c n usr = Some (Inr c') \<Longrightarrow> cred_step c c'"
| capset: "sys_capset prep pid c h data = Inr c' \<Longrightarrow> cred_step c c'"
| prctl: "cap_task_prctl prep c opt arg = Inr (v, c') \<Longrightarrow> cred_step c c'"

definition exec_bprm :: "cred \<Rightarrow> u32 \<Rightarrow> linux_binprm" where
  "exec_bprm c unsafe = \<lparr>b_cred = c, b_unsafe = unsafe, b_per_clear = 0, b_cap_effective = False, b_cred_prepared = False\<rparr>"

inductive exec_step :: "bool \<Rightarrow> cred \<Rightarrow> cred \<Rightarrow> bool" for init where
  "prepare_binprm fcaps init c f (exec_bprm c unsafe) = Inr (n, bprm) \<Longrightarrow>
   exec_step init c (b_cred bprm)"

text \<open>
  What every call guarantees: no user id comes from nowhere without \<open>CAP_SETUID\<close>, no group
  without \<open>CAP_SETGID\<close>, no capability is added to the permitted or the bounding set, the
  effective set stays inside the permitted one, and locked securebits stay as they are.
\<close>

definition uids :: "cred \<Rightarrow> u32 set" where "uids c = {uid c, euid c, suid c}"

definition gids :: "cred \<Rightarrow> u32 set" where "gids c = {gid c, egid c, sgid c}"

definition locks_kept :: "u32 \<Rightarrow> u32 \<Rightarrow> bool" where
  "locks_kept s s' \<longleftrightarrow> (\<forall>n \<in> {SECURE_NOROOT, SECURE_NO_SETUID_FIXUP, SECURE_KEEP_CAPS}.
     bit s (Suc n) \<longrightarrow> bit s' (Suc n) \<and> bit s' n = bit s n)"

definition ids_confined :: "cred \<Rightarrow> cred \<Rightarrow> bool" where
  "ids_confined c c' \<longleftrightarrow>
     (\<not> capable c CAP_SETUID \<longrightarrow> uids c' \<subseteq> uids c \<and> fsuid c' \<in> insert (fsuid c) (uids c)) \<and>
     (\<not> capable c CAP_SETGID \<longrightarrow> gids c' \<subseteq> gids c \<and> fsgid c' \<in> insert (fsgid c) (gids c) \<and>
        cr_group_info c' = cr_group_info c)"

definition caps_confined :: "cred \<Rightarrow> cred \<Rightarrow> bool" where
  "caps_confined c c' \<longleftrightarrow>
     cap_issubset (cap_permitted c') (cap_permitted c) \<and> cap_issubset (cap_bset c') (cap_bset c) \<and>
     cap_issubset (cap_inheritable c') (cap_combine (cap_inheritable c) (cap_bset c)) \<and>
     (cap_issubset (cap_effective c) (cap_permitted c) \<longrightarrow>
      cap_issubset (cap_effective c') (cap_permitted c'))"

lemma caps_confined_refl: "caps_confined c c"
  by (simp add: caps_confined_def kcap.issubset_refl kcap.issubset_iff kcap.raised_combine)

lemma ids_confined_refl: "ids_confined c c"
  by (simp add: ids_confined_def)

lemma locks_kept_refl: "locks_kept s s"
  by (simp add: locks_kept_def)

lemma with_new_creds_Inr: "with_new_creds env f c = Inr c' \<longleftrightarrow> ce_prepare env \<and> ce_lsm env = None \<and> f c = Inr c'"
  by (simp add: with_new_creds_def split: option.splits)

text \<open>The capability module and \<open>set_user\<close> change nothing but their part.\<close>

definition caps_adjusted :: "cred \<Rightarrow> cred \<Rightarrow> bool" where
  "caps_adjusted new c \<longleftrightarrow> (\<exists>P E. c = new\<lparr>cap_permitted := P, cap_effective := E\<rparr> \<and>
     cap_issubset P (cap_permitted new) \<and>
     (cap_issubset (cap_effective new) (cap_permitted new) \<longrightarrow> cap_issubset E P))"

lemma caps_adjusted_effective:
  assumes "cap_issubset (cap_effective new) (cap_permitted new) \<Longrightarrow> cap_issubset E (cap_permitted new)"
  shows "caps_adjusted new (new\<lparr>cap_effective := E\<rparr>)"
  unfolding caps_adjusted_def
  by (rule exI [of _ "cap_permitted new"], rule exI [of _ E])
    (use assms in \<open>simp add: kcap.issubset_refl\<close>)

lemma caps_adjusted_refl: "caps_adjusted c c"
  using caps_adjusted_effective [of c "cap_effective c"] by simp

lemma caps_adjusted_trans:
  assumes "caps_adjusted a b" and "caps_adjusted b c"
  shows "caps_adjusted a c"
proof -
  obtain P E where b: "b = a\<lparr>cap_permitted := P, cap_effective := E\<rparr>" "cap_issubset P (cap_permitted a)"
    "cap_issubset (cap_effective a) (cap_permitted a) \<longrightarrow> cap_issubset E P"
    using assms(1) unfolding caps_adjusted_def by (elim exE conjE) (rule that)
  obtain P' E' where c: "c = b\<lparr>cap_permitted := P', cap_effective := E'\<rparr>" "cap_issubset P' P"
    "cap_issubset E P \<longrightarrow> cap_issubset E' P'"
    using assms(2) unfolding caps_adjusted_def by (elim exE conjE) (simp add: b that)
  show ?thesis
    unfolding caps_adjusted_def
    by (rule exI [of _ P'], rule exI [of _ E'])
      (use b c kcap.issubset_trans [OF c(2) b(2)] in simp)
qed

lemma caps_adjusted_clear:
  "caps_adjusted c (c\<lparr>cap_permitted := CAP_EMPTY_SET, cap_effective := CAP_EMPTY_SET\<rparr>)"
  unfolding caps_adjusted_def
  by (rule exI [of _ CAP_EMPTY_SET], rule exI [of _ CAP_EMPTY_SET]) (simp add: kcap.empty_issubset)

lemma caps_adjusted_cap_emulate_setxuid: "caps_adjusted new (cap_emulate_setxuid new old)"
proof -
  have clear: "caps_adjusted c (c\<lparr>cap_effective := CAP_EMPTY_SET\<rparr>)"
    and raise: "caps_adjusted c (c\<lparr>cap_effective := cap_permitted c\<rparr>)" for c
    by (rule caps_adjusted_effective, simp add: kcap.empty_issubset kcap.issubset_refl)+
  have all: "caps_adjusted c (if b then c\<lparr>cap_permitted := CAP_EMPTY_SET, cap_effective := CAP_EMPTY_SET\<rparr> else c)"
    "caps_adjusted c (if b then c\<lparr>cap_effective := CAP_EMPTY_SET\<rparr> else c)"
    "caps_adjusted c (if b then c\<lparr>cap_effective := cap_permitted c\<rparr> else c)" for b c
    using caps_adjusted_clear clear raise caps_adjusted_refl by (simp_all split: if_split)
  show ?thesis
    unfolding cap_emulate_setxuid_def Let_def 
    by (rule caps_adjusted_trans [OF all(1) caps_adjusted_trans [OF all(2) all(3)]])
qed

lemma fix_setuid_adjusts:
  assumes "cap_task_fix_setuid new old flags = Inr c"
  shows "caps_adjusted new c"
proof -
  have "caps_adjusted new (new\<lparr>cap_effective := cap_drop_fs_set (cap_effective new)\<rparr>)"
    by (rule caps_adjusted_effective) (simp add: cap_drop_fs_set_def kcap.drop_issubset)
  moreover have "caps_adjusted new
      (new\<lparr>cap_effective := cap_raise_fs_set (cap_effective new) (cap_permitted new)\<rparr>)"
    by (rule caps_adjusted_effective)
      (simp add: cap_raise_fs_set_def kcap.combine_issubset kcap.intersect_issubset)
  ultimately show ?thesis
    using assms caps_adjusted_refl [of new] caps_adjusted_cap_emulate_setxuid [of new old]
    by (auto simp: cap_task_fix_setuid_def Let_def split: if_splits)
qed

lemma set_user_user: "set_user env new = Inr c \<Longrightarrow> \<exists>u. c = new\<lparr>cr_user := u\<rparr>"
  by (auto simp: set_user_def split: option.splits if_splits)

lemma caps_adjusted_confined:
  assumes "caps_adjusted new c'" and "cap_permitted new = cap_permitted c"
    and "cap_effective new = cap_effective c" and "cap_bset new = cap_bset c"
    and "cap_inheritable new = cap_inheritable c"
  shows "caps_confined c c'"
  using assms
  by (auto simp: caps_adjusted_def caps_confined_def kcap.issubset_refl kcap.issubset_iff kcap.raised_combine)

text \<open>The calls on group ids change those alone.\<close>

definition gids_set :: "cred \<Rightarrow> cred \<Rightarrow> bool" where
  "gids_set c c' \<longleftrightarrow>
     c'\<lparr>gid := gid c, egid := egid c, sgid := sgid c, fsgid := fsgid c\<rparr> = c \<and>
     (\<not> capable c CAP_SETGID \<longrightarrow> gids c' \<subseteq> gids c \<and> fsgid c' \<in> insert (fsgid c) (gids c))"

lemma gids_set_confined:
  assumes "gids_set c c'"
  shows "ids_confined c c' \<and> caps_confined c c' \<and> securebits c' = securebits c \<and>
    cr_group_info c' = cr_group_info c"
proof -
  let ?d = "c'\<lparr>gid := gid c, egid := egid c, sgid := sgid c, fsgid := fsgid c\<rparr>"
  have c: "?d = c" using assms by (simp add: gids_set_def)
  have same: "uid c' = uid c" "euid c' = euid c" "suid c' = suid c" "fsuid c' = fsuid c"
    "securebits c' = securebits c" "cap_inheritable c' = cap_inheritable c" "cap_permitted c' = cap_permitted c"
    "cap_effective c' = cap_effective c" "cap_bset c' = cap_bset c" "cr_group_info c' = cr_group_info c"
    using arg_cong [OF c, of uid] arg_cong [OF c, of euid] arg_cong [OF c, of suid] arg_cong [OF c, of fsuid]
      arg_cong [OF c, of securebits] arg_cong [OF c, of cap_inheritable] arg_cong [OF c, of cap_permitted]
      arg_cong [OF c, of cap_effective] arg_cong [OF c, of cap_bset] arg_cong [OF c, of cr_group_info] by simp_all
  have "uids c' = uids c" by (simp add: uids_def same)
  then have "ids_confined c c'" using assms by (simp add: ids_confined_def gids_set_def same)
  moreover have "caps_confined c c'" using caps_confined_refl [of c] by (simp add: caps_confined_def same)
  ultimately show ?thesis by (simp add: same)
qed

lemma setregid_gids: "sys_setregid env r e c = Inr c' \<Longrightarrow> gids_set c c'"
  by (auto simp: sys_setregid_def with_new_creds_Inr Let_def gids_set_def gids_def split: if_split_asm)

lemma setgid_gids: "sys_setgid env g c = Inr c' \<Longrightarrow> gids_set c c'"
  by (auto simp: sys_setgid_def with_new_creds_Inr gids_set_def gids_def split: if_split_asm)

lemma setresgid_gids:
  assumes "sys_setresgid env r e s c = Inr c'"
  shows "gids_set c c'"
proof -
  have "r \<noteq> -1 \<longrightarrow> capable c CAP_SETGID \<or> r \<in> gids c" "e \<noteq> -1 \<longrightarrow> capable c CAP_SETGID \<or> e \<in> gids c"
    "s \<noteq> -1 \<longrightarrow> capable c CAP_SETGID \<or> s \<in> gids c"
    and "c' = (let new = (if r \<noteq> -1 then c\<lparr>gid := r\<rparr> else c); new = (if e \<noteq> -1 then new\<lparr>egid := e\<rparr> else new);
        new = (if s \<noteq> -1 then new\<lparr>sgid := s\<rparr> else new) in new\<lparr>fsgid := egid new\<rparr>)"
    using assms unfolding sys_setresgid_def with_new_creds_Inr gids_def
    by (simp_all add: Let_def split: if_split_asm) blast+
  then show ?thesis by (auto simp: gids_set_def gids_def Let_def)
qed

lemma setfsgid_gids: "sys_setfsgid env g c = (r, c') \<Longrightarrow> gids_set c c'"
  by (auto simp: sys_setfsgid_def gids_set_def gids_def split: if_split_asm)

text \<open>The calls on user ids end in \<open>cap_task_fix_setuid\<close> applied to a copy with other ids.\<close>

definition uids_set :: "cred \<Rightarrow> cred \<Rightarrow> bool" where
  "uids_set c new \<longleftrightarrow> (\<exists>r e s f u.
     new = c\<lparr>uid := r, euid := e, suid := s, fsuid := f, cr_user := u\<rparr> \<and>
     (\<not> capable c CAP_SETUID \<longrightarrow> {r, e, s} \<subseteq> uids c \<and> f \<in> insert (fsuid c) (uids c)))"

lemma uids_setI:
  assumes "new\<lparr>uid := uid c, euid := euid c, suid := suid c, fsuid := fsuid c, cr_user := cr_user c\<rparr> = c"
    and "\<not> capable c CAP_SETUID \<Longrightarrow> uids new \<subseteq> uids c \<and> fsuid new \<in> insert (fsuid c) (uids c)"
  shows "uids_set c new"
  unfolding uids_set_def
proof (intro exI conjI impI)
  show "new = c\<lparr>uid := uid new, euid := euid new, suid := suid new, fsuid := fsuid new, cr_user := cr_user new\<rparr>"
    by (subst assms(1) [symmetric]) simp
qed (use assms(2) in \<open>auto simp: uids_def\<close>)

lemma uids_set_confined:
  assumes "uids_set c new" and "caps_adjusted new c'"
  shows "ids_confined c c' \<and> caps_confined c c' \<and> securebits c' = securebits c \<and>
    cr_group_info c' = cr_group_info c"
proof -
  obtain r e s f u where new: "new = c\<lparr>uid := r, euid := e, suid := s, fsuid := f, cr_user := u\<rparr>"
    and ids: "\<not> capable c CAP_SETUID \<longrightarrow> {r, e, s} \<subseteq> uids c \<and> f \<in> insert (fsuid c) (uids c)"
    using assms(1) unfolding uids_set_def by (elim exE conjE) (rule that)
  obtain P E where c': "c' = new\<lparr>cap_permitted := P, cap_effective := E\<rparr>"
    using assms(2) unfolding caps_adjusted_def by (elim exE conjE) (rule that)
  have "caps_confined c c'"
    using assms(2) by (rule caps_adjusted_confined) (simp_all add: new)
  moreover have "uids c' = {r, e, s}" "fsuid c' = f" "gids c' = gids c" "fsgid c' = fsgid c"
    "cr_group_info c' = cr_group_info c" "securebits c' = securebits c"
    by (simp_all add: c' new uids_def gids_def)
  ultimately show ?thesis using ids by (simp add: ids_confined_def)
qed

lemma set_user_if:
  assumes "(if b then set_user env new else Inr new) = Inr c"
  obtains u where "c = new\<lparr>cr_user := u\<rparr>"
proof (cases b)
  case True
  then show ?thesis using assms set_user_user [of env new c] that by auto
next
  case False
  then show ?thesis using assms that [of "cr_user new"] by simp
qed

lemma setreuid_uids:
  assumes "sys_setreuid env r e c = Inr c'"
  obtains new where "uids_set c new" and "cap_task_fix_setuid new c LSM_SETID_RE = Inr c'"
proof -
  define new0 where "new0 = (let new = (if r \<noteq> -1 then c\<lparr>uid := r\<rparr> else c)
    in if e \<noteq> -1 then new\<lparr>euid := e\<rparr> else new)"
  have perm: "r \<noteq> -1 \<longrightarrow> capable c CAP_SETUID \<or> r \<in> uids c" "e \<noteq> -1 \<longrightarrow> capable c CAP_SETUID \<or> e \<in> uids c"
    using assms by (auto simp: sys_setreuid_def with_new_creds_Inr Let_def uids_def split: if_splits)
  obtain new1 where new1: "(if uid new0 \<noteq> uid c then set_user env new0 else Inr new0) = Inr new1"
    and c': "cap_task_fix_setuid (let new = (if r \<noteq> -1 \<or> (e \<noteq> -1 \<and> e \<noteq> uid c)
        then new1\<lparr>suid := euid new1\<rparr> else new1) in new\<lparr>fsuid := euid new\<rparr>) c LSM_SETID_RE = Inr c'"
    using assms unfolding sys_setreuid_def with_new_creds_Inr Let_def new0_def
    by (simp split: if_split_asm sum.split_asm)
  from new1 obtain u where "new1 = new0\<lparr>cr_user := u\<rparr>" by (rule set_user_if)
  then show ?thesis
    using perm by (intro that [OF _ c'] uids_setI) (auto simp: new0_def Let_def uids_def)
qed

lemma setuid_uids:
  assumes "sys_setuid env u c = Inr c'"
  obtains new where "uids_set c new" and "cap_task_fix_setuid new c LSM_SETID_ID = Inr c'"
    and "uid new = u \<or> \<not> capable c CAP_SETUID" and "suid new = u \<or> \<not> capable c CAP_SETUID"
    and "euid new = u" and "fsuid new = u"
proof (cases "capable c CAP_SETUID")
  case True
  then obtain new1 where new1: "(if u \<noteq> uid c then set_user env (c\<lparr>suid := u, uid := u\<rparr>)
        else Inr (c\<lparr>suid := u, uid := u\<rparr>)) = Inr new1"
    and c': "cap_task_fix_setuid (new1\<lparr>fsuid := u, euid := u\<rparr>) c LSM_SETID_ID = Inr c'"
    using assms by (auto simp: sys_setuid_def with_new_creds_Inr Let_def split: sum.splits)
  from new1 obtain v where "new1 = (c\<lparr>suid := u, uid := u\<rparr>)\<lparr>cr_user := v\<rparr>" by (rule set_user_if)
  then show ?thesis using True by (intro that [OF _ c'] uids_setI) auto
next
  case False
  then have "cap_task_fix_setuid (c\<lparr>fsuid := u, euid := u\<rparr>) c LSM_SETID_ID = Inr c'"
    and "u = uid c \<or> u = suid c"
    using assms by (auto simp: sys_setuid_def with_new_creds_Inr split: if_splits)
  then show ?thesis using False by (intro that [of "c\<lparr>fsuid := u, euid := u\<rparr>"] uids_setI) (auto simp: uids_def)
qed

lemma setresuid_uids:
  assumes "sys_setresuid env r e s c = Inr c'"
  obtains new where "uids_set c new" and "cap_task_fix_setuid new c LSM_SETID_RES = Inr c'"
proof -
  let ?new0 = "if r \<noteq> -1 then c\<lparr>uid := r\<rparr> else c"
  have perm: "r \<noteq> -1 \<longrightarrow> capable c CAP_SETUID \<or> r \<in> uids c" "e \<noteq> -1 \<longrightarrow> capable c CAP_SETUID \<or> e \<in> uids c"
    "s \<noteq> -1 \<longrightarrow> capable c CAP_SETUID \<or> s \<in> uids c"
    using assms by (auto simp: sys_setresuid_def with_new_creds_Inr Let_def uids_def split: if_splits)
  obtain new1 where new1: "(if r \<noteq> -1 \<and> r \<noteq> uid c then set_user env ?new0 else Inr ?new0) = Inr new1"
    and c': "cap_task_fix_setuid (let new = (if e \<noteq> -1 then new1\<lparr>euid := e\<rparr> else new1);
        new = (if s \<noteq> -1 then new\<lparr>suid := s\<rparr> else new) in new\<lparr>fsuid := euid new\<rparr>) c LSM_SETID_RES = Inr c'"
    using assms unfolding sys_setresuid_def with_new_creds_Inr Let_def
    by (simp split: if_split_asm sum.split_asm)
  from new1 obtain u where "new1 = ?new0\<lparr>cr_user := u\<rparr>" by (rule set_user_if)
  then show ?thesis
    using perm by (intro that [OF _ c'] uids_setI) (auto simp: Let_def uids_def)
qed

lemma setfsuid_uids:
  assumes "sys_setfsuid env u c = (r, c')"
  obtains new where "uids_set c new" and "cap_task_fix_setuid new c LSM_SETID_FS = Inr c'"
proof -
  have "cap_task_fix_setuid c c LSM_SETID_FS = Inr c"
    by (simp add: cap_task_fix_setuid_def LSM_SETID_FS_def LSM_SETID_RE_def LSM_SETID_ID_def
        LSM_SETID_RES_def Let_def)
  moreover have "uids_set c c" by (rule uids_setI) simp_all
  moreover have "uids_set c (c\<lparr>fsuid := u\<rparr>)"
    if "u = uid c \<or> u = euid c \<or> u = suid c \<or> u = fsuid c \<or> capable c CAP_SETUID"
    using that by (intro uids_setI) (auto simp: uids_def)
  ultimately show ?thesis
    using assms that by (auto simp: sys_setfsuid_def split: if_splits sum.splits)
qed

lemma capset_confined:
  assumes "sys_capset prep pid c h data = Inr c'"
  shows "ids_confined c c' \<and> caps_confined c c' \<and> securebits c' = securebits c \<and>
    cr_group_info c' = cr_group_info c"
proof -
  obtain E I P where "cap_capset c c E I P = Inr c'"
    using assms by (auto simp: sys_capset_def Let_def split: sum.splits option.splits if_splits)
  then have "c' = c\<lparr>cap_effective := E, cap_inheritable := I, cap_permitted := P\<rparr>"
    "cap_issubset I (cap_combine (cap_inheritable c) (cap_bset c))" "cap_issubset P (cap_permitted c)"
    "cap_issubset E P"
    by (simp_all add: cap_capset_def split: if_split_asm)
  then show ?thesis by (simp add: ids_confined_def caps_confined_def uids_def gids_def kcap.issubset_refl)
qed

lemma setgroups_confined:
  assumes "sys_setgroups env mem c n usr = Some (Inr c')"
  shows "ids_confined c c' \<and> caps_confined c c' \<and> securebits c' = securebits c"
proof -
  obtain gi where "capable c CAP_SETGID" and "c' = c\<lparr>cr_group_info := gi\<rparr>"
    using assms by (auto simp: sys_setgroups_def set_current_groups_def set_groups_def
      split: if_splits option.splits bind_splits sum.splits)
  then show ?thesis
    using caps_confined_refl [of c] by (simp add: ids_confined_def caps_confined_def uids_def gids_def)
qed

text \<open>The masks as numbers, for reading single bits.\<close>

lemma secure_masks: "SECURE_ALL_BITS = 21" "SECURE_ALL_LOCKS = 42" "issecure_mask SECURE_KEEP_CAPS = 16"
  by (simp_all add: SECURE_ALL_BITS_def SECURE_ALL_LOCKS_def issecure_mask_def SECURE_NOROOT_def
      SECURE_NO_SETUID_FIXUP_def SECURE_KEEP_CAPS_def)

lemma locks_kept_securebits:
  fixes s :: u32 and arg :: u64
  assumes changed: "drop_bit 1 ((ucast s :: u64) AND ucast SECURE_ALL_LOCKS) AND (ucast s XOR arg) = 0"
    and unlocked: "(ucast s :: u64) AND ucast SECURE_ALL_LOCKS AND NOT arg = 0"
  shows "locks_kept s (ucast arg)"
proof -
  have c: "\<not> bit (drop_bit 1 ((ucast s :: u64) AND ucast SECURE_ALL_LOCKS) AND (ucast s XOR arg)) n"
    and u: "\<not> bit ((ucast s :: u64) AND ucast SECURE_ALL_LOCKS AND NOT arg) n" for n
    by (simp_all only: changed unlocked bit_0_eq bot_apply bot_bool_def not_False_eq_True)
  show ?thesis
    using c [of 0] c [of 2] c [of 4] u [of 1] u [of 3] u [of 5]
    by (simp add: locks_kept_def SECURE_NOROOT_def SECURE_NO_SETUID_FIXUP_def SECURE_KEEP_CAPS_def
        secure_masks bit_simps numeral_3_eq_3)
qed

lemma issecure_bit: "issecure n c \<longleftrightarrow> n < 32 \<and> bit (securebits c) n"
  by (auto simp: issecure_def issecure_mask_def and.commute and_exp_eq_0_iff_not_bit dest: bit_imp_le_length)

lemma locks_kept_keepcaps:
  fixes s :: u32
  assumes "\<not> bit s 5"
  shows "locks_kept s (s OR issecure_mask SECURE_KEEP_CAPS)"
    and "locks_kept s (s AND NOT (issecure_mask SECURE_KEEP_CAPS))"
  using assms by (simp_all add: locks_kept_def SECURE_NOROOT_def SECURE_NO_SETUID_FIXUP_def
      SECURE_KEEP_CAPS_def issecure_mask_def bit_simps)

lemma cap_issubset_lower: "cap_issubset (cap_lower a k) a"
proof -
  have "(x AND NOT m) AND NOT x = 0" for x m :: u32 by (simp add: bit_eq_iff bit_simps)
  then show ?thesis by (simp add: cap_issubset_def cap_isclear_def cap_drop_def cap_lower_def)
qed

lemma caps_confined_bset: "cap_issubset B (cap_bset c) \<Longrightarrow> caps_confined c (c\<lparr>cap_bset := B\<rparr>)"
  using caps_confined_refl [of c] by (simp add: caps_confined_def)

lemma prctl_cases:
  assumes "cap_task_prctl prep c opt arg = Inr (v, c')"
  obtains "c' = c" | B where "c' = c\<lparr>cap_bset := B\<rparr>" "cap_issubset B (cap_bset c)"
    | s where "c' = c\<lparr>securebits := s\<rparr>" "locks_kept (securebits c) s"
proof (cases "opt = PR_CAPBSET_DROP \<or> opt = PR_SET_SECUREBITS \<or> opt = PR_SET_KEEPCAPS")
  case False
  then show ?thesis using assms that(1) by (auto simp: cap_task_prctl_def Let_def split: if_splits)
next
  case True
  then consider "opt = PR_CAPBSET_DROP" | "opt = PR_SET_SECUREBITS" | "opt = PR_SET_KEEPCAPS" by blast
  then show ?thesis
  proof cases
    case 1
    then have "c' = c\<lparr>cap_bset := cap_lower (cap_bset c) (unat arg)\<rparr>"
      using assms by (simp add: cap_task_prctl_def cap_prctl_drop_def PR_CAPBSET_DROP_def
        PR_CAPBSET_READ_def Let_def split: if_split_asm)
    then show ?thesis using that(2) cap_issubset_lower by blast
  next
    case 2
    then have "c' = c\<lparr>securebits := ucast arg\<rparr>" "locks_kept (securebits c) (ucast arg)"
      using assms by (auto simp: cap_task_prctl_def PR_SET_SECUREBITS_def PR_CAPBSET_DROP_def
        PR_CAPBSET_READ_def Let_def intro!: locks_kept_securebits split: if_split_asm)
    then show ?thesis by (rule that(3))
  next
    case 3
    then have "\<not> issecure SECURE_KEEP_CAPS_LOCKED c" "c' = c\<lparr>securebits :=
        if arg \<noteq> 0 then securebits c OR issecure_mask SECURE_KEEP_CAPS
        else securebits c AND NOT (issecure_mask SECURE_KEEP_CAPS)\<rparr>"
      using assms by (auto simp: cap_task_prctl_def PR_SET_SECUREBITS_def PR_CAPBSET_DROP_def
        PR_CAPBSET_READ_def PR_GET_SECUREBITS_def PR_GET_KEEPCAPS_def PR_SET_KEEPCAPS_def Let_def
        split: if_split_asm)
    then show ?thesis
      using that(3) locks_kept_keepcaps [of "securebits c"]
      by (cases "arg = 0") (auto simp: issecure_bit SECURE_KEEP_CAPS_LOCKED_def)
  qed
qed

lemma prctl_confined:
  assumes "cap_task_prctl prep c opt arg = Inr (v, c')"
  shows "ids_confined c c' \<and> caps_confined c c' \<and> locks_kept (securebits c) (securebits c') \<and>
    cr_group_info c' = cr_group_info c"
  using assms
proof (cases rule: prctl_cases)
  case 1
  then show ?thesis by (simp add: caps_confined_refl ids_confined_refl locks_kept_refl)
next
  case (2 B)
  then show ?thesis using caps_confined_bset
    by (simp add: ids_confined_def uids_def gids_def locks_kept_refl)
next
  case (3 s)
  then show ?thesis using caps_confined_refl [of c]
    by (simp add: ids_confined_def uids_def gids_def caps_confined_def)
qed

text \<open>A step sets group ids, sets user ids and adjusts the capabilities, or is one of the other
  three calls.\<close>

lemma cred_step_kinds:
  assumes "cred_step c c'"
  obtains (gids) "gids_set c c'"
    | (uids) new where "uids_set c new" and "caps_adjusted new c'"
    | (groups) env mem n usr where "sys_setgroups env mem c n usr = Some (Inr c')"
    | (capset) prep pid h data where "sys_capset prep pid c h data = Inr c'"
    | (prctl) prep opt arg v where "cap_task_prctl prep c opt arg = Inr (v, c')"
proof -
  have fix_uids: thesis if "uids_set c new" "cap_task_fix_setuid new c fl = Inr c'" for new fl
    using that(1) fix_setuid_adjusts [OF that(2)] by (rule uids)
  show ?thesis
    using assms
  proof cases
    case setreuid
    then show ?thesis by (rule setreuid_uids) (rule fix_uids)
  next
    case setuid
    then show ?thesis by (rule setuid_uids) (rule fix_uids)
  next
    case setresuid
    then show ?thesis by (rule setresuid_uids) (rule fix_uids)
  next
    case setfsuid
    then show ?thesis by (rule setfsuid_uids) (rule fix_uids)
  qed (blast intro: gids groups capset prctl setregid_gids setgid_gids setresgid_gids setfsgid_gids)+
qed

lemma cred_step_confined:
  assumes "cred_step c c'"
  shows "ids_confined c c' \<and> caps_confined c c' \<and> locks_kept (securebits c) (securebits c')"
  using assms
proof (cases rule: cred_step_kinds)
  case gids
  then show ?thesis using gids_set_confined by (simp add: locks_kept_refl)
next
  case (uids new)
  then show ?thesis using uids_set_confined by (simp add: locks_kept_refl)
next
  case groups
  from setgroups_confined [OF this] show ?thesis by (simp add: locks_kept_refl)
next
  case capset
  from capset_confined [OF this] show ?thesis by (simp add: locks_kept_refl)
next
  case prctl
  from prctl_confined [OF this] show ?thesis by simp
qed

lemma locks_kept_trans: "locks_kept s t \<Longrightarrow> locks_kept t u \<Longrightarrow> locks_kept s u"
  by (simp add: locks_kept_def)

section \<open>What a task can reach\<close>

lemma reach_confined:
  assumes "cred_step\<^sup>*\<^sup>* c c'" and "cap_issubset (cap_effective c) (cap_permitted c)"
  shows "cap_issubset (cap_permitted c') (cap_permitted c) \<and> cap_issubset (cap_bset c') (cap_bset c) \<and>
    cap_issubset (cap_effective c') (cap_permitted c') \<and> locks_kept (securebits c) (securebits c') \<and>
    (\<not> cap_raised (cap_permitted c) CAP_SETUID \<longrightarrow>
       uids c' \<subseteq> uids c \<and> fsuid c' \<in> insert (fsuid c) (uids c)) \<and>
    (\<not> cap_raised (cap_permitted c) CAP_SETGID \<longrightarrow>
       gids c' \<subseteq> gids c \<and> fsgid c' \<in> insert (fsgid c) (gids c) \<and> cr_group_info c' = cr_group_info c)"
  using assms
proof (induction rule: rtranclp_induct)
  case base
  then show ?case by (simp add: kcap.issubset_refl locks_kept_refl)
next
  case (step d e)
  then have IH: "cap_issubset (cap_permitted d) (cap_permitted c)" "cap_issubset (cap_bset d) (cap_bset c)"
    "cap_issubset (cap_effective d) (cap_permitted d)" "locks_kept (securebits c) (securebits d)"
    "\<not> cap_raised (cap_permitted c) CAP_SETUID \<Longrightarrow> uids d \<subseteq> uids c \<and> fsuid d \<in> insert (fsuid c) (uids c)"
    "\<not> cap_raised (cap_permitted c) CAP_SETGID \<Longrightarrow> gids d \<subseteq> gids c \<and> fsgid d \<in> insert (fsgid c) (gids c) \<and>
       cr_group_info d = cr_group_info c" by simp_all
  from cred_step_confined [OF step.hyps(2)]
  have ids: "ids_confined d e" and caps: "caps_confined d e" and locks: "locks_kept (securebits d) (securebits e)"
    by simp_all
  have nocap: "\<not> capable d k" if "\<not> cap_raised (cap_permitted c) k" for k
    using that kcap.issubsetD [OF IH(3)] kcap.issubsetD [OF IH(1)] by (auto simp: capable_def cap_capable_def)
  have "cap_issubset (cap_permitted e) (cap_permitted c)" "cap_issubset (cap_bset e) (cap_bset c)"
    "cap_issubset (cap_effective e) (cap_permitted e)"
    using caps IH kcap.issubset_trans by (auto simp: caps_confined_def)
  moreover have "uids e \<subseteq> uids c \<and> fsuid e \<in> insert (fsuid c) (uids c)"
    if "\<not> cap_raised (cap_permitted c) CAP_SETUID"
    using IH(5) [OF that] ids nocap [OF that] by (auto simp: ids_confined_def)
  moreover have "gids e \<subseteq> gids c \<and> fsgid e \<in> insert (fsgid c) (gids c) \<and> cr_group_info e = cr_group_info c"
    if "\<not> cap_raised (cap_permitted c) CAP_SETGID"
    using IH(6) [OF that] ids nocap [OF that] by (auto simp: ids_confined_def)
  ultimately show ?case using locks_kept_trans [OF IH(4) locks] by simp
qed

text \<open>C22.
  A task that is permitted no \<open>CAP_SETUID\<close> (\<open>CAP_SETGID\<close>) can by no sequence of calls
  acquire a user id (group id, supplementary group) it does not already have as real, effective
  or saved id. No sequence of calls enlarges the permitted set or the bounding set, the
  effective set stays within the permitted one, and locked securebits stay locked and as they
  are.
\<close>

theorem unprivileged_task_confined:
  assumes "cred_step\<^sup>*\<^sup>* c c'" and "cap_issubset (cap_effective c) (cap_permitted c)"
  shows "cap_issubset (cap_permitted c') (cap_permitted c) \<and> cap_issubset (cap_bset c') (cap_bset c) \<and>
    cap_issubset (cap_effective c') (cap_permitted c') \<and> locks_kept (securebits c) (securebits c') \<and>
    (\<not> cap_raised (cap_permitted c) CAP_SETUID \<longrightarrow>
       uids c' \<subseteq> uids c \<and> fsuid c' \<in> insert (fsuid c) (uids c)) \<and>
    (\<not> cap_raised (cap_permitted c) CAP_SETGID \<longrightarrow>
       gids c' \<subseteq> gids c \<and> fsgid c' \<in> insert (fsgid c) (gids c) \<and> cr_group_info c' = cr_group_info c)"
  using assms by (rule reach_confined)



definition small_groups :: group_info where
  "small_groups = \<lparr>ngroups = 2, nblocks = 1, small_block = [4, 20] @ replicate 30 0, blocks = [Small_block]\<rparr>"

definition root_cred :: cred where
  "root_cred = \<lparr>uid = 0, gid = 0, suid = 0, sgid = 0, euid = 0, egid = 0, fsuid = 0, fsgid = 0,
     securebits = 0, cap_inheritable = CAP_EMPTY_SET, cap_permitted = CAP_FULL_SET,
     cap_effective = CAP_FULL_SET, cap_bset = CAP_FULL_SET, cr_user = \<lparr>us_addr = INIT_USER, processes = 7\<rparr>,
     cr_group_info = small_groups\<rparr>"

definition usual_env :: cred_env where
  "usual_env = \<lparr>ce_prepare = True, ce_lsm = None, ce_alloc_uid = (\<lambda>u. Some \<lparr>us_addr = unat u, processes = 3\<rparr>),
     ce_can_switch = (\<lambda>_. True), ce_nproc = 100\<rparr>"

definition user_cred :: cred where
  "user_cred = root_cred\<lparr>uid := 1000, suid := 1000, euid := 1000, fsuid := 1000,
     cr_user := \<lparr>us_addr = 1000, processes = 3\<rparr>, cap_permitted := CAP_EMPTY_SET, cap_effective := CAP_EMPTY_SET\<rparr>"

lemma capable_root: "capable root_cred CAP_SETUID" "capable root_cred CAP_SETGID"
  by (simp_all add: capable_def cap_capable_def root_cred_def CAP_FULL_SET_def CAP_SETUID_def
      CAP_SETGID_def cap_raised_bit)




definition daemon_cred :: cred where
  "daemon_cred = user_cred\<lparr>euid := 5, suid := 5, fsuid := 5\<rparr>"

theorem unprivileged_task_confined_witness:
  "\<not> cap_raised (cap_permitted daemon_cred) CAP_SETUID \<and>
   cred_step\<^sup>*\<^sup>* daemon_cred (daemon_cred\<lparr>fsuid := 1000\<rparr>) \<and>
   uids (daemon_cred\<lparr>fsuid := 1000\<rparr>) \<subseteq> uids daemon_cred \<and> 1000 \<in> insert (fsuid daemon_cred) (uids daemon_cred)"
proof -
  have "sys_setfsuid usual_env 1000 daemon_cred = (5, daemon_cred\<lparr>fsuid := 1000\<rparr>)"
    by (simp add: sys_setfsuid_def usual_env_def daemon_cred_def user_cred_def cap_task_fix_setuid_def
        LSM_SETID_FS_def LSM_SETID_RE_def LSM_SETID_ID_def LSM_SETID_RES_def)
  then have step: "cred_step\<^sup>*\<^sup>* daemon_cred (daemon_cred\<lparr>fsuid := 1000\<rparr>)"
    by (intro r_into_rtranclp cred_step.setfsuid)
  have "cap_issubset (cap_effective daemon_cred) (cap_permitted daemon_cred)"
    by (simp add: daemon_cred_def user_cred_def kcap.issubset_refl)
  from unprivileged_task_confined [OF step this] step show ?thesis
    by (simp add: daemon_cred_def user_cred_def kcap.raised_empty)
qed

section \<open>Supplementary groups from end to end\<close>

lemma setgroups_sorts:
  assumes "capable c CAP_SETGID" and n: "unat n = length xs" "length xs \<le> NGROUPS_MAX"
    and alloc: "groups_alloc mem (length xs) = Some gi" and env: "ce_prepare env" "ce_lsm env = None"
    and usr: "\<And>i. i < length xs \<Longrightarrow> usr i = Some (xs ! i)"
  obtains gi' where "sys_setgroups env mem c n usr = Some (Inr (c\<lparr>cr_group_info := gi'\<rparr>))"
    and "group_ok gi'" and "ngroups gi' = length xs" and "groups_list gi' = sort xs"
proof -
  have gi: "group_ok gi" "ngroups gi = length xs" using groups_alloc_ok [OF alloc n(2)] by auto
  then obtain g where g: "groups_from_user gi usr = Some (Inr g)" "group_ok g" "ngroups g = length xs"
      "map Some (groups_list g) = map usr [0..<length xs]"
    using groups_from_user_reads [of gi usr] usr by auto
  have "map Some (groups_list g) = map Some xs"
    unfolding g(4) using usr by (intro nth_equalityI) simp_all
  then have list: "groups_list g = xs" by (simp add: inj_map_eq_map)
  obtain gi' where gi': "groups_sort g = Some gi'" "group_ok gi'" "ngroups gi' = ngroups g"
      "mset (groups_list gi') = mset (groups_list g)" "sorted (groups_list gi')"
    by (rule groups_sort_sorts [OF g(2)])
  have "groups_list gi' = sort xs" using gi'(4,5) by (simp add: list properties_for_sort)
  moreover have "sys_setgroups env mem c n usr = Some (Inr (c\<lparr>cr_group_info := gi'\<rparr>))"
    using assms(1) n alloc env g(1) gi'(1)
    by (simp add: sys_setgroups_def set_current_groups_def set_groups_def)
  ultimately show ?thesis using gi'(2,3) g(3) by (intro that) simp_all
qed

lemma getgroups_returns:
  assumes "group_ok (cr_group_info c)" and "0 <s m" and "int (ngroups (cr_group_info c)) \<le> sint m"
    and buf: "\<And>i. i < ngroups (cr_group_info c) \<Longrightarrow> buf i \<noteq> None"
  shows "sys_getgroups c m buf = Some (Inr (ngroups (cr_group_info c),
    \<lambda>i. if i < ngroups (cr_group_info c) then Some (groups_list (cr_group_info c) ! i) else buf i))"
proof -
  let ?g = "cr_group_info c"
  have m: "\<not> m <s 0" "m \<noteq> 0" "\<not> sint m < int (ngroups ?g)" using assms(2,3) by (auto simp: word_sless_alt)
  obtain b where b: "groups_to_user buf ?g = Some (Inr b)"
    and bi: "\<forall>i. b i = (if i < ngroups ?g then Some (groups_list ?g ! i) else buf i)"
    using groups_to_user_writes [OF assms(1), of buf] buf by blast
  from bi have "b = (\<lambda>i. if i < ngroups ?g then Some (groups_list ?g ! i) else buf i)" by (intro ext) simp
  with b m show ?thesis by (simp add: sys_getgroups_def Let_def)
qed

text \<open>C24.
  Groups given to \<open>setgroups\<close> by a task with \<open>CAP_SETGID\<close> come back from \<open>getgroups\<close>
  sorted, and \<open>in_group_p\<close> answers exactly membership in them (or the file system group), for
  every group id that is less than \<open>2^31\<close> away from all of them; no access leaves the array.
\<close>

theorem setgroups_getgroups_round_trip:
  assumes "capable c CAP_SETGID" and "unat n = length xs" and "length xs \<le> NGROUPS_MAX"
    and "groups_alloc mem (length xs) = Some gi" and "ce_prepare env" and "ce_lsm env = None"
    and "\<And>i. i < length xs \<Longrightarrow> usr i = Some (xs ! i)"
  shows "\<exists>c'. sys_setgroups env mem c n usr = Some (Inr c') \<and>
    (\<forall>m buf. 0 <s m \<longrightarrow> int (length xs) \<le> sint m \<longrightarrow> (\<forall>i < length xs. buf i \<noteq> None) \<longrightarrow>
       sys_getgroups c' m buf =
         Some (Inr (length xs, \<lambda>i. if i < length xs then Some (sort xs ! i) else buf i))) \<and>
    (\<forall>g. (\<forall>x \<in> set xs. \<bar>uint g - uint x\<bar> < 2 ^ 31) \<longrightarrow>
       in_group_p c' g = Some (g = fsgid c \<or> g \<in> set xs))"
proof -
  obtain gi' where set: "sys_setgroups env mem c n usr = Some (Inr (c\<lparr>cr_group_info := gi'\<rparr>))"
    and ok: "group_ok gi'" and len: "ngroups gi' = length xs" and list: "groups_list gi' = sort xs"
    by (rule setgroups_sorts [OF assms])
  have "in_group_p (c\<lparr>cr_group_info := gi'\<rparr>) g = Some (g = fsgid c \<or> g \<in> set xs)"
    if "\<forall>x \<in> set xs. \<bar>uint g - uint x\<bar> < 2 ^ 31" for g
    using groups_search_exact [OF ok, of g] that by (simp add: in_group_p_def list)
  moreover have "sys_getgroups (c\<lparr>cr_group_info := gi'\<rparr>) m buf =
      Some (Inr (length xs, \<lambda>i. if i < length xs then Some (sort xs ! i) else buf i))"
    if "0 <s m" "int (length xs) \<le> sint m" "\<forall>i < length xs. buf i \<noteq> None" for m buf
    using getgroups_returns [of "c\<lparr>cr_group_info := gi'\<rparr>" m buf] that ok by (simp add: len list cong: if_cong)
  ultimately show ?thesis using set by blast
qed

definition plenty_mem :: group_mem where
  "plenty_mem = \<lparr>gi_kmalloc = Some (\<lambda>_. 0), gi_page = (\<lambda>_. Some (\<lambda>_. 0))\<rparr>"

theorem setgroups_getgroups_round_trip_witness:
  "\<exists>c'. sys_setgroups usual_env plenty_mem root_cred 3 (\<lambda>i. if i < 3 then Some ([20, 4, 10] ! i) else None) =
      Some (Inr c') \<and> in_group_p c' 10 = Some True \<and> in_group_p c' 11 = Some False \<and>
      (\<exists>buf. sys_getgroups c' 8 (\<lambda>i. if i < 8 then Some 7 else None) = Some (Inr (3, buf)) \<and>
        map buf [0..<4] = [Some 4, Some 10, Some 20, Some 7])"
proof -
  let ?xs = "[20, 4, 10] :: gid list"
  obtain gi where alloc: "groups_alloc plenty_mem (length ?xs) = Some gi"
    by (simp add: groups_alloc_def plenty_mem_def NGROUPS_SMALL_def Let_def)
  have env: "ce_prepare usual_env" "ce_lsm usual_env = None" by (simp_all add: usual_env_def)
  have len: "unat (3 :: u32) = length ?xs" "length ?xs \<le> NGROUPS_MAX" by (simp_all add: NGROUPS_MAX_def)
  note rt = setgroups_getgroups_round_trip [OF capable_root(2) len alloc env,
      of "\<lambda>i. if i < 3 then Some ([20, 4, 10] ! i) else None"]
  then obtain c' where c': "sys_setgroups usual_env plenty_mem root_cred 3
        (\<lambda>i. if i < 3 then Some ([20, 4, 10] ! i) else None) = Some (Inr c')"
    and get: "\<And>m buf. 0 <s m \<Longrightarrow> int (length ?xs) \<le> sint m \<Longrightarrow> (\<forall>i < length ?xs. buf i \<noteq> None) \<Longrightarrow>
       sys_getgroups c' m buf =
         Some (Inr (length ?xs, \<lambda>i. if i < length ?xs then Some (sort ?xs ! i) else buf i))"
    and mem: "\<And>g. (\<forall>x \<in> set ?xs. \<bar>uint g - uint x\<bar> < 2 ^ 31) \<Longrightarrow>
       in_group_p c' g = Some (g = fsgid root_cred \<or> g \<in> set ?xs)"
    by auto
  have "sys_getgroups c' 8 (\<lambda>i. if i < 8 then Some 7 else None) = Some (Inr (length ?xs,
      \<lambda>i. if i < length ?xs then Some (sort ?xs ! i) else if i < 8 then Some 7 else None))"
    by (rule get) (simp_all add: word_sless_alt)
  moreover have "in_group_p c' 10 = Some True" "in_group_p c' 11 = Some False"
    by (subst mem; simp add: root_cred_def)+
  ultimately show ?thesis using c' by (simp add: upt_rec)
qed

section \<open>Reading and writing the capability sets\<close>

text \<open>C25.
  A task that reads its own capability sets with \<open>capget\<close> and writes them back with
  \<open>capset\<close> keeps its credentials unchanged; with the version 1 interface, which carries only
  32 capabilities, it gives up exactly the others.
\<close>

theorem capget_capset_round_trip:
  assumes "cap_issubset (cap_effective c) (cap_permitted c)" and "cap_validate_magic h = Inr t"
    and "hd_pid h = Some p" and "p = 0 \<or> p = pid" and "0 \<le> p"
  shows "\<exists>d. sys_capget tasks pid c h True = Inr d \<and> length d = t \<and>
    sys_capset True pid c h (Some d) =
      Inr (if t = 1 then c\<lparr>cap_effective := Kernel_cap (cap0 (cap_effective c)) 0,
                           cap_inheritable := Kernel_cap (cap0 (cap_inheritable c)) 0,
                           cap_permitted := Kernel_cap (cap0 (cap_permitted c)) 0\<rparr> else c)"
proof -
  have t: "t = 1 \<or> t = 2"
    using assms(2) by (auto simp: cap_validate_magic_def split: option.splits if_splits)
  define d where "d = map (\<lambda>i. \<lparr>ud_effective = cap_word (cap_effective c) i,
    ud_permitted = cap_word (cap_permitted c) i, ud_inheritable = cap_word (cap_inheritable c) i\<rparr>) [0..<t]"
  have get: "sys_capget tasks pid c h True = Inr d"
    using assms by (auto simp: sys_capget_def cap_get_target_pid_def cap_capget_def d_def)
  have caps: "user_caps ud_effective d = Kernel_cap (cap0 (cap_effective c)) (if t = 1 then 0 else cap1 (cap_effective c))"
    "user_caps ud_permitted d = Kernel_cap (cap0 (cap_permitted c)) (if t = 1 then 0 else cap1 (cap_permitted c))"
    "user_caps ud_inheritable d = Kernel_cap (cap0 (cap_inheritable c)) (if t = 1 then 0 else cap1 (cap_inheritable c))"
    using t by (auto simp: d_def user_caps_def cap_word_def)
  have "x AND NOT (x OR y) = 0" "x AND NOT x = 0" for x y :: u32 by (simp_all add: bit_eq_iff bit_simps)
  note zero = this
  have "cap_capset c c (user_caps ud_effective d) (user_caps ud_inheritable d) (user_caps ud_permitted d) =
      Inr (c\<lparr>cap_effective := user_caps ud_effective d, cap_inheritable := user_caps ud_inheritable d,
             cap_permitted := user_caps ud_permitted d\<rparr>)"
  proof -
    have "cap0 (cap_effective c) AND NOT (cap0 (cap_permitted c)) = 0"
      "cap1 (cap_effective c) AND NOT (cap1 (cap_permitted c)) = 0"
      using assms(1) by (simp_all add: cap_issubset_def cap_isclear_def cap_drop_def)
    then have "cap_issubset (user_caps ud_effective d) (user_caps ud_permitted d)"
      "cap_issubset (user_caps ud_permitted d) (cap_permitted c)"
      "cap_issubset (user_caps ud_inheritable d) (cap_combine (cap_inheritable c) B)" for B
      by (simp_all add: caps cap_issubset_def cap_isclear_def cap_drop_def cap_combine_def zero
          del: bit.conj_disj_distrib bit.de_Morgan_disj)
    then show ?thesis by (simp add: cap_capset_def)
  qed
  then have "sys_capset True pid c h (Some d) = Inr (c\<lparr>cap_effective := user_caps ud_effective d,
      cap_inheritable := user_caps ud_inheritable d, cap_permitted := user_caps ud_permitted d\<rparr>)"
    using assms by (auto simp: sys_capset_def Let_def d_def)
  moreover have "length d = t" by (simp add: d_def)
  ultimately show ?thesis using get t by (intro exI [of _ d]) (elim disjE; simp add: caps)
qed

theorem capget_capset_round_trip_witness:
  "let h = \<lparr>hd_version = Some 0x19980330, hd_writable = True, hd_pid = Some 0\<rparr> in
   \<exists>d. sys_capget (\<lambda>_. None) 42 root_cred h True = Inr d \<and> length d = 1 \<and>
     (\<exists>c'. sys_capset True 42 root_cred h (Some d) = Inr c' \<and> cap_permitted c' = Kernel_cap (-1) 0)"
proof -
  let ?h = "\<lparr>hd_version = Some 0x19980330, hd_writable = True, hd_pid = Some 0\<rparr>"
  have "cap_issubset (cap_effective root_cred) (cap_permitted root_cred)"
    by (simp add: root_cred_def kcap.issubset_refl)
  from capget_capset_round_trip [OF this, of ?h 1 0 42 "\<lambda>_. None"] show ?thesis
    by (auto simp: cap_validate_magic_def root_cred_def CAP_FULL_SET_def Let_def)
qed

end
