(* ===== verification/Exec_Credentials.thy ===== *)
theory Exec_Credentials
  imports Credentials
begin

text \<open>
  The credentials of a task that executes a new program: what \<open>prepare_binprm\<close> and
  \<open>cap_bprm_set_creds\<close> compute from the ones of the caller and the file, how far they can
  exceed them, and that a script is treated as its interpreter. The well-formedness of
  credentials is an invariant of all calls and of executing programs.
\<close>

section \<open>File capabilities\<close>

text \<open>
  What the capabilities attached to a file give its caller: the permitted ones within the bounding
  set and the inheritable ones within the caller's inheritable set.
\<close>

definition vfs_grant :: "cred \<Rightarrow> cpu_vfs_cap_data \<Rightarrow> kernel_cap" where
  "vfs_grant c v = cap_combine (cap_intersect (cap_bset c) (vc_permitted v))
     (cap_intersect (cap_inheritable c) (vc_inheritable v))"

definition file_grant :: "bool \<Rightarrow> cred \<Rightarrow> exec_file \<Rightarrow> kernel_cap" where
  "file_grant fcaps c f =
     (if fcaps \<and> \<not> mnt_nosuid f
      then (case get_vfs_caps_from_disk (xattr f) of Inl _ \<Rightarrow> CAP_EMPTY_SET | Inr v \<Rightarrow> vfs_grant c v)
      else CAP_EMPTY_SET)"

abbreviation root_grant :: "cred \<Rightarrow> kernel_cap" where
  "root_grant c \<equiv> cap_combine (cap_bset c) (cap_inheritable c)"

lemma file_grant_bound: "cap_issubset (file_grant fcaps c f) (root_grant c)"
  by (auto simp: file_grant_def vfs_grant_def kcap.issubset_iff kcap.member_simps split: sum.split)

lemma vfs_caps_permitted:
  "bprm_caps_from_vfs_caps v new eff = (r, new', eff') \<Longrightarrow> new' = new\<lparr>cap_permitted := vfs_grant new v\<rparr>"
  by (auto simp: bprm_caps_from_vfs_caps_def Let_def vfs_grant_def cap_combine_def cap_intersect_def cap_word_def)

lemma get_file_caps_permitted:
  assumes "get_file_caps fcaps f new eff = (None, new', eff')"
  shows "new' = new\<lparr>cap_permitted := file_grant fcaps new f\<rparr>"
proof (cases "fcaps \<and> \<not> mnt_nosuid f \<and> (\<exists>v. get_vfs_caps_from_disk (xattr f) = Inr v)")
  case False
  then show ?thesis
    using assms by (auto simp: get_file_caps_def bprm_clear_caps_def file_grant_def Let_def split: if_splits sum.splits)
next
  case True
  then obtain v where v: "get_vfs_caps_from_disk (xattr f) = Inr v" by blast
  obtain r1 n1 e1 where b: "bprm_caps_from_vfs_caps v (bprm_clear_caps new) eff = (r1, n1, e1)"
    by (metis prod_cases3)
  have "new' = n1"
    using assms True v b by (auto simp: get_file_caps_def Let_def split: option.splits)
  then show ?thesis
    using True v vfs_caps_permitted [OF b] by (simp add: file_grant_def vfs_grant_def bprm_clear_caps_def)
qed

section \<open>The steps of \<open>cap_bprm_set_creds\<close>\<close>

text \<open>The effective ids that the caller and the set-id bits of the file give, and the personality flags cleared.\<close>

definition honours_setuid :: "exec_file \<Rightarrow> bool" where
  "honours_setuid f \<longleftrightarrow> \<not> mnt_nosuid f \<and> x_mode f AND S_ISUID \<noteq> 0"

definition honours_setgid :: "exec_file \<Rightarrow> bool" where
  "honours_setgid f \<longleftrightarrow> \<not> mnt_nosuid f \<and> x_mode f AND (S_ISGID OR S_IXGRP) = S_ISGID OR S_IXGRP"

definition exec_euid :: "cred \<Rightarrow> exec_file \<Rightarrow> u32" where
  "exec_euid c f = (if honours_setuid f then x_uid f else euid c)"

definition exec_egid :: "cred \<Rightarrow> exec_file \<Rightarrow> u32" where
  "exec_egid c f = (if honours_setgid f then x_gid f else egid c)"

definition exec_clear :: "exec_file \<Rightarrow> u32" where
  "exec_clear f = (if honours_setuid f \<or> honours_setgid f then PER_CLEAR_ON_SETID else 0)"

lemma bprm_setid_eq:
  "bprm_setid c f b = b\<lparr>b_cred := (b_cred b)\<lparr>euid := exec_euid c f, egid := exec_egid c f\<rparr>,
     b_per_clear := b_per_clear b OR exec_clear f\<rparr>"
  by (simp add: bprm_setid_def exec_euid_def exec_egid_def exec_clear_def honours_setuid_def honours_setgid_def
      Let_def or.assoc)

text \<open>Root is emulated for a task whose real or new effective user id is 0.\<close>

definition root_emulated :: "cred \<Rightarrow> exec_file \<Rightarrow> bool" where
  "root_emulated c f \<longleftrightarrow> \<not> issecure SECURE_NOROOT c \<and> (uid c = 0 \<or> exec_euid c f = 0)"

lemma bprm_emulate_root_permitted:
  assumes "uid new = uid old" and "euid new = exec_euid old f" and "cap_permitted new = file_grant fcaps old f"
  obtains P e where "bprm_emulate_root old new eff = (new\<lparr>cap_permitted := P\<rparr>, e)"
    and "P = file_grant fcaps old f \<or> root_emulated old f \<and> P = root_grant old"
proof (rule that [of "cap_permitted (fst (bprm_emulate_root old new eff))" "snd (bprm_emulate_root old new eff)"])
  show "bprm_emulate_root old new eff =
      (new\<lparr>cap_permitted := cap_permitted (fst (bprm_emulate_root old new eff))\<rparr>, snd (bprm_emulate_root old new eff))"
    by (simp add: bprm_emulate_root_def)
  show "cap_permitted (fst (bprm_emulate_root old new eff)) = file_grant fcaps old f \<or>
      root_emulated old f \<and> cap_permitted (fst (bprm_emulate_root old new eff)) = root_grant old"
    using assms by (auto simp: bprm_emulate_root_def root_emulated_def)
qed

lemma bprm_limit_unsafe_bounds:
  assumes "uid new = uid old" and "gid new = gid old"
  obtains P e g where "bprm_limit_unsafe old u new = new\<lparr>cap_permitted := P, euid := e, egid := g\<rparr>"
    and "cap_issubset P (cap_permitted new)" and "e = euid new \<or> e = uid old" and "g = egid new \<or> g = gid old"
    and "u AND NOT LSM_UNSAFE_PTRACE_CAP \<noteq> 0 \<Longrightarrow> cap_issubset P (cap_permitted old) \<and>
       (\<not> capable old CAP_SETUID \<longrightarrow> e = uid old \<and> g = gid old)"
    and "u AND NOT LSM_UNSAFE_PTRACE_CAP = 0 \<Longrightarrow> P = cap_permitted new \<and> e = euid new \<and> g = egid new"
proof (rule that [where P = "cap_permitted (bprm_limit_unsafe old u new)"
      and e = "euid (bprm_limit_unsafe old u new)" and g = "egid (bprm_limit_unsafe old u new)"])
  show "bprm_limit_unsafe old u new = new\<lparr>cap_permitted := cap_permitted (bprm_limit_unsafe old u new),
      euid := euid (bprm_limit_unsafe old u new), egid := egid (bprm_limit_unsafe old u new)\<rparr>"
    by (simp add: bprm_limit_unsafe_def Let_def)
qed (use assms kcap.intersect_issubset kcap.issubset_refl in \<open>auto simp: bprm_limit_unsafe_def Let_def\<close>)

text \<open>
  What executing a file can do to the credentials \<open>c\<close> of the caller: the ids, the capabilities,
  and the limits for the unsafe conditions \<open>u\<close> that \<open>check_unsafe_exec\<close> found. A tracer without
  \<open>CAP_SYS_PTRACE\<close> and shared file system state are such conditions; a tracer that has the
  capability sets only \<open>LSM_UNSAFE_PTRACE_CAP\<close>, which lifts the limits.
\<close>

definition exec_ids :: "cred \<Rightarrow> exec_file \<Rightarrow> cred \<Rightarrow> bool" where
  "exec_ids c f c' \<longleftrightarrow>
     uid c' = uid c \<and> gid c' = gid c \<and> cr_group_info c' = cr_group_info c \<and>
     suid c' = euid c' \<and> fsuid c' = euid c' \<and> sgid c' = egid c' \<and> fsgid c' = egid c' \<and>
     euid c' \<in> {exec_euid c f, uid c} \<and> egid c' \<in> {exec_egid c f, gid c}"

definition exec_caps :: "bool \<Rightarrow> bool \<Rightarrow> cred \<Rightarrow> exec_file \<Rightarrow> cred \<Rightarrow> bool" where
  "exec_caps fcaps is_init c f c' \<longleftrightarrow>
     cap_bset c' = cap_bset c \<and> cap_inheritable c' = cap_inheritable c \<and>
     cap_issubset (cap_permitted c') (if root_emulated c f then root_grant c else file_grant fcaps c f) \<and>
     (\<not> is_init \<longrightarrow> cap_effective c' = cap_permitted c' \<or> cap_effective c' = CAP_EMPTY_SET) \<and>
     (is_init \<longrightarrow> cap_effective c' = cap_effective c) \<and>
     securebits c' = securebits c AND NOT (issecure_mask SECURE_KEEP_CAPS)"

definition exec_unsafe :: "u32 \<Rightarrow> cred \<Rightarrow> exec_file \<Rightarrow> cred \<Rightarrow> bool" where
  "exec_unsafe u c f c' \<longleftrightarrow>
     (if u AND NOT LSM_UNSAFE_PTRACE_CAP \<noteq> 0
      then cap_issubset (cap_permitted c') (cap_permitted c) \<and>
        (\<not> capable c CAP_SETUID \<longrightarrow> euid c' = uid c \<and> egid c' = gid c)
      else euid c' = exec_euid c f \<and> egid c' = exec_egid c f)"

lemma cap_bprm_set_creds_steps:
  assumes "cap_bprm_set_creds fcaps init old f b = Inr b'"
  obtains n1 n2 eff1 eff2 where "get_file_caps fcaps f (b_cred b) False = (None, n1, eff1)"
    and "bprm_emulate_root old n1 eff1 = (n2, eff2)"
    and "b_cred b' = (bprm_finish_ids init eff2 (bprm_limit_unsafe old (b_unsafe b) n2))\<lparr>securebits :=
       securebits (bprm_finish_ids init eff2 (bprm_limit_unsafe old (b_unsafe b) n2)) AND
       NOT (issecure_mask SECURE_KEEP_CAPS)\<rparr>"
    and "b_unsafe b' = b_unsafe b" and "b_per_clear b' = b_per_clear b"
  using assms that unfolding cap_bprm_set_creds_def
  by (auto simp: Let_def split: prod.splits option.splits if_splits)

lemma exec_creds_form:
  assumes "prepare_binprm fcaps init c f (exec_bprm c u) = Inr (k, b)"
  obtains e g P E where "b_cred b = c\<lparr>euid := e, egid := g, suid := e, fsuid := e, sgid := g, fsgid := g,
      cap_permitted := P, cap_effective := E,
      securebits := securebits c AND NOT (issecure_mask SECURE_KEEP_CAPS)\<rparr>"
    and "b_unsafe b = u" and "b_per_clear b = exec_clear f"
    and "exec_ids c f (b_cred b)" and "exec_caps fcaps init c f (b_cred b)" and "exec_unsafe u c f (b_cred b)"
proof -
  let ?b0 = "exec_bprm c u" and ?c0 = "c\<lparr>euid := exec_euid c f, egid := exec_egid c f\<rparr>"
  obtain b' where set: "cap_bprm_set_creds fcaps init c f (bprm_setid c f ?b0) = Inr b'"
    and b: "b_cred b = b_cred b'" "b_unsafe b = b_unsafe b'" "b_per_clear b = b_per_clear b'"
    using assms by (auto simp: prepare_binprm_def split: if_splits sum.splits)
  have b0: "b_cred (bprm_setid c f ?b0) = ?c0" "b_unsafe (bprm_setid c f ?b0) = u"
      "b_per_clear (bprm_setid c f ?b0) = exec_clear f"
    by (simp_all add: bprm_setid_eq exec_bprm_def)
  from set obtain n1 n2 e1 e2 where
      n1: "get_file_caps fcaps f ?c0 False = (None, n1, e1)" and n2: "bprm_emulate_root c n1 e1 = (n2, e2)"
    and b': "b_cred b' = (bprm_finish_ids init e2 (bprm_limit_unsafe c u n2))\<lparr>securebits :=
       securebits (bprm_finish_ids init e2 (bprm_limit_unsafe c u n2)) AND NOT (issecure_mask SECURE_KEEP_CAPS)\<rparr>"
      "b_unsafe b' = u" "b_per_clear b' = exec_clear f"
    by (rule cap_bprm_set_creds_steps) (simp add: b0)
  have "file_grant fcaps ?c0 f = file_grant fcaps c f" by (simp add: file_grant_def vfs_grant_def cong: sum.case_cong)
  then have "n1 = ?c0\<lparr>cap_permitted := file_grant fcaps c f\<rparr>" using get_file_caps_permitted [OF n1] by simp
  then obtain P2 where P2: "n2 = ?c0\<lparr>cap_permitted := P2\<rparr>"
      "P2 = file_grant fcaps c f \<or> root_emulated c f \<and> P2 = root_grant c"
    using bprm_emulate_root_permitted [of n1 c f fcaps e1] n2 by auto
  obtain P e g where lim: "bprm_limit_unsafe c u n2 = n2\<lparr>cap_permitted := P, euid := e, egid := g\<rparr>"
    and P: "cap_issubset P (cap_permitted n2)" and e: "e = euid n2 \<or> e = uid c" and g: "g = egid n2 \<or> g = gid c"
    and unsafe: "u AND NOT LSM_UNSAFE_PTRACE_CAP \<noteq> 0 \<Longrightarrow> cap_issubset P (cap_permitted c) \<and>
       (\<not> capable c CAP_SETUID \<longrightarrow> e = uid c \<and> g = gid c)"
    and safe: "u AND NOT LSM_UNSAFE_PTRACE_CAP = 0 \<Longrightarrow> P = cap_permitted n2 \<and> e = euid n2 \<and> g = egid n2"
    by (rule bprm_limit_unsafe_bounds [of n2 c u]) (simp_all add: P2)
  have n2': "n2\<lparr>cap_permitted := P, euid := e, egid := g\<rparr> = c\<lparr>euid := e, egid := g, cap_permitted := P\<rparr>"
    by (simp add: P2(1))
  have form: "b_cred b = c\<lparr>euid := e, egid := g, suid := e, fsuid := e, sgid := g, fsgid := g,
        cap_permitted := P, cap_effective := if init then cap_effective c else if e2 then P else CAP_EMPTY_SET,
        securebits := securebits c AND NOT (issecure_mask SECURE_KEEP_CAPS)\<rparr>"
    unfolding b b' lim n2' bprm_finish_ids_def Let_def by simp
  have "cap_issubset P (if root_emulated c f then root_grant c else file_grant fcaps c f)"
    using P P2 file_grant_bound kcap.issubset_trans by auto
  then have caps: "exec_caps fcaps init c f (b_cred b)" by (simp add: form exec_caps_def)
  have ids: "exec_ids c f (b_cred b)" using e g by (simp add: form exec_ids_def P2(1))
  have lims: "exec_unsafe u c f (b_cred b)" using unsafe safe by (simp add: form exec_unsafe_def P2(1))
  show ?thesis by (rule that [OF form _ _ ids caps lims]) (simp_all add: b b')
qed


text \<open>A set-user-ID root program, executed by an ordinary user under a tracer.\<close>

definition suid_file :: exec_file where
  "suid_file = \<lparr>has_f_op = True, mnt_nosuid = False, x_mode = 0x89ED, x_uid = 0, x_gid = 0, xattr = None,
     audit_fcaps = None, read_head = Inr 128\<rparr>"

lemma suid_exec_succeeds:
  "\<exists>k b. prepare_binprm True init c suid_file (exec_bprm c u) = Inr (k, b)"
  by (simp add: prepare_binprm_def cap_bprm_set_creds_def suid_file_def Let_def get_file_caps_def
      get_vfs_caps_from_disk_def split: prod.splits)


section \<open>Well-formed credentials\<close>


definition caps_wf :: "cred \<Rightarrow> bool" where
  "caps_wf c \<longleftrightarrow> cap_issubset (cap_effective c) (cap_permitted c)"










text \<open>The credentials init starts with.\<close>

definition init_cred :: cred where
  "init_cred = root_cred\<lparr>cr_group_info := init_groups\<rparr>"


text \<open>The exception: init with an empty bounding set executes a program.\<close>

lemma init_exec_effective:
  "\<exists>c'. exec_step True (init_cred\<lparr>cap_bset := CAP_EMPTY_SET\<rparr>) c' \<and> \<not> caps_wf c'"
proof -
  let ?c = "init_cred\<lparr>cap_bset := CAP_EMPTY_SET\<rparr>"
  obtain k b where b: "prepare_binprm True True ?c suid_file (exec_bprm ?c 0) = Inr (k, b)"
    using suid_exec_succeeds by blast
  from b have caps: "exec_caps True True ?c suid_file (b_cred b)" by (rule exec_creds_form)
  have "root_grant ?c = CAP_EMPTY_SET"
    by (simp add: init_cred_def root_cred_def cap_combine_def CAP_EMPTY_SET_def)
  then have "cap_permitted (b_cred b) = CAP_EMPTY_SET"
    using caps file_grant_bound [of True ?c suid_file]
    by (auto simp: exec_caps_def cap_issubset_empty split: if_splits)
  moreover have "cap_effective (b_cred b) = CAP_FULL_SET"
    using caps by (simp add: exec_caps_def init_cred_def root_cred_def)
  moreover have "CAP_FULL_SET \<noteq> CAP_EMPTY_SET" by (simp add: CAP_FULL_SET_def CAP_EMPTY_SET_def)
  ultimately have "\<not> caps_wf (b_cred b)" by (simp add: caps_wf_def cap_issubset_empty)
  moreover have "exec_step True ?c (b_cred b)" using b by (rule exec_step.intros)
  ultimately show ?thesis by blast
qed

section \<open>Scripts\<close>

text \<open>
  For a script \<open>prepare_binprm\<close> runs again, on the interpreter, with the credentials the script
  left behind. \<open>stale\<close> are the fields that are still set from the script; every step carries
  them along or overwrites them.
\<close>

definition stale :: "u32 \<Rightarrow> u32 \<Rightarrow> u32 \<Rightarrow> u32 \<Rightarrow> kernel_cap \<Rightarrow> u32 \<Rightarrow> cred \<Rightarrow> cred" where
  "stale a b d e E s n = n\<lparr>suid := a, fsuid := b, sgid := d, fsgid := e, cap_effective := E, securebits := s\<rparr>"

lemma stale_fields [simp]:
  "uid (stale a b d e E s n) = uid n" "gid (stale a b d e E s n) = gid n"
  "euid (stale a b d e E s n) = euid n" "egid (stale a b d e E s n) = egid n"
  "cap_permitted (stale a b d e E s n) = cap_permitted n" "cap_bset (stale a b d e E s n) = cap_bset n"
  "cap_inheritable (stale a b d e E s n) = cap_inheritable n"
  "(stale a b d e E s n)\<lparr>cap_permitted := P\<rparr> = stale a b d e E s (n\<lparr>cap_permitted := P\<rparr>)"
  "(stale a b d e E s n)\<lparr>euid := x\<rparr> = stale a b d e E s (n\<lparr>euid := x\<rparr>)"
  "(stale a b d e E s n)\<lparr>egid := x\<rparr> = stale a b d e E s (n\<lparr>egid := x\<rparr>)"
  by (simp_all add: stale_def)

lemma get_file_caps_cleared: "get_file_caps fc f (n\<lparr>cap_permitted := P\<rparr>) eff = get_file_caps fc f n eff"
  by (simp add: get_file_caps_def bprm_clear_caps_def)

lemma bprm_caps_from_vfs_caps_stale:
  "bprm_caps_from_vfs_caps v (stale a b d e E s n) eff =
   (case bprm_caps_from_vfs_caps v n eff of (r, n', eff') \<Rightarrow> (r, stale a b d e E s n', eff'))"
  by (simp add: bprm_caps_from_vfs_caps_def Let_def)

lemma get_file_caps_stale:
  "get_file_caps fc f (stale a b d e E s n) eff =
   (case get_file_caps fc f n eff of (r, n', eff') \<Rightarrow> (r, stale a b d e E s n', eff'))"
  by (simp add: get_file_caps_def bprm_clear_caps_def bprm_caps_from_vfs_caps_stale Let_def
      split: sum.splits prod.splits option.splits)

lemma bprm_emulate_root_stale:
  "bprm_emulate_root old (stale a b d e E s n) eff =
   (case bprm_emulate_root old n eff of (n', eff') \<Rightarrow> (stale a b d e E s n', eff'))"
  by (simp add: bprm_emulate_root_def)

lemma bprm_limit_unsafe_stale:
  "bprm_limit_unsafe old u (stale a b d e E s n) = stale a b d e E s (bprm_limit_unsafe old u n)"
  by (simp add: bprm_limit_unsafe_def Let_def)

lemma bprm_finish_ids_stale:
  "bprm_finish_ids False eff (stale a b d e E s n) = (bprm_finish_ids False eff n)\<lparr>securebits := s\<rparr>"
  by (simp add: bprm_finish_ids_def stale_def Let_def)

lemmas stale_steps = get_file_caps_stale bprm_emulate_root_stale bprm_limit_unsafe_stale bprm_finish_ids_stale

lemma securebits_steps:
  "get_file_caps fc f n eff = (None, n', eff') \<Longrightarrow> securebits n' = securebits n"
  "bprm_emulate_root old n eff = (n', eff') \<Longrightarrow> securebits n' = securebits n"
  "securebits (bprm_limit_unsafe old u n) = securebits n"
  "securebits (bprm_finish_ids init eff n) = securebits n"
  using get_file_caps_permitted [of fc f n eff n' eff']
  by (auto simp: bprm_emulate_root_def bprm_limit_unsafe_def bprm_finish_ids_def Let_def split: if_splits)

lemma cap_bprm_set_creds_stale:
  assumes s: "s AND NOT (issecure_mask SECURE_KEEP_CAPS) = securebits n AND NOT (issecure_mask SECURE_KEEP_CAPS)"
  shows "cap_bprm_set_creds fc False old f (bprm\<lparr>b_cred := stale a b d e E s (n\<lparr>cap_permitted := P\<rparr>)\<rparr>) =
    cap_bprm_set_creds fc False old f (bprm\<lparr>b_cred := n\<rparr>)"
proof -
  obtain r n1 e1 where n1: "get_file_caps fc f n False = (r, n1, e1)" by (metis prod_cases3)
  show ?thesis
  proof (cases r)
    case None
    obtain n2 e2 where n2: "bprm_emulate_root old n1 e1 = (n2, e2)" by (metis surj_pair)
    let ?n = "bprm_finish_ids False e2 (bprm_limit_unsafe old (b_unsafe bprm) n2)"
    have "securebits ?n = securebits n"
      using securebits_steps(1) [OF n1 [unfolded None]] securebits_steps(2) [OF n2] by (simp add: securebits_steps(3,4))
    with s n1 n2 None show ?thesis
      by (simp add: cap_bprm_set_creds_def get_file_caps_cleared stale_steps Let_def split: option.split)
  next
    case Some
    with n1 show ?thesis by (simp add: cap_bprm_set_creds_def get_file_caps_cleared stale_steps)
  qed
qed

text \<open>
  What the second run leaves of the first: only the personality flags to clear, to which it adds.
\<close>

definition keep_clear :: "u32 \<Rightarrow> linux_binprm \<Rightarrow> linux_binprm" where
  "keep_clear p b = b\<lparr>b_per_clear := p OR b_per_clear b\<rparr>"

lemma cap_bprm_set_creds_clear:
  assumes "b_unsafe x = b_unsafe y" and "b_cred x = b_cred y" and "b_per_clear x = p OR b_per_clear y"
  shows "map_sum id (\<lambda>b. b\<lparr>b_cred_prepared := True\<rparr>) (cap_bprm_set_creds fc init c f x) =
    map_sum id (\<lambda>b. keep_clear p (b\<lparr>b_cred_prepared := True\<rparr>)) (cap_bprm_set_creds fc init c f y)"
  using assms by (simp add: cap_bprm_set_creds_def keep_clear_def Let_def split: prod.splits option.splits)

text \<open>The flag that is set at the end, moved before the read.\<close>

lemma prepare_binprm_flag:
  "prepare_binprm fc init c f b =
     (if \<not> has_f_op f then Inl EACCES
      else case map_sum id (\<lambda>b. b\<lparr>b_cred_prepared := True\<rparr>) (cap_bprm_set_creds fc init c f (bprm_setid c f b)) of
             Inl e \<Rightarrow> Inl e
           | Inr b \<Rightarrow> (case read_head f of Inl e \<Rightarrow> Inl e | Inr n \<Rightarrow> Inr (n, b)))"
  by (simp add: prepare_binprm_def split: sum.split)

text \<open>C27.
  A script, for tasks other than init. When \<open>prepare_binprm\<close> runs on the interpreter after it has run on
  the script, its result and the new credentials are those of executing the interpreter directly: the set-id bits and
  file capabilities of the script give no ids and no capabilities. What remains of the script is \<open>per_clear\<close>,
  which is never reset: the personality flags that are cleared are those of the script's and of the interpreter's
  set-id bits together.
\<close>

theorem exec_script_as_interpreter:
  assumes "prepare_binprm fc False c script (exec_bprm c u) = Inr (k, bprm)"
  shows "prepare_binprm fc False c interp bprm =
      map_sum id (map_prod id (keep_clear (exec_clear script))) (prepare_binprm fc False c interp (exec_bprm c u))"
  using assms
proof (rule exec_creds_form)
  fix e g P E
  let ?K = "NOT (issecure_mask SECURE_KEEP_CAPS)"
  assume b: "b_cred bprm = c\<lparr>euid := e, egid := g, suid := e, fsuid := e, sgid := g, fsgid := g,
      cap_permitted := P, cap_effective := E, securebits := securebits c AND ?K\<rparr>"
    and u: "b_unsafe bprm = u" and p: "b_per_clear bprm = exec_clear script"
  let ?n = "c\<lparr>euid := exec_euid c interp, egid := exec_egid c interp\<rparr>"
  let ?x = "bprm_setid c interp bprm" and ?y = "bprm_setid c interp (exec_bprm c u)"
  have "?x = ?x\<lparr>b_cred := stale e e g g E (securebits c AND ?K) (?n\<lparr>cap_permitted := P\<rparr>)\<rparr>"
    by (simp add: bprm_setid_eq b stale_def)
  then have x: "cap_bprm_set_creds fc False c interp ?x = cap_bprm_set_creds fc False c interp (?x\<lparr>b_cred := ?n\<rparr>)"
    using cap_bprm_set_creds_stale [where bprm = ?x and s = "securebits c AND ?K" and n = ?n and a = e and b = e
        and d = g and e = g and E = E and P = P and fc = fc and old = c and f = interp]
    by (simp add: and.assoc)
  have "map_sum id (\<lambda>b. b\<lparr>b_cred_prepared := True\<rparr>) (cap_bprm_set_creds fc False c interp ?x) =
      map_sum id (\<lambda>b. keep_clear (exec_clear script) (b\<lparr>b_cred_prepared := True\<rparr>)) (cap_bprm_set_creds fc False c interp ?y)"
    unfolding x by (rule cap_bprm_set_creds_clear) (simp_all add: bprm_setid_eq exec_bprm_def u p)
  then show ?thesis unfolding prepare_binprm_flag
    by (cases "cap_bprm_set_creds fc False c interp ?y") (auto split: sum.split)
qed

text \<open>A set-user-ID root script with an ordinary interpreter gives its caller nothing.\<close>

definition interp_file :: exec_file where
  "interp_file = suid_file\<lparr>x_mode := 0x81ED\<rparr>"

theorem exec_script_as_interpreter_witness:
  "\<exists>k bprm. prepare_binprm True False user_cred suid_file (exec_bprm user_cred 0) = Inr (k, bprm) \<and>
     prepare_binprm True False user_cred interp_file bprm =
     map_sum id (map_prod id (keep_clear PER_CLEAR_ON_SETID))
       (prepare_binprm True False user_cred interp_file (exec_bprm user_cred 0))"
proof -
  obtain k bprm where "prepare_binprm True False user_cred suid_file (exec_bprm user_cred 0) = Inr (k, bprm)"
    using suid_exec_succeeds by blast
  moreover have "exec_clear suid_file = PER_CLEAR_ON_SETID"
    by (simp add: exec_clear_def honours_setuid_def suid_file_def S_ISUID_def)
  ultimately show ?thesis using exec_script_as_interpreter by metis
qed

end
