(* ===== verification/Posix_Acl.thy ===== *)
theory Posix_Acl
  imports Exec_Credentials
begin

text \<open>
  POSIX access control lists, \<^verbatim>\<open>fs/posix_acl.c\<close>: validity, the translation from and to the
  permission bits of the file mode, the access check, and the changes made when a file is created
  or its mode is changed. An ACL is the list of its entries (\<open>a_count\<close> is its length); the
  functions that change an ACL in place return the changed list. The theorems compare validity
  with a grammar and the access check with the algorithm of POSIX 1003.1e.
\<close>

named_theorems acl_consts \<open>tags and mode masks as numbers\<close>

section \<open>Entries\<close>

record posix_acl_entry =
  e_tag :: u16
  e_perm :: u16
  e_id :: u32

type_synonym posix_acl = "posix_acl_entry list"
type_synonym mode_t = u32

definition ACL_UNDEFINED_ID :: u32 where [acl_consts]: "ACL_UNDEFINED_ID = -1"
definition ACL_USER_OBJ :: u16 where [acl_consts]: "ACL_USER_OBJ = 0x01"
definition ACL_USER :: u16 where [acl_consts]: "ACL_USER = 0x02"
definition ACL_GROUP_OBJ :: u16 where [acl_consts]: "ACL_GROUP_OBJ = 0x04"
definition ACL_GROUP :: u16 where [acl_consts]: "ACL_GROUP = 0x08"
definition ACL_MASK :: u16 where [acl_consts]: "ACL_MASK = 0x10"
definition ACL_OTHER :: u16 where [acl_consts]: "ACL_OTHER = 0x20"

definition ACL_READ :: u16 where [acl_consts]: "ACL_READ = 0x04"
definition ACL_WRITE :: u16 where [acl_consts]: "ACL_WRITE = 0x02"
definition ACL_EXECUTE :: u16 where [acl_consts]: "ACL_EXECUTE = 0x01"

definition S_IRWXU :: mode_t where [acl_consts]: "S_IRWXU = 0x1C0"
definition S_IRWXG :: mode_t where [acl_consts]: "S_IRWXG = 0x38"
definition S_IRWXO :: mode_t where [acl_consts]: "S_IRWXO = 0x7"
definition S_IRWXUGO :: mode_t where "S_IRWXUGO = S_IRWXU OR S_IRWXG OR S_IRWXO"

lemma S_IRWXUGO_num [acl_consts]: "S_IRWXUGO = 0x1FF"
  by (simp add: S_IRWXUGO_def S_IRWXU_def S_IRWXG_def S_IRWXO_def)

lemma acl_tags_distinct [simp]:
  "ACL_USER_OBJ \<noteq> ACL_USER" "ACL_USER_OBJ \<noteq> ACL_GROUP_OBJ" "ACL_USER_OBJ \<noteq> ACL_GROUP"
  "ACL_USER_OBJ \<noteq> ACL_MASK" "ACL_USER_OBJ \<noteq> ACL_OTHER" "ACL_USER \<noteq> ACL_USER_OBJ"
  "ACL_USER \<noteq> ACL_GROUP_OBJ" "ACL_USER \<noteq> ACL_GROUP" "ACL_USER \<noteq> ACL_MASK"
  "ACL_USER \<noteq> ACL_OTHER" "ACL_GROUP_OBJ \<noteq> ACL_USER_OBJ" "ACL_GROUP_OBJ \<noteq> ACL_USER"
  "ACL_GROUP_OBJ \<noteq> ACL_GROUP" "ACL_GROUP_OBJ \<noteq> ACL_MASK" "ACL_GROUP_OBJ \<noteq> ACL_OTHER"
  "ACL_GROUP \<noteq> ACL_USER_OBJ" "ACL_GROUP \<noteq> ACL_USER" "ACL_GROUP \<noteq> ACL_GROUP_OBJ"
  "ACL_GROUP \<noteq> ACL_MASK" "ACL_GROUP \<noteq> ACL_OTHER" "ACL_MASK \<noteq> ACL_USER_OBJ"
  "ACL_MASK \<noteq> ACL_USER" "ACL_MASK \<noteq> ACL_GROUP_OBJ" "ACL_MASK \<noteq> ACL_GROUP"
  "ACL_MASK \<noteq> ACL_OTHER" "ACL_OTHER \<noteq> ACL_USER_OBJ" "ACL_OTHER \<noteq> ACL_USER"
  "ACL_OTHER \<noteq> ACL_GROUP_OBJ" "ACL_OTHER \<noteq> ACL_GROUP" "ACL_OTHER \<noteq> ACL_MASK"
  "ACL_USER_OBJ \<noteq> 0" "ACL_USER \<noteq> 0" "ACL_GROUP_OBJ \<noteq> 0"
  "ACL_GROUP \<noteq> 0" "ACL_MASK \<noteq> 0" "ACL_OTHER \<noteq> 0"
  "0 \<noteq> ACL_USER_OBJ" "0 \<noteq> ACL_USER" "0 \<noteq> ACL_GROUP_OBJ"
  "0 \<noteq> ACL_GROUP" "0 \<noteq> ACL_MASK" "0 \<noteq> ACL_OTHER"
  by (simp_all add: acl_consts)

section \<open>Validity\<close>

fun acl_valid_loop :: "posix_acl \<Rightarrow> u16 \<Rightarrow> u32 \<Rightarrow> bool \<Rightarrow> unit result" where
  "acl_valid_loop [] state i needs_mask = (if state = 0 then Inr () else Inl EINVAL)"
| "acl_valid_loop (pa # acl) state i needs_mask =
     (if e_perm pa AND NOT (ACL_READ OR ACL_WRITE OR ACL_EXECUTE) \<noteq> 0 then Inl EINVAL
      else if e_tag pa = ACL_USER_OBJ then
        (if state = ACL_USER_OBJ then acl_valid_loop acl ACL_USER 0 needs_mask else Inl EINVAL)
      else if e_tag pa = ACL_USER then
        (if state \<noteq> ACL_USER then Inl EINVAL
         else if e_id pa = ACL_UNDEFINED_ID \<or> e_id pa < i then Inl EINVAL
         else acl_valid_loop acl state (e_id pa + 1) True)
      else if e_tag pa = ACL_GROUP_OBJ then
        (if state = ACL_USER then acl_valid_loop acl ACL_GROUP 0 needs_mask else Inl EINVAL)
      else if e_tag pa = ACL_GROUP then
        (if state \<noteq> ACL_GROUP then Inl EINVAL
         else if e_id pa = ACL_UNDEFINED_ID \<or> e_id pa < i then Inl EINVAL
         else acl_valid_loop acl state (e_id pa + 1) True)
      else if e_tag pa = ACL_MASK then
        (if state \<noteq> ACL_GROUP then Inl EINVAL else acl_valid_loop acl ACL_OTHER i needs_mask)
      else if e_tag pa = ACL_OTHER then
        (if state = ACL_OTHER \<or> (state = ACL_GROUP \<and> \<not> needs_mask)
         then acl_valid_loop acl 0 i needs_mask else Inl EINVAL)
      else Inl EINVAL)"

definition posix_acl_valid :: "posix_acl \<Rightarrow> unit result" where
  "posix_acl_valid acl = acl_valid_loop acl ACL_USER_OBJ 0 False"

section \<open>Modes\<close>

text \<open>The result of the loop is the mode and \<open>not_equiv\<close>.\<close>

fun equiv_mode_loop :: "posix_acl \<Rightarrow> mode_t \<Rightarrow> bool \<Rightarrow> (mode_t \<times> bool) result" where
  "equiv_mode_loop [] mode ne = Inr (mode, ne)"
| "equiv_mode_loop (pa # acl) mode ne =
     (let perm = ucast (e_perm pa) AND S_IRWXO in
      if e_tag pa = ACL_USER_OBJ then equiv_mode_loop acl (mode OR push_bit 6 perm) ne
      else if e_tag pa = ACL_GROUP_OBJ then equiv_mode_loop acl (mode OR push_bit 3 perm) ne
      else if e_tag pa = ACL_OTHER then equiv_mode_loop acl (mode OR perm) ne
      else if e_tag pa = ACL_MASK then
        equiv_mode_loop acl ((mode AND NOT S_IRWXG) OR push_bit 3 perm) True
      else if e_tag pa = ACL_USER \<or> e_tag pa = ACL_GROUP then equiv_mode_loop acl mode True
      else Inl EINVAL)"

definition posix_acl_equiv_mode :: "posix_acl \<Rightarrow> mode_t \<Rightarrow> (mode_t \<times> bool) result" where
  "posix_acl_equiv_mode acl mode_p =
     (case equiv_mode_loop acl 0 False of
        Inl e \<Rightarrow> Inl e
      | Inr (mode, ne) \<Rightarrow> Inr ((mode_p AND NOT S_IRWXUGO) OR mode, ne))"

text \<open>\<open>mem\<close> says whether the allocation succeeds.\<close>

definition posix_acl_from_mode :: "bool \<Rightarrow> mode_t \<Rightarrow> posix_acl result" where
  "posix_acl_from_mode mem mode =
     (if \<not> mem then Inl ENOMEM
      else Inr
        [\<lparr>e_tag = ACL_USER_OBJ, e_perm = ucast (drop_bit 6 (mode AND S_IRWXU)), e_id = ACL_UNDEFINED_ID\<rparr>,
         \<lparr>e_tag = ACL_GROUP_OBJ, e_perm = ucast (drop_bit 3 (mode AND S_IRWXG)), e_id = ACL_UNDEFINED_ID\<rparr>,
         \<lparr>e_tag = ACL_OTHER, e_perm = ucast (mode AND S_IRWXO), e_id = ACL_UNDEFINED_ID\<rparr>])"

section \<open>The access check\<close>

text \<open>
  \<open>cur_in_group c g\<close> is the answer of \<open>in_group_p\<close>, which always answers on well-formed
  credentials. \<open>acl_mask_loop\<close> is the code at the label \<open>mask\<close>, which looks for the mask entry
  behind the entry \<open>pa\<close>.
\<close>

definition cur_in_group :: "cred \<Rightarrow> gid \<Rightarrow> bool" where
  "cur_in_group c g \<longleftrightarrow> in_group_p c g = Some True"

definition acl_check_perm :: "posix_acl_entry \<Rightarrow> u32 \<Rightarrow> unit result" where
  "acl_check_perm pa want = (if ucast (e_perm pa) AND want = want then Inr () else Inl EACCES)"

fun acl_mask_loop :: "posix_acl_entry \<Rightarrow> posix_acl \<Rightarrow> u32 \<Rightarrow> unit result" where
  "acl_mask_loop pa [] want = acl_check_perm pa want"
| "acl_mask_loop pa (mask_obj # acl) want =
     (if e_tag mask_obj = ACL_MASK
      then if ucast (e_perm pa) AND ucast (e_perm mask_obj) AND want = want then Inr () else Inl EACCES
      else acl_mask_loop pa acl want)"

fun acl_perm_loop :: "cred \<Rightarrow> u32 \<Rightarrow> u32 \<Rightarrow> posix_acl \<Rightarrow> u32 \<Rightarrow> bool \<Rightarrow> unit result" where
  "acl_perm_loop c i_uid i_gid [] want found = Inl EIO"
| "acl_perm_loop c i_uid i_gid (pa # acl) want found =
     (if e_tag pa = ACL_USER_OBJ then
        (if i_uid = fsuid c then acl_check_perm pa want else acl_perm_loop c i_uid i_gid acl want found)
      else if e_tag pa = ACL_USER then
        (if e_id pa = fsuid c then acl_mask_loop pa acl want
         else acl_perm_loop c i_uid i_gid acl want found)
      else if e_tag pa = ACL_GROUP_OBJ then
        (if cur_in_group c i_gid
         then if ucast (e_perm pa) AND want = want then acl_mask_loop pa acl want
              else acl_perm_loop c i_uid i_gid acl want True
         else acl_perm_loop c i_uid i_gid acl want found)
      else if e_tag pa = ACL_GROUP then
        (if cur_in_group c (e_id pa)
         then if ucast (e_perm pa) AND want = want then acl_mask_loop pa acl want
              else acl_perm_loop c i_uid i_gid acl want True
         else acl_perm_loop c i_uid i_gid acl want found)
      else if e_tag pa = ACL_MASK then acl_perm_loop c i_uid i_gid acl want found
      else if e_tag pa = ACL_OTHER then (if found then Inl EACCES else acl_check_perm pa want)
      else Inl EIO)"

definition posix_acl_permission :: "cred \<Rightarrow> u32 \<Rightarrow> u32 \<Rightarrow> posix_acl \<Rightarrow> u32 \<Rightarrow> unit result" where
  "posix_acl_permission c i_uid i_gid acl want = acl_perm_loop c i_uid i_gid acl want False"

section \<open>Creation and chmod\<close>

text \<open>
  The loops remember the positions of the group entry and of the mask entry, counted from the
  start of the ACL, where the source keeps pointers.
\<close>

record masq =
  mq_mode :: mode_t
  mq_group_obj :: "nat option"
  mq_mask_obj :: "nat option"
  mq_not_equiv :: bool

fun create_masq_loop :: "nat \<Rightarrow> posix_acl \<Rightarrow> masq \<Rightarrow> (posix_acl \<times> masq) result" where
  "create_masq_loop i [] s = Inr ([], s)"
| "create_masq_loop i (pa # acl) s =
     (let go = (\<lambda>pa s. case create_masq_loop (Suc i) acl s of
                         Inl e \<Rightarrow> Inl e | Inr (acl, s) \<Rightarrow> Inr (pa # acl, s))
      in if e_tag pa = ACL_USER_OBJ then
           (let perm = e_perm pa AND ucast (drop_bit 6 (mq_mode s) OR NOT S_IRWXO)
            in go (pa\<lparr>e_perm := perm\<rparr>)
                  (s\<lparr>mq_mode := mq_mode s AND (push_bit 6 (ucast perm) OR NOT S_IRWXU)\<rparr>))
         else if e_tag pa = ACL_USER \<or> e_tag pa = ACL_GROUP then go pa (s\<lparr>mq_not_equiv := True\<rparr>)
         else if e_tag pa = ACL_GROUP_OBJ then go pa (s\<lparr>mq_group_obj := Some i\<rparr>)
         else if e_tag pa = ACL_OTHER then
           (let perm = e_perm pa AND ucast (mq_mode s OR NOT S_IRWXO)
            in go (pa\<lparr>e_perm := perm\<rparr>) (s\<lparr>mq_mode := mq_mode s AND (ucast perm OR NOT S_IRWXO)\<rparr>))
         else if e_tag pa = ACL_MASK then go pa (s\<lparr>mq_mask_obj := Some i, mq_not_equiv := True\<rparr>)
         else Inl EIO)"

text \<open>The last step for the group class: the mask entry if there is one, else the group entry.\<close>

definition masq_group :: "nat \<Rightarrow> posix_acl \<Rightarrow> mode_t \<Rightarrow> posix_acl \<times> mode_t" where
  "masq_group k acl mode =
     (let perm = e_perm (acl ! k) AND ucast (drop_bit 3 mode OR NOT S_IRWXO)
      in (acl[k := (acl ! k)\<lparr>e_perm := perm\<rparr>], mode AND (push_bit 3 (ucast perm) OR NOT S_IRWXG)))"

definition posix_acl_create_masq :: "posix_acl \<Rightarrow> mode_t \<Rightarrow> (posix_acl \<times> mode_t \<times> bool) result" where
  "posix_acl_create_masq acl mode_p =
     (case create_masq_loop 0 acl
             \<lparr>mq_mode = mode_p, mq_group_obj = None, mq_mask_obj = None, mq_not_equiv = False\<rparr> of
        Inl e \<Rightarrow> Inl e
      | Inr (acl, s) \<Rightarrow>
          (case (case mq_mask_obj s of
                   Some k \<Rightarrow> Some (masq_group k acl (mq_mode s))
                 | None \<Rightarrow> map_option (\<lambda>k. masq_group k acl (mq_mode s)) (mq_group_obj s)) of
             None \<Rightarrow> Inl EIO
           | Some (acl, mode) \<Rightarrow>
               Inr (acl, (mode_p AND NOT S_IRWXUGO) OR mode, mq_not_equiv s)))"

fun chmod_masq_loop ::
  "nat \<Rightarrow> posix_acl \<Rightarrow> mode_t \<Rightarrow> nat option \<Rightarrow> nat option \<Rightarrow> (posix_acl \<times> nat option \<times> nat option) result" where
  "chmod_masq_loop i [] mode group_obj mask_obj = Inr ([], group_obj, mask_obj)"
| "chmod_masq_loop i (pa # acl) mode group_obj mask_obj =
     (let go = (\<lambda>pa g m. case chmod_masq_loop (Suc i) acl mode g m of
                           Inl e \<Rightarrow> Inl e | Inr (acl, r) \<Rightarrow> Inr (pa # acl, r))
      in if e_tag pa = ACL_USER_OBJ
         then go (pa\<lparr>e_perm := ucast (drop_bit 6 (mode AND S_IRWXU))\<rparr>) group_obj mask_obj
         else if e_tag pa = ACL_USER \<or> e_tag pa = ACL_GROUP then go pa group_obj mask_obj
         else if e_tag pa = ACL_GROUP_OBJ then go pa (Some i) mask_obj
         else if e_tag pa = ACL_MASK then go pa group_obj (Some i)
         else if e_tag pa = ACL_OTHER
         then go (pa\<lparr>e_perm := ucast (mode AND S_IRWXO)\<rparr>) group_obj mask_obj
         else Inl EIO)"

definition posix_acl_chmod_masq :: "posix_acl \<Rightarrow> mode_t \<Rightarrow> posix_acl result" where
  "posix_acl_chmod_masq acl mode =
     (case chmod_masq_loop 0 acl mode None None of
        Inl e \<Rightarrow> Inl e
      | Inr (acl, group_obj, mask_obj) \<Rightarrow>
          (case (case mask_obj of Some k \<Rightarrow> Some k | None \<Rightarrow> group_obj) of
             None \<Rightarrow> Inl EIO
           | Some k \<Rightarrow>
               Inr (acl[k := (acl ! k)\<lparr>e_perm := ucast (drop_bit 3 (mode AND S_IRWXG))\<rparr>])))"

section \<open>The grammar of valid lists\<close>

definition perm_ok :: "posix_acl_entry \<Rightarrow> bool" where
  "perm_ok e \<longleftrightarrow> e_perm e AND NOT (ACL_READ OR ACL_WRITE OR ACL_EXECUTE) = 0"

text \<open>Named entries: of one kind, with defined ids in strictly ascending order.\<close>

definition named_entries :: "u16 \<Rightarrow> posix_acl \<Rightarrow> bool" where
  "named_entries t es \<longleftrightarrow> (\<forall>e \<in> set es. e_tag e = t \<and> e_id e \<noteq> ACL_UNDEFINED_ID) \<and>
     sorted_wrt (\<lambda>a b. e_id a < e_id b) es"

text \<open>Owner, named users, group, named groups, mask, others; the mask may be missing only if there
  are no named entries.\<close>

definition acl_form ::
  "posix_acl_entry \<Rightarrow> posix_acl \<Rightarrow> posix_acl_entry \<Rightarrow> posix_acl \<Rightarrow> posix_acl \<Rightarrow> posix_acl_entry \<Rightarrow> bool" where
  "acl_form u us g gs ms w \<longleftrightarrow>
     e_tag u = ACL_USER_OBJ \<and> named_entries ACL_USER us \<and> e_tag g = ACL_GROUP_OBJ \<and>
     named_entries ACL_GROUP gs \<and>
     (ms = [] \<and> us = [] \<and> gs = [] \<or> (\<exists>m. ms = [m] \<and> e_tag m = ACL_MASK)) \<and> e_tag w = ACL_OTHER"

definition acl_grammar :: "posix_acl \<Rightarrow> bool" where
  "acl_grammar acl \<longleftrightarrow> (\<forall>e \<in> set acl. perm_ok e) \<and>
     (\<exists>u us g gs ms w. acl = u # us @ g # gs @ ms @ [w] \<and> acl_form u us g gs ms w)"

lemma plus_one_le_iff:
  fixes x y :: u32
  assumes "x \<noteq> -1"
  shows "x + 1 \<le> y \<longleftrightarrow> x < y"
proof -
  have "unat (x + 1) = unat x + 1" using assms
    by (metis Suc_eq_plus1 add.commute add_eq_0_iff unatSuc)
  then show ?thesis by (simp add: word_le_nat_alt word_less_nat_alt Suc_le_eq)
qed

text \<open>A block of named entries, read from id \<open>i\<close> on.\<close>

fun named_from :: "u32 \<Rightarrow> u16 \<Rightarrow> posix_acl \<Rightarrow> bool" where
  "named_from i t [] \<longleftrightarrow> True"
| "named_from i t (e # es) \<longleftrightarrow>
     e_tag e = t \<and> e_id e \<noteq> ACL_UNDEFINED_ID \<and> i \<le> e_id e \<and> named_from (e_id e + 1) t es"

lemma named_from_iff: "named_from i t es \<longleftrightarrow> named_entries t es \<and> (\<forall>e \<in> set es. i \<le> e_id e)"
proof (induction es arbitrary: i)
  case Nil
  then show ?case by (simp add: named_entries_def)
next
  case (Cons e es)
  show ?case
  proof (cases "e_tag e = t \<and> e_id e \<noteq> ACL_UNDEFINED_ID \<and> i \<le> e_id e")
    case False
    then show ?thesis by (auto simp: named_entries_def)
  next
    case True
    then have "(\<forall>x \<in> set es. e_id e + 1 \<le> e_id x) \<longleftrightarrow> (\<forall>x \<in> set es. e_id e < e_id x)"
      by (simp add: plus_one_le_iff ACL_UNDEFINED_ID_def)
    then have "named_from i t (e # es) \<longleftrightarrow> named_entries t es \<and> (\<forall>x \<in> set es. e_id e < e_id x)"
      using True Cons.IH by simp
    moreover have "i \<le> e_id x" if "e_id e < e_id x" for x
      using True that by (elim conjE) (rule order.trans [OF _ order.strict_implies_order])
    ultimately show ?thesis using True unfolding named_entries_def list.set sorted_wrt.simps by blast
  qed
qed

lemma named_from_0: "named_from 0 t es \<longleftrightarrow> named_entries t es"
  by (simp add: named_from_iff)

lemma valid_loop_named:
  assumes "t = ACL_USER \<or> t = ACL_GROUP"
  shows "named_from i t es \<Longrightarrow> \<forall>e \<in> set es. perm_ok e \<Longrightarrow>
    \<exists>i'. acl_valid_loop (es @ rest) t i nm = acl_valid_loop rest t i' (nm \<or> es \<noteq> [])"
proof (induction es arbitrary: i nm)
  case Nil
  then show ?case by auto
next
  case (Cons e es)
  then have "named_from (e_id e + 1) t es" "\<forall>e \<in> set es. perm_ok e" by simp_all
  from Cons.IH [OF this, of True] obtain i' where
    "acl_valid_loop (es @ rest) t (e_id e + 1) True = acl_valid_loop rest t i' (True \<or> es \<noteq> [])" by blast
  then have "acl_valid_loop ((e # es) @ rest) t i nm = acl_valid_loop rest t i' (nm \<or> e # es \<noteq> [])"
    using Cons.prems assms by (auto simp: perm_ok_def not_less)
  then show ?case by blast
qed

lemma valid_loop_namedE:
  assumes "t = ACL_USER \<or> t = ACL_GROUP" and "acl_valid_loop acl t i nm = Inr ()"
  obtains es rest i' where "acl = es @ rest" and "named_from i t es" and "\<forall>e \<in> set es. perm_ok e"
    and "rest = [] \<or> e_tag (hd rest) \<noteq> t" and "acl_valid_loop rest t i' (nm \<or> es \<noteq> []) = Inr ()"
  using assms(2)
proof (induction acl arbitrary: i nm thesis)
  case Nil
  then show ?case by (intro Nil(1) [of "[]" "[]"]) auto
next
  case (Cons e acl)
  show ?case
  proof (cases "e_tag e = t")
    case False
    then show ?thesis using Cons.prems by (intro Cons.prems(1) [of "[]"]) auto
  next
    case True
    then have e: "perm_ok e" "e_id e \<noteq> ACL_UNDEFINED_ID" "i \<le> e_id e"
      "acl_valid_loop acl t (e_id e + 1) True = Inr ()"
      using Cons.prems(2) assms(1) by (auto simp: perm_ok_def not_less split: if_splits)
    from e(4) obtain es rest i' where "acl = es @ rest" "named_from (e_id e + 1) t es"
      "\<forall>e \<in> set es. perm_ok e" "rest = [] \<or> e_tag (hd rest) \<noteq> t"
      "acl_valid_loop rest t i' (True \<or> es \<noteq> []) = Inr ()"
      using Cons.IH by blast
    then show ?thesis using e True by (intro Cons.prems(1) [of "e # es" rest i']) auto
  qed
qed

lemma valid_loop_0: "acl_valid_loop acl 0 i nm = Inr () \<longleftrightarrow> acl = []"
  by (cases acl) auto

lemma valid_loop_OTHER:
  "acl_valid_loop acl ACL_OTHER i nm = Inr () \<longleftrightarrow> (\<exists>w. acl = [w] \<and> e_tag w = ACL_OTHER \<and> perm_ok w)"
  by (cases acl) (auto simp: perm_ok_def valid_loop_0 split: if_splits)

lemma valid_loop_after_groups:
  assumes "acl = [] \<or> e_tag (hd acl) \<noteq> ACL_GROUP"
  shows "acl_valid_loop acl ACL_GROUP i nm = Inr () \<longleftrightarrow>
    (\<forall>e \<in> set acl. perm_ok e) \<and> (\<exists>ms w. acl = ms @ [w] \<and> e_tag w = ACL_OTHER \<and>
      (ms = [] \<and> \<not> nm \<or> (\<exists>m. ms = [m] \<and> e_tag m = ACL_MASK)))"
proof (cases acl)
  case Nil
  then show ?thesis by simp
next
  case (Cons e es)
  consider "e_tag e = ACL_MASK" | "e_tag e = ACL_OTHER" | "e_tag e \<noteq> ACL_MASK" "e_tag e \<noteq> ACL_OTHER" by blast
  then show ?thesis
  proof cases
    case 1
    then have "acl_valid_loop acl ACL_GROUP i nm = Inr () \<longleftrightarrow> perm_ok e \<and> acl_valid_loop es ACL_OTHER i nm = Inr ()"
      by (simp add: Cons perm_ok_def)
    then show ?thesis using 1 by (auto simp: Cons valid_loop_OTHER Cons_eq_append_conv)
  next
    case 2
    then have "acl_valid_loop acl ACL_GROUP i nm = Inr () \<longleftrightarrow> perm_ok e \<and> \<not> nm \<and> acl_valid_loop es 0 i nm = Inr ()"
      by (simp add: Cons perm_ok_def)
    then show ?thesis using 2 by (auto simp: Cons valid_loop_0 Cons_eq_append_conv)
  next
    case 3
    then have "acl_valid_loop acl ACL_GROUP i nm \<noteq> Inr ()" using assms by (simp add: Cons)
    moreover have "\<not> (\<exists>ms w. acl = ms @ [w] \<and> e_tag w = ACL_OTHER \<and>
      (ms = [] \<and> \<not> nm \<or> (\<exists>m. ms = [m] \<and> e_tag m = ACL_MASK)))"
      using 3 by (auto simp: Cons Cons_eq_append_conv)
    ultimately show ?thesis by simp
  qed
qed

lemma valid_grammar:
  assumes "posix_acl_valid acl = Inr ()"
  shows "acl_grammar acl"
proof -
  from assms obtain u acl1 where acl: "acl = u # acl1" and u: "e_tag u = ACL_USER_OBJ" "perm_ok u"
    and "acl_valid_loop acl1 ACL_USER 0 False = Inr ()"
    by (cases acl) (auto simp: posix_acl_valid_def perm_ok_def split: if_splits)
  from valid_loop_namedE [OF disjI1 [OF refl] this(4)] obtain us acl2 i
    where acl1: "acl1 = us @ acl2" and us: "named_from 0 ACL_USER us" "\<forall>e \<in> set us. perm_ok e"
    and acl2: "acl2 = [] \<or> e_tag (hd acl2) \<noteq> ACL_USER" "acl_valid_loop acl2 ACL_USER i (us \<noteq> []) = Inr ()"
    by auto
  from acl2 obtain g acl3 where g: "acl2 = g # acl3" "e_tag g = ACL_GROUP_OBJ" "perm_ok g"
    "acl_valid_loop acl3 ACL_GROUP 0 (us \<noteq> []) = Inr ()"
    by (cases acl2) (auto simp: perm_ok_def split: if_splits)
  from valid_loop_namedE [OF disjI2 [OF refl] g(4)] obtain gs acl4 j
    where acl3: "acl3 = gs @ acl4" and gs: "named_from 0 ACL_GROUP gs" "\<forall>e \<in> set gs. perm_ok e"
    and hd: "acl4 = [] \<or> e_tag (hd acl4) \<noteq> ACL_GROUP"
    and "acl_valid_loop acl4 ACL_GROUP j (us \<noteq> [] \<or> gs \<noteq> []) = Inr ()" by auto
  then obtain ms w where acl4: "acl4 = ms @ [w]" "e_tag w = ACL_OTHER" "\<forall>e \<in> set acl4. perm_ok e"
    and ms: "ms = [] \<and> us = [] \<and> gs = [] \<or> (\<exists>m. ms = [m] \<and> e_tag m = ACL_MASK)"
    by (auto simp: valid_loop_after_groups [OF hd])
  have "acl = u # us @ g # gs @ ms @ [w]" by (simp add: acl acl1 g(1) acl3 acl4(1))
  moreover have "acl_form u us g gs ms w"
    using u us g gs ms acl4 by (simp add: acl_form_def named_from_0)
  moreover have "\<forall>e \<in> set acl. perm_ok e" using u us g gs acl4 by (auto simp: acl acl1 acl3)
  ultimately show ?thesis unfolding acl_grammar_def by blast
qed

lemma grammar_valid:
  assumes "acl_grammar acl"
  shows "posix_acl_valid acl = Inr ()"
proof -
  obtain u us g gs ms w where acl: "acl = u # us @ g # gs @ ms @ [w]" and form: "acl_form u us g gs ms w"
    and perms: "\<forall>e \<in> set acl. perm_ok e"
    using assms unfolding acl_grammar_def by blast
  have us: "named_from 0 ACL_USER us" "\<forall>e \<in> set us. perm_ok e"
    and gs: "named_from 0 ACL_GROUP gs" "\<forall>e \<in> set gs. perm_ok e"
    and ms: "ms = [] \<and> us = [] \<and> gs = [] \<or> (\<exists>m. ms = [m] \<and> e_tag m = ACL_MASK)"
    using form perms by (auto simp: acl_form_def named_from_0 acl)
  obtain j where j: "acl_valid_loop (gs @ ms @ [w]) ACL_GROUP 0 (us \<noteq> []) =
      acl_valid_loop (ms @ [w]) ACL_GROUP j (us \<noteq> [] \<or> gs \<noteq> [])"
    using valid_loop_named [OF _ gs] by blast
  obtain i where i: "acl_valid_loop (us @ g # gs @ ms @ [w]) ACL_USER 0 False =
      acl_valid_loop (g # gs @ ms @ [w]) ACL_USER i (us \<noteq> [])"
    using valid_loop_named [OF _ us, of "g # gs @ ms @ [w]" False] by auto
  have "acl_valid_loop (ms @ [w]) ACL_GROUP j (us \<noteq> [] \<or> gs \<noteq> []) = Inr ()"
    using ms form perms by (auto simp: acl_form_def perm_ok_def acl)
  then have "acl_valid_loop (g # gs @ ms @ [w]) ACL_USER i (us \<noteq> []) = Inr ()"
    using j form perms by (simp add: acl_form_def perm_ok_def acl)
  then show ?thesis using i form perms by (simp add: posix_acl_valid_def acl acl_form_def perm_ok_def)
qed

text \<open>C29.
  \<open>posix_acl_valid\<close> accepts exactly the lists of the grammar: owner entry, named users with
  ascending defined ids, group entry, named groups with ascending defined ids, a mask (which only
  a list without named entries may omit), and the entry for others, with no permission bits but
  read, write and execute. Every other list is refused with \<open>EINVAL\<close>.
\<close>

theorem posix_acl_valid_iff_grammar:
  "posix_acl_valid acl = (if acl_grammar acl then Inr () else Inl EINVAL)"
proof -
  have "acl_valid_loop acl s i nm = Inr () \<or> acl_valid_loop acl s i nm = Inl EINVAL" for s i nm
    by (induction acl s i nm rule: acl_valid_loop.induct) auto
  then show ?thesis using valid_grammar [of acl] grammar_valid [of acl] by (auto simp: posix_acl_valid_def)
qed

section \<open>The access check of POSIX 1003.1e\<close>

text \<open>
  The algorithm of the standard on the parts of a list: the owner has the rights of the owner
  entry; else a named user has those of the first entry with that id, limited by the mask; else a
  member of some group of the list is granted the access if one matching entry, limited by
  the mask, grants it; everybody else has the rights of the entry for others.
\<close>

definition entry_allows :: "u32 \<Rightarrow> posix_acl_entry \<Rightarrow> bool" where
  "entry_allows want e \<longleftrightarrow> ucast (e_perm e) AND want = want"

definition acl_grants ::
  "cred \<Rightarrow> u32 \<Rightarrow> u32 \<Rightarrow> posix_acl_entry \<Rightarrow> posix_acl \<Rightarrow> posix_acl_entry \<Rightarrow> posix_acl \<Rightarrow> posix_acl \<Rightarrow>
   posix_acl_entry \<Rightarrow> u32 \<Rightarrow> bool" where
  "acl_grants c i_uid i_gid u us g gs ms w want \<longleftrightarrow>
     (let masked = (\<lambda>e. entry_allows want e \<and> (\<forall>m \<in> set ms. entry_allows want m));
          matching = (if cur_in_group c i_gid then [g] else []) @ filter (\<lambda>e. cur_in_group c (e_id e)) gs
      in if i_uid = fsuid c then entry_allows want u
         else case find (\<lambda>e. e_id e = fsuid c) us of
                Some e \<Rightarrow> masked e
              | None \<Rightarrow> if matching \<noteq> [] then \<exists>e \<in> set matching. masked e else entry_allows want w)"

lemma and3_iff:
  fixes a b w :: u32
  shows "a AND b AND w = w \<longleftrightarrow> a AND w = w \<and> b AND w = w"
  by (auto simp: bit_eq_iff bit_simps)

lemma mask_loop_skip:
  "\<forall>e \<in> set xs. e_tag e \<noteq> ACL_MASK \<Longrightarrow> acl_mask_loop pa (xs @ ys) want = acl_mask_loop pa ys want"
  by (induction xs) auto

lemma mask_loop_end:
  assumes "ms = [] \<or> (\<exists>m. ms = [m] \<and> e_tag m = ACL_MASK)" and "e_tag w = ACL_OTHER"
  shows "acl_mask_loop pa (ms @ [w]) want =
    (if entry_allows want pa \<and> (\<forall>m \<in> set ms. entry_allows want m) then Inr () else Inl EACCES)"
  using assms by (auto simp: entry_allows_def acl_check_perm_def and3_iff)

lemma perm_loop_users:
  assumes "\<forall>e \<in> set us. e_tag e = ACL_USER"
  shows "acl_perm_loop c iu ig (us @ rest) want found =
    (case find (\<lambda>e. e_id e = fsuid c) us of
       Some e \<Rightarrow> acl_mask_loop e rest want | None \<Rightarrow> acl_perm_loop c iu ig rest want found)"
  using assms by (induction us) (auto simp: mask_loop_skip)

lemma perm_loop_groups:
  assumes "\<forall>e \<in> set gs. e_tag e = ACL_GROUP"
  shows "acl_perm_loop c iu ig (gs @ rest) want found =
    (case find (\<lambda>e. cur_in_group c (e_id e) \<and> entry_allows want e) gs of
       Some e \<Rightarrow> acl_mask_loop e rest want
     | None \<Rightarrow> acl_perm_loop c iu ig rest want (found \<or> (\<exists>e \<in> set gs. cur_in_group c (e_id e))))"
  using assms by (induction gs arbitrary: found) (auto simp: mask_loop_skip entry_allows_def split: option.split)

lemma perm_loop_tail:
  assumes "ms = [] \<or> (\<exists>m. ms = [m] \<and> e_tag m = ACL_MASK)" and "e_tag w = ACL_OTHER"
  shows "acl_perm_loop c iu ig (ms @ [w]) want found =
    (if \<not> found \<and> entry_allows want w then Inr () else Inl EACCES)"
  using assms by (auto simp: entry_allows_def acl_check_perm_def)

lemma perm_loop_group_class:
  assumes "acl_form u us g gs ms w"
  shows "acl_perm_loop c iu ig (g # gs @ ms @ [w]) want False =
    (let matching = (if cur_in_group c ig then [g] else []) @ filter (\<lambda>e. cur_in_group c (e_id e)) gs
     in if (if matching \<noteq> []
            then \<exists>e \<in> set matching. entry_allows want e \<and> (\<forall>m \<in> set ms. entry_allows want m)
            else entry_allows want w) then Inr () else Inl EACCES)"
proof -
  have gs: "\<forall>e \<in> set gs. e_tag e = ACL_GROUP" and g: "e_tag g = ACL_GROUP_OBJ" and w: "e_tag w = ACL_OTHER"
    and ms: "ms = [] \<or> (\<exists>m. ms = [m] \<and> e_tag m = ACL_MASK)"
    using assms by (auto simp: acl_form_def named_entries_def)
  have noM: "\<forall>e \<in> set gs. e_tag e \<noteq> ACL_MASK" using gs by simp
  let ?P = "\<lambda>e. cur_in_group c (e_id e) \<and> entry_allows want e"
  have tail: "acl_perm_loop c iu ig (gs @ ms @ [w]) want found =
      (if \<exists>e \<in> set gs. ?P e then (if \<forall>m \<in> set ms. entry_allows want m then Inr () else Inl EACCES)
       else if \<not> found \<and> \<not> (\<exists>e \<in> set gs. cur_in_group c (e_id e)) \<and> entry_allows want w then Inr ()
       else Inl EACCES)" for found
  proof (cases "find ?P gs")
    case None
    then have "\<not> (\<exists>e \<in> set gs. ?P e)" by (auto simp: find_None_iff)
    then show ?thesis using None by (simp add: perm_loop_groups [OF gs] perm_loop_tail [OF ms w])
  next
    case (Some e)
    then have "e \<in> set gs" "?P e" by (auto simp: find_Some_iff)
    then show ?thesis using Some by (auto simp: perm_loop_groups [OF gs] mask_loop_end [OF ms w])
  qed
  have gmask: "acl_mask_loop g (gs @ ms @ [w]) want =
      (if entry_allows want g \<and> (\<forall>m \<in> set ms. entry_allows want m) then Inr () else Inl EACCES)"
    by (simp add: mask_loop_skip [OF noM] mask_loop_end [OF ms w])
  show ?thesis
    using g by (auto simp: tail gmask entry_allows_def [symmetric] Let_def filter_empty_conv)
qed

lemma permission_form:
  assumes form: "acl_form u us g gs ms w"
  shows "posix_acl_permission c iu ig (u # us @ g # gs @ ms @ [w]) want =
    (if acl_grants c iu ig u us g gs ms w want then Inr () else Inl EACCES)"
proof -
  have us: "\<forall>e \<in> set us. e_tag e = ACL_USER" and gs: "\<forall>e \<in> set gs. e_tag e = ACL_GROUP"
    and tags: "e_tag u = ACL_USER_OBJ" "e_tag g = ACL_GROUP_OBJ" "e_tag w = ACL_OTHER"
    and ms: "ms = [] \<or> (\<exists>m. ms = [m] \<and> e_tag m = ACL_MASK)"
    using form by (auto simp: acl_form_def named_entries_def)
  have "acl_mask_loop e (g # gs @ ms @ [w]) want =
      (if entry_allows want e \<and> (\<forall>m \<in> set ms. entry_allows want m) then Inr () else Inl EACCES)" for e
    using mask_loop_skip [of "g # gs" e "ms @ [w]" want] gs tags by (simp add: mask_loop_end [OF ms tags(3)])
  note mask = this
  have "posix_acl_permission c iu ig (u # us @ g # gs @ ms @ [w]) want = (if iu = fsuid c then acl_check_perm u want
      else acl_perm_loop c iu ig (us @ g # gs @ ms @ [w]) want False)"
    using tags by (simp add: posix_acl_permission_def)
  also have "\<dots> = (if acl_grants c iu ig u us g gs ms w want then Inr () else Inl EACCES)"
  proof (cases "find (\<lambda>e. e_id e = fsuid c) us")
    case None
    then have "acl_perm_loop c iu ig (us @ g # gs @ ms @ [w]) want False =
        acl_perm_loop c iu ig (g # gs @ ms @ [w]) want False"
      by (simp only: perm_loop_users [OF us] option.case)
    then show ?thesis
      unfolding acl_grants_def Let_def acl_check_perm_def entry_allows_def [symmetric]
      by (simp only: None option.case perm_loop_group_class [OF form] Let_def split: if_split) blast
  next
    case (Some e)
    then have "acl_perm_loop c iu ig (us @ g # gs @ ms @ [w]) want False = acl_mask_loop e (g # gs @ ms @ [w]) want"
      by (simp only: perm_loop_users [OF us] option.case)
    then show ?thesis
      unfolding acl_grants_def Let_def acl_check_perm_def entry_allows_def [symmetric]
      by (simp only: Some option.case mask split: if_split) blast
  qed
  finally show ?thesis .
qed

text \<open>C30.
  On a valid list \<open>posix_acl_permission\<close> decides the access as POSIX 1003.1e prescribes: it
  returns success exactly if the standard's algorithm grants it and \<open>EACCES\<close> otherwise, never
  \<open>EIO\<close>.
\<close>

theorem posix_acl_permission_standard:
  assumes "posix_acl_valid acl = Inr ()"
  shows "\<exists>u us g gs ms w. acl = u # us @ g # gs @ ms @ [w] \<and> acl_form u us g gs ms w \<and>
    posix_acl_permission c iu ig acl want =
      (if acl_grants c iu ig u us g gs ms w want then Inr () else Inl EACCES)"
  using valid_grammar [OF assms] permission_form unfolding acl_grammar_def by metis

definition example_acl :: posix_acl where
  "example_acl =
     [\<lparr>e_tag = ACL_USER_OBJ, e_perm = 6, e_id = ACL_UNDEFINED_ID\<rparr>, \<lparr>e_tag = ACL_USER, e_perm = 6, e_id = 5\<rparr>,
      \<lparr>e_tag = ACL_GROUP_OBJ, e_perm = 0, e_id = ACL_UNDEFINED_ID\<rparr>, \<lparr>e_tag = ACL_MASK, e_perm = 4, e_id = ACL_UNDEFINED_ID\<rparr>,
      \<lparr>e_tag = ACL_OTHER, e_perm = 0, e_id = ACL_UNDEFINED_ID\<rparr>]"

lemma example_acl_valid: "posix_acl_valid example_acl = Inr ()"
  by (simp add: posix_acl_valid_def example_acl_def) (simp add: acl_consts)

theorem posix_acl_permission_standard_witness:
  "(\<exists>u us g gs ms w. example_acl = u # us @ g # gs @ ms @ [w] \<and> acl_form u us g gs ms w \<and>
    acl_grants daemon_cred 0 0 u us g gs ms w 4) \<and> posix_acl_permission daemon_cred 0 0 example_acl 2 = Inl EACCES"
proof -
  have "posix_acl_permission daemon_cred 0 0 example_acl 4 = Inr ()"
    and w: "posix_acl_permission daemon_cred 0 0 example_acl 2 = Inl EACCES"
    by (simp_all add: posix_acl_permission_def example_acl_def acl_check_perm_def)
      (simp_all add: daemon_cred_def user_cred_def)
  with posix_acl_permission_standard [OF example_acl_valid, of daemon_cred 0 0 4] show ?thesis
    by (metis sum.distinct(1))
qed

section \<open>Permission classes and the file mode\<close>

lemma mode_masks:
  "S_IRWXO = mask 3" "S_IRWXG = push_bit 3 (mask 3)" "S_IRWXU = push_bit 6 (mask 3)" "S_IRWXUGO = mask 9"
  "ACL_READ OR ACL_WRITE OR ACL_EXECUTE = mask 3"
  by (simp_all add: acl_consts mask_eq_exp_minus_1)

text \<open>The mode bits of three permission sets, and back.\<close>

definition mode_of :: "u32 \<Rightarrow> u32 \<Rightarrow> u32 \<Rightarrow> mode_t" where
  "mode_of a b d = push_bit 6 (a AND S_IRWXO) OR push_bit 3 (b AND S_IRWXO) OR (d AND S_IRWXO)"

lemma mode_of_split:
  "mode_of (drop_bit 6 (m AND S_IRWXU)) (drop_bit 3 (m AND S_IRWXG)) (m AND S_IRWXO) = m AND S_IRWXUGO"
proof (rule bit_word_eqI)
  fix n :: nat
  consider "n < 3" | "3 \<le> n" "n < 6" | "6 \<le> n" by linarith
  then show "bit (mode_of (drop_bit 6 (m AND S_IRWXU)) (drop_bit 3 (m AND S_IRWXG)) (m AND S_IRWXO)) n =
      bit (m AND S_IRWXUGO) n"
    by cases (auto simp: mode_of_def mode_masks bit_simps)
qed

lemma mode_of_and:
  "mode_of (a AND drop_bit 6 m) (b AND drop_bit 3 m) (d AND m) = m AND mode_of a b d"
  by (rule bit_word_eqI) (auto simp: mode_of_def mode_masks bit_simps)

lemma mode_of_mask: "mode_of a b d AND NOT S_IRWXUGO = 0" "mode_of a b d AND S_IRWXUGO = mode_of a b d"
  by (rule bit_word_eqI; auto simp: mode_of_def mode_masks bit_simps)+

lemma perm_ok_bits: "perm_ok e \<longleftrightarrow> (\<forall>n. bit (e_perm e) n \<longrightarrow> n < 3)"
proof -
  have "bit (e_perm e) n \<Longrightarrow> n < 16" for n using bit_imp_le_length [of "e_perm e" n] by simp
  moreover have "perm_ok e \<longleftrightarrow> (\<forall>n < 16. bit (e_perm e) n \<longrightarrow> n < 3)"
    by (auto simp: perm_ok_def mode_masks bit_eq_iff bit_simps)
  ultimately show ?thesis by blast
qed

text \<open>The entry of the group class is the mask if there is one.\<close>

definition class_group :: "posix_acl_entry \<Rightarrow> posix_acl \<Rightarrow> posix_acl_entry" where
  "class_group g ms = (case ms of [] \<Rightarrow> g | m # _ \<Rightarrow> m)"

definition class_mode :: "posix_acl_entry \<Rightarrow> posix_acl_entry \<Rightarrow> posix_acl_entry \<Rightarrow> mode_t" where
  "class_mode u g w = mode_of (ucast (e_perm u)) (ucast (e_perm g)) (ucast (e_perm w))"

lemma equiv_mode_named:
  "\<forall>e \<in> set es. e_tag e = ACL_USER \<or> e_tag e = ACL_GROUP \<Longrightarrow>
   equiv_mode_loop (es @ rest) mode ne = equiv_mode_loop rest mode (ne \<or> es \<noteq> [])"
  by (induction es arbitrary: ne) auto

lemma mode_of_or:
  "push_bit 6 (a AND S_IRWXO) OR (push_bit 3 (b AND S_IRWXO) OR (d AND S_IRWXO)) = mode_of a b d"
  "(push_bit 6 (a AND S_IRWXO) OR push_bit 3 (x AND S_IRWXO)) AND NOT S_IRWXG OR
     (push_bit 3 (b AND S_IRWXO) OR (d AND S_IRWXO)) = mode_of a b d"
  by (rule bit_word_eqI; auto simp: mode_of_def mode_masks bit_simps)+

lemma equiv_mode_form:
  assumes "acl_form u us g gs ms w"
  shows "posix_acl_equiv_mode (u # us @ g # gs @ ms @ [w]) m =
    Inr ((m AND NOT S_IRWXUGO) OR class_mode u (class_group g ms) w, ms \<noteq> [])"
proof -
  have us: "\<forall>e \<in> set us. e_tag e = ACL_USER \<or> e_tag e = ACL_GROUP"
    and gs: "\<forall>e \<in> set gs. e_tag e = ACL_USER \<or> e_tag e = ACL_GROUP"
    and tags: "e_tag u = ACL_USER_OBJ" "e_tag g = ACL_GROUP_OBJ" "e_tag w = ACL_OTHER"
    and ms: "ms = [] \<and> us = [] \<and> gs = [] \<or> (\<exists>m. ms = [m] \<and> e_tag m = ACL_MASK)"
    using assms by (auto simp: acl_form_def named_entries_def)
  show ?thesis
    using ms tags
    by (auto simp: posix_acl_equiv_mode_def equiv_mode_named [OF us] equiv_mode_named [OF gs] class_mode_def
        class_group_def Let_def or.assoc mode_of_or simp del: push_bit_and)
qed

subsection \<open>chmod\<close>

lemma chmod_loop_named:
  "\<forall>e \<in> set es. e_tag e = ACL_USER \<or> e_tag e = ACL_GROUP \<Longrightarrow>
   chmod_masq_loop i (es @ rest) mode g m =
   (case chmod_masq_loop (i + length es) rest mode g m of Inl e \<Rightarrow> Inl e | Inr (acl, r) \<Rightarrow> Inr (es @ acl, r))"
proof (induction es arbitrary: i)
  case Nil
  then show ?case by (auto split: sum.split)
next
  case (Cons e es)
  then show ?case by (auto simp: Let_def split: sum.split)
qed

lemma chmod_masq_form:
  fixes mode :: mode_t
  assumes "acl_form u us g gs ms w"
  defines "pu \<equiv> ucast (drop_bit 6 (mode AND S_IRWXU))" and "pg \<equiv> ucast (drop_bit 3 (mode AND S_IRWXG))"
    and "po \<equiv> ucast (mode AND S_IRWXO)"
  shows "posix_acl_chmod_masq (u # us @ g # gs @ ms @ [w]) mode =
    Inr (u\<lparr>e_perm := pu\<rparr> # us @ (if ms = [] then g\<lparr>e_perm := pg\<rparr> else g) # gs @
         map (\<lambda>m. m\<lparr>e_perm := pg\<rparr>) ms @ [w\<lparr>e_perm := po\<rparr>])"
proof -
  have us: "\<forall>e \<in> set us. e_tag e = ACL_USER \<or> e_tag e = ACL_GROUP"
    and gs: "\<forall>e \<in> set gs. e_tag e = ACL_USER \<or> e_tag e = ACL_GROUP"
    and tags: "e_tag u = ACL_USER_OBJ" "e_tag g = ACL_GROUP_OBJ" "e_tag w = ACL_OTHER"
    and ms: "ms = [] \<and> us = [] \<and> gs = [] \<or> (\<exists>m. ms = [m] \<and> e_tag m = ACL_MASK)"
    using assms(1) by (auto simp: acl_form_def named_entries_def)
  have "chmod_masq_loop 0 (u # us @ g # gs @ ms @ [w]) mode None None =
      Inr (u\<lparr>e_perm := pu\<rparr> # us @ g # gs @ ms @ [w\<lparr>e_perm := po\<rparr>], Some (Suc (length us)),
           if ms = [] then None else Some (Suc (Suc (length us + length gs))))"
    using ms tags
    by (auto simp: chmod_loop_named [OF us] chmod_loop_named [OF gs] Let_def pu_def po_def)
  then show ?thesis
    using ms by (auto simp: posix_acl_chmod_masq_def pg_def nth_append list_update_append)
qed

lemma perm_ok_mode_bits:
  "perm_ok (e\<lparr>e_perm := ucast (drop_bit 6 (mode AND S_IRWXU))\<rparr>)"
  "perm_ok (e\<lparr>e_perm := ucast (drop_bit 3 (mode AND S_IRWXG))\<rparr>)"
  "perm_ok (e\<lparr>e_perm := ucast (mode AND S_IRWXO)\<rparr>)"
  by (auto simp: perm_ok_bits mode_masks bit_simps)

lemma ucast_mode_bits:
  "ucast (ucast (drop_bit 6 (mode AND S_IRWXU)) :: u16) = drop_bit 6 (mode AND S_IRWXU)"
  "ucast (ucast (drop_bit 3 (mode AND S_IRWXG)) :: u16) = drop_bit 3 (mode AND S_IRWXG)"
  "ucast (ucast (mode AND S_IRWXO) :: u16) = mode AND S_IRWXO"
  by (rule bit_word_eqI; auto simp: mode_masks bit_simps)+

text \<open>C32.
  \<open>posix_acl_chmod_masq\<close> succeeds on every valid list; the result is valid, has the same
  entries but for permissions, keeps the permissions of all named entries (and of the group entry
  if there is a mask), and its permission classes are exactly the permission bits of the mode.
\<close>

theorem posix_acl_chmod_masq_correct:
  assumes "posix_acl_valid acl = Inr ()"
  shows "\<exists>acl' ne. posix_acl_chmod_masq acl mode = Inr acl' \<and> posix_acl_valid acl' = Inr () \<and>
    map (\<lambda>e. (e_tag e, e_id e)) acl' = map (\<lambda>e. (e_tag e, e_id e)) acl \<and>
    filter (\<lambda>e. e_tag e = ACL_USER \<or> e_tag e = ACL_GROUP) acl' =
      filter (\<lambda>e. e_tag e = ACL_USER \<or> e_tag e = ACL_GROUP) acl \<and>
    posix_acl_equiv_mode acl' m = Inr ((m AND NOT S_IRWXUGO) OR (mode AND S_IRWXUGO), ne)"
proof -
  obtain u us g gs ms w where acl: "acl = u # us @ g # gs @ ms @ [w]" and form: "acl_form u us g gs ms w"
    and perms: "\<forall>e \<in> set acl. perm_ok e"
    using valid_grammar [OF assms] unfolding acl_grammar_def by blast
  let ?pu = "ucast (drop_bit 6 (mode AND S_IRWXU))" and ?pg = "ucast (drop_bit 3 (mode AND S_IRWXG))"
    and ?po = "ucast (mode AND S_IRWXO)"
  let ?u = "u\<lparr>e_perm := ?pu\<rparr>" and ?g = "if ms = [] then g\<lparr>e_perm := ?pg\<rparr> else g"
    and ?ms = "map (\<lambda>m. m\<lparr>e_perm := ?pg\<rparr>) ms" and ?w = "w\<lparr>e_perm := ?po\<rparr>"
  let ?acl = "?u # us @ ?g # gs @ ?ms @ [?w]"
  have form': "acl_form ?u us ?g gs ?ms ?w" using form by (auto simp: acl_form_def)
  have "\<forall>e \<in> set ?acl. perm_ok e" using perms by (auto simp: acl perm_ok_mode_bits simp del: drop_bit_and)
  with form' have valid: "posix_acl_valid ?acl = Inr ()"
    by (intro grammar_valid) (unfold acl_grammar_def, blast)
  have "class_mode ?u (class_group ?g ?ms) ?w = mode AND S_IRWXUGO"
    by (cases ms) (simp_all add: class_mode_def class_group_def ucast_mode_bits mode_of_split del: drop_bit_and)
  then have "posix_acl_equiv_mode ?acl m = Inr ((m AND NOT S_IRWXUGO) OR (mode AND S_IRWXUGO), ?ms \<noteq> [])"
    by (simp only: equiv_mode_form [OF form'])
  moreover have "map (\<lambda>e. (e_tag e, e_id e)) ?acl = map (\<lambda>e. (e_tag e, e_id e)) acl" by (simp add: acl)
  moreover have "filter (\<lambda>e. e_tag e = ACL_USER \<or> e_tag e = ACL_GROUP) ?acl =
      filter (\<lambda>e. e_tag e = ACL_USER \<or> e_tag e = ACL_GROUP) acl"
    using form by (auto simp: acl acl_form_def)
  ultimately show ?thesis using valid chmod_masq_form [OF form, of mode] unfolding acl by blast
qed

theorem posix_acl_chmod_masq_correct_witness:
  "\<exists>acl'. posix_acl_chmod_masq example_acl 0x1A0 = Inr acl' \<and> posix_acl_valid acl' = Inr () \<and>
     (\<exists>ne. posix_acl_equiv_mode acl' 0x8000 = Inr (0x81A0, ne))"
  using posix_acl_chmod_masq_correct [OF example_acl_valid, of "0x1A0" "0x8000"]
  by (elim exE conjE) (simp add: acl_consts)

subsection \<open>Creation\<close>

lemma create_loop_named:
  "\<forall>e \<in> set es. e_tag e = ACL_USER \<or> e_tag e = ACL_GROUP \<Longrightarrow>
   create_masq_loop i (es @ rest) s =
   (case create_masq_loop (i + length es) rest (s\<lparr>mq_not_equiv := mq_not_equiv s \<or> es \<noteq> []\<rparr>) of
      Inl e \<Rightarrow> Inl e | Inr (acl, r) \<Rightarrow> Inr (es @ acl, r))"
proof (induction es arbitrary: i s)
  case Nil
  then show ?case by (auto split: sum.split)
next
  case (Cons e es)
  then show ?case by (auto simp: Let_def split: sum.split)
qed

text \<open>The permissions a mode leaves of an entry.\<close>

definition perm_and :: "posix_acl_entry \<Rightarrow> u32 \<Rightarrow> posix_acl_entry" where
  "perm_and e m = e\<lparr>e_perm := e_perm e AND ucast m\<rparr>"

lemma perm_and_masked:
  assumes "perm_ok e" and "\<And>n. n < 3 \<Longrightarrow> bit m' n = bit m n"
  shows "e_perm e AND ucast (m' OR NOT S_IRWXO) = e_perm (perm_and e m)"
  using assms by (intro bit_word_eqI) (auto simp: perm_and_def perm_ok_bits mode_masks bit_simps)

lemma perm_and_update: "e\<lparr>e_perm := e_perm (perm_and e m)\<rparr> = perm_and e m"
  by (simp add: perm_and_def)

lemma perm_ok_perm_and: "perm_ok e \<Longrightarrow> perm_ok (perm_and e m)"
  by (auto simp: perm_ok_bits perm_and_def bit_simps)

lemma ucast_perm_and: "perm_ok e \<Longrightarrow> ucast (e_perm (perm_and e m)) = (ucast (e_perm e) :: u32) AND m"
  by (rule bit_word_eqI) (auto simp: perm_ok_bits perm_and_def bit_simps)

lemma class_mode_and:
  assumes "perm_ok u" and "perm_ok g" and "perm_ok w"
  shows "class_mode (perm_and u (drop_bit 6 m)) (perm_and g (drop_bit 3 m)) (perm_and w m) = m AND class_mode u g w"
  using assms by (simp add: class_mode_def ucast_perm_and mode_of_and)

text \<open>The mode after the three steps of \<open>posix_acl_create_masq\<close>.\<close>

lemma masq_mode_steps:
  assumes "perm_ok u" and "perm_ok g" and "perm_ok w"
  shows "((m AND (push_bit 6 (ucast (e_perm (perm_and u (drop_bit 6 m)))) OR NOT S_IRWXU)) AND
      (ucast (e_perm (perm_and w m)) OR NOT S_IRWXO)) AND
      (push_bit 3 (ucast (e_perm (perm_and g (drop_bit 3 m)))) OR NOT S_IRWXG) =
    m AND (class_mode u g w OR NOT S_IRWXUGO)"
proof (rule bit_word_eqI)
  fix n :: nat
  consider "n < 3" | "3 \<le> n" "n < 6" | "6 \<le> n" "n < 9" | "9 \<le> n" by linarith
  then show "bit (((m AND (push_bit 6 (ucast (e_perm (perm_and u (drop_bit 6 m)))) OR NOT S_IRWXU)) AND
      (ucast (e_perm (perm_and w m)) OR NOT S_IRWXO)) AND
      (push_bit 3 (ucast (e_perm (perm_and g (drop_bit 3 m)))) OR NOT S_IRWXG)) n =
    bit (m AND (class_mode u g w OR NOT S_IRWXUGO)) n" if "n < LENGTH(32)"
    using that by cases (auto simp: ucast_perm_and [OF assms(1)] ucast_perm_and [OF assms(2)] ucast_perm_and [OF assms(3)]
      class_mode_def mode_of_def mode_masks bit_simps)
qed

lemma create_masq_form:
  fixes m :: mode_t
  assumes form: "acl_form u us g gs ms w" and perms: "perm_ok u" "perm_ok (class_group g ms)" "perm_ok w"
  shows "posix_acl_create_masq (u # us @ g # gs @ ms @ [w]) m =
    Inr (perm_and u (drop_bit 6 m) # us @ (if ms = [] then perm_and g (drop_bit 3 m) else g) # gs @
           map (\<lambda>e. perm_and e (drop_bit 3 m)) ms @ [perm_and w m],
         m AND (class_mode u (class_group g ms) w OR NOT S_IRWXUGO), ms \<noteq> [])"
proof -
  have us: "\<forall>e \<in> set us. e_tag e = ACL_USER \<or> e_tag e = ACL_GROUP"
    and gs: "\<forall>e \<in> set gs. e_tag e = ACL_USER \<or> e_tag e = ACL_GROUP"
    and tags: "e_tag u = ACL_USER_OBJ" "e_tag g = ACL_GROUP_OBJ" "e_tag w = ACL_OTHER"
    and ms: "ms = [] \<and> us = [] \<and> gs = [] \<or> (\<exists>m. ms = [m] \<and> e_tag m = ACL_MASK)"
    using form by (auto simp: acl_form_def named_entries_def)
  define m1 where "m1 = m AND (push_bit 6 (ucast (e_perm (perm_and u (drop_bit 6 m)))) OR NOT S_IRWXU)"
  define m2 where "m2 = m1 AND (ucast (e_perm (perm_and w m)) OR NOT S_IRWXO)"
  have U: "e_perm u AND ucast (drop_bit 6 m OR NOT S_IRWXO) = e_perm (perm_and u (drop_bit 6 m))"
    by (rule perm_and_masked [OF perms(1)]) simp
  have W: "e_perm w AND ucast (m1 OR NOT S_IRWXO) = e_perm (perm_and w m)"
    by (rule perm_and_masked [OF perms(3)]) (auto simp: m1_def mode_masks bit_simps)
  have G: "e_perm (class_group g ms) AND ucast (drop_bit 3 m2 OR NOT S_IRWXO) =
      e_perm (perm_and (class_group g ms) (drop_bit 3 m))"
    by (rule perm_and_masked [OF perms(2)]) (auto simp: m2_def m1_def mode_masks bit_simps)
  let ?s = "\<lparr>mq_mode = m, mq_group_obj = None, mq_mask_obj = None, mq_not_equiv = False\<rparr>"
  have loop: "create_masq_loop 0 (u # us @ g # gs @ ms @ [w]) ?s =
      Inr (perm_and u (drop_bit 6 m) # us @ g # gs @ ms @ [perm_and w m],
           \<lparr>mq_mode = m2, mq_group_obj = Some (Suc (length us)),
            mq_mask_obj = (if ms = [] then None else Some (Suc (Suc (length us + length gs)))),
            mq_not_equiv = ms \<noteq> []\<rparr>)"
    using ms
    by (elim disjE exE conjE)
       (simp_all add: tags create_loop_named [OF us] create_loop_named [OF gs] Let_def U W perm_and_update
          m1_def [symmetric] m2_def [symmetric])
  have G': "masq_group k acl m2 = (acl[k := perm_and (class_group g ms) (drop_bit 3 m)],
      m AND (class_mode u (class_group g ms) w OR NOT S_IRWXUGO))" if "acl ! k = class_group g ms" for acl k
    using that masq_mode_steps [OF perms, of m, folded m1_def, folded m2_def]
    by (simp add: masq_group_def Let_def G perm_and_update)
  have "m AND NOT S_IRWXUGO OR m AND (c OR NOT S_IRWXUGO) = m AND (c OR NOT S_IRWXUGO)" for c
    by (rule bit_word_eqI) (auto simp: bit_simps)
  then show ?thesis
    using ms unfolding posix_acl_create_masq_def loop
    by (elim disjE exE conjE) (simp_all add: G' class_group_def nth_append list_update_append)
qed

text \<open>C31.
  \<open>posix_acl_create_masq\<close> succeeds on every valid list: the mode of the new file loses exactly the
  permission bits its class in the list does not have, the list is still valid and grants no entry
  more than before, and the two agree: the classes of the new list are the permission bits of the
  new mode.
\<close>

theorem posix_acl_create_masq_correct:
  assumes "posix_acl_valid acl = Inr ()"
  shows "\<exists>acl' mode' cls ne. posix_acl_create_masq acl mode = Inr (acl', mode', ne) \<and>
    posix_acl_equiv_mode acl 0 = Inr (cls, ne) \<and> mode' = mode AND (cls OR NOT S_IRWXUGO) \<and>
    posix_acl_valid acl' = Inr () \<and>
    posix_acl_equiv_mode acl' m = Inr ((m AND NOT S_IRWXUGO) OR (mode' AND S_IRWXUGO), ne) \<and>
    list_all2 (\<lambda>e' e. e_tag e' = e_tag e \<and> e_id e' = e_id e \<and> e_perm e' AND NOT (e_perm e) = 0) acl' acl"
proof -
  obtain u us g gs ms w where acl: "acl = u # us @ g # gs @ ms @ [w]" and form: "acl_form u us g gs ms w"
    and perms: "\<forall>e \<in> set acl. perm_ok e"
    using valid_grammar [OF assms] unfolding acl_grammar_def by blast
  let ?k = "class_group g ms" and ?cls = "class_mode u (class_group g ms) w"
  have ok: "perm_ok u" "perm_ok ?k" "perm_ok w"
    using perms by (auto simp: acl class_group_def split: list.split)
  let ?u = "perm_and u (drop_bit 6 mode)" and ?g = "if ms = [] then perm_and g (drop_bit 3 mode) else g"
    and ?ms = "map (\<lambda>e. perm_and e (drop_bit 3 mode)) ms" and ?w = "perm_and w mode"
  let ?acl = "?u # us @ ?g # gs @ ?ms @ [?w]" and ?mode = "mode AND (?cls OR NOT S_IRWXUGO)"
  have tags: "e_tag (perm_and e x) = e_tag e" "e_id (perm_and e x) = e_id e" for e x
    by (simp_all add: perm_and_def)
  have form': "acl_form ?u us ?g gs ?ms ?w" using form by (auto simp: acl_form_def tags)
  have "\<forall>e \<in> set ?acl. perm_ok e" using perms by (auto simp: acl perm_ok_perm_and)
  with form' have valid: "posix_acl_valid ?acl = Inr ()"
    by (intro grammar_valid) (unfold acl_grammar_def, blast)
  have cls': "class_mode ?u (class_group ?g ?ms) ?w = mode AND ?cls"
  proof -
    have "class_group ?g ?ms = perm_and ?k (drop_bit 3 mode)"
      by (cases ms) (simp_all add: class_group_def)
    then show ?thesis using class_mode_and [OF ok] by simp
  qed
  have and_cls: "mode AND ?cls = ?mode AND S_IRWXUGO"
    by (rule bit_word_eqI) (auto simp: class_mode_def mode_of_def mode_masks bit_simps)
  have sub: "e_perm (perm_and e x) AND NOT (e_perm e) = 0" "e_perm e AND NOT (e_perm e) = 0" for e x
    by (rule bit_word_eqI; auto simp: perm_and_def bit_simps)+
  have "list_all2 (\<lambda>e' e. e_tag e' = e_tag e \<and> e_id e' = e_id e \<and> e_perm e' AND NOT (e_perm e) = 0) ?acl acl"
    by (auto simp: acl tags sub intro!: list_all2_appendI simp: list_all2_same list_all2_map1)
  moreover have "posix_acl_equiv_mode ?acl m = Inr ((m AND NOT S_IRWXUGO) OR (?mode AND S_IRWXUGO), ms \<noteq> [])"
    unfolding equiv_mode_form [OF form'] cls' and_cls by simp
  moreover have "posix_acl_equiv_mode acl 0 = Inr (?cls, ms \<noteq> [])"
    unfolding acl equiv_mode_form [OF form] by simp
  moreover have "posix_acl_create_masq acl mode = Inr (?acl, ?mode, ms \<noteq> [])"
    unfolding acl create_masq_form [OF form ok] ..
  ultimately show ?thesis using valid by blast
qed

theorem posix_acl_create_masq_correct_witness:
  "\<exists>acl' ne. posix_acl_create_masq example_acl 0x81B6 = Inr (acl', 0x81A0, ne) \<and> posix_acl_valid acl' = Inr ()"
proof -
  have "posix_acl_equiv_mode example_acl 0 = Inr (0x1A0, True)"
    by (simp add: posix_acl_equiv_mode_def example_acl_def) (simp add: acl_consts)
  with posix_acl_create_masq_correct [OF example_acl_valid, of "0x81B6" 0] show ?thesis
    by (elim exE conjE) (auto simp: acl_consts)
qed

subsection \<open>Modes as lists\<close>

lemma posix_acl_from_mode_form:
  "posix_acl_from_mode True mode = Inr [u, g, w] \<longleftrightarrow>
     u = \<lparr>e_tag = ACL_USER_OBJ, e_perm = ucast (drop_bit 6 (mode AND S_IRWXU)), e_id = ACL_UNDEFINED_ID\<rparr> \<and>
     g = \<lparr>e_tag = ACL_GROUP_OBJ, e_perm = ucast (drop_bit 3 (mode AND S_IRWXG)), e_id = ACL_UNDEFINED_ID\<rparr> \<and>
     w = \<lparr>e_tag = ACL_OTHER, e_perm = ucast (mode AND S_IRWXO), e_id = ACL_UNDEFINED_ID\<rparr>"
  by (auto simp: posix_acl_from_mode_def)

lemma acl_form_from_mode:
  assumes "posix_acl_from_mode True mode = Inr [u, g, w]"
  shows "acl_form u [] g [] [] w"
  using assms unfolding posix_acl_from_mode_form by (simp add: acl_form_def named_entries_def)

lemma from_mode_class:
  assumes acl: "posix_acl_from_mode True mode = Inr [u, g, w]"
  shows "acl_grammar [u, g, w]" "class_mode u g w = mode AND S_IRWXUGO"
proof -
  note form = acl_form_from_mode [OF acl] and eqs = acl [unfolded posix_acl_from_mode_form]
  show "acl_grammar [u, g, w]"
    unfolding acl_grammar_def using eqs
    by (intro conjI exI [of _ u] exI [of _ "[]"] exI [of _ g] exI [of _ w] form)
       (auto simp: perm_ok_bits mode_masks bit_simps)
  show "class_mode u g w = mode AND S_IRWXUGO"
    using eqs by (simp add: class_mode_def ucast_mode_bits mode_of_split del: drop_bit_and)
qed

text \<open>C33.
  A mode and its list are the same thing: \<open>posix_acl_from_mode\<close> gives a valid list of exactly the three
  base entries, \<open>posix_acl_equiv_mode\<close> reads the permission bits back from it, and \<open>chmod\<close> of such a
  list to another mode is the list of the other mode.
\<close>

theorem posix_acl_mode_round_trip:
  "\<exists>acl. posix_acl_from_mode True mode = Inr acl \<and> posix_acl_valid acl = Inr () \<and> length acl = 3 \<and>
     posix_acl_equiv_mode acl m = Inr ((m AND NOT S_IRWXUGO) OR (mode AND S_IRWXUGO), False) \<and>
     posix_acl_chmod_masq acl mode' = posix_acl_from_mode True mode'"
proof -
  obtain u g w where acl: "posix_acl_from_mode True mode = Inr [u, g, w]"
    by (simp add: posix_acl_from_mode_def)
  note form = acl_form_from_mode [OF acl] and eqs = acl [unfolded posix_acl_from_mode_form]
  have "posix_acl_valid [u, g, w] = Inr ()" by (intro grammar_valid from_mode_class(1) [OF acl])
  moreover note from_mode_class(2) [OF acl]
  then have "posix_acl_equiv_mode [u, g, w] m = Inr ((m AND NOT S_IRWXUGO) OR (mode AND S_IRWXUGO), False)"
    using equiv_mode_form [OF form, of m] by (simp add: class_group_def)
  moreover have "posix_acl_chmod_masq [u, g, w] mode' = posix_acl_from_mode True mode'"
    using chmod_masq_form [OF form, of mode'] eqs by (simp add: posix_acl_from_mode_def)
  ultimately show ?thesis using acl by (intro exI [of _ "[u, g, w]"]) simp
qed

end
