(* ===== verification/Inode_Permission.thy ===== *)
theory Inode_Permission
  imports Posix_Acl "HOL-Library.Signed_Division"
begin

text \<open>
  Permission checks and attribute changes of inodes: \<^verbatim>\<open>fs/namei.c\<close> (\<open>acl_permission_check\<close>,
  \<open>generic_permission\<close>, \<open>inode_permission\<close>, \<open>exec_permission_lite\<close>, \<open>check_sticky\<close>, \<open>may_delete\<close>,
  \<open>may_create\<close>), \<^verbatim>\<open>fs/attr.c\<close> (\<open>inode_change_ok\<close>, \<open>inode_newsize_ok\<close>, \<open>inode_setattr\<close>, \<open>notify_change\<close>),
  \<open>vmtruncate\<close>, \<open>timespec_trunc\<close>, and the calls of \<^verbatim>\<open>fs/open.c\<close> and \<^verbatim>\<open>mm/filemap.c\<close> built on them
  (\<open>fchmod\<close>, \<open>chown_common\<close>, \<open>file_remove_suid\<close>), with the check of the device controller
  (\<open>devcgroup_inode_permission\<close> of \<^verbatim>\<open>security/device_cgroup.c\<close>) and, as a file system with a \<open>setattr\<close>
  operation of its own, \<open>proc_notify_change\<close> of \<^verbatim>\<open>fs/proc/generic.c\<close>. A file system extends the record
  \<open>inode\<close> with its own state; its operations and the hooks of the security modules are parameters.
  The page cache and the blocks of the file are not modelled.
\<close>

section \<open>Inodes\<close>

record timespec =
  tv_sec :: int
  tv_nsec :: int

text \<open>
  The fields of \<open>struct inode\<close> that the modelled functions use, with those of its superblock
  (\<open>s_flags\<close>, \<open>s_maxbytes\<close>, \<open>s_time_gran\<close>). \<open>i_xfsz\<close> is not a field of the C structure: it records
  that \<open>SIGXFSZ\<close> was sent to the caller.
\<close>

record inode =
  i_mode :: u16
  i_uid :: u32
  i_gid :: u32
  i_rdev :: u32
  i_flags :: u32
  i_size :: u64
  i_atime :: timespec
  i_mtime :: timespec
  i_ctime :: timespec
  s_flags :: u64
  s_maxbytes :: u64
  s_time_gran :: u32
  i_xfsz :: bool

named_theorems mode_consts \<open>file types, access masks and flags as numbers\<close>

definition MAY_EXEC :: u32 where [mode_consts]: "MAY_EXEC = 1"
definition MAY_WRITE :: u32 where [mode_consts]: "MAY_WRITE = 2"
definition MAY_READ :: u32 where [mode_consts]: "MAY_READ = 4"
definition MAY_APPEND :: u32 where [mode_consts]: "MAY_APPEND = 8"

definition S_IFMT :: u16 where [mode_consts]: "S_IFMT = 0xF000"
definition S_IFLNK :: u16 where [mode_consts]: "S_IFLNK = 0xA000"
definition S_IFREG :: u16 where [mode_consts]: "S_IFREG = 0x8000"
definition S_IFBLK :: u16 where [mode_consts]: "S_IFBLK = 0x6000"
definition S_IFDIR :: u16 where [mode_consts]: "S_IFDIR = 0x4000"
definition S_IFCHR :: u16 where [mode_consts]: "S_IFCHR = 0x2000"
definition S_ISVTX :: u16 where [mode_consts]: "S_ISVTX = 0x200"
definition S_IXUGO :: u16 where [mode_consts]: "S_IXUGO = 0x49"
definition S_IALLUGO :: u32 where [mode_consts]: "S_IALLUGO = 0xFFF"

definition S_ISLNK :: "u16 \<Rightarrow> bool" where "S_ISLNK m \<longleftrightarrow> m AND S_IFMT = S_IFLNK"
definition S_ISREG :: "u16 \<Rightarrow> bool" where "S_ISREG m \<longleftrightarrow> m AND S_IFMT = S_IFREG"
definition S_ISDIR :: "u16 \<Rightarrow> bool" where "S_ISDIR m \<longleftrightarrow> m AND S_IFMT = S_IFDIR"
definition S_ISCHR :: "u16 \<Rightarrow> bool" where "S_ISCHR m \<longleftrightarrow> m AND S_IFMT = S_IFCHR"
definition S_ISBLK :: "u16 \<Rightarrow> bool" where "S_ISBLK m \<longleftrightarrow> m AND S_IFMT = S_IFBLK"

definition MS_RDONLY :: u64 where [mode_consts]: "MS_RDONLY = 1"
definition MS_POSIXACL :: u64 where [mode_consts]: "MS_POSIXACL = 0x10000"
definition S_APPEND :: u32 where [mode_consts]: "S_APPEND = 4"
definition S_IMMUTABLE :: u32 where [mode_consts]: "S_IMMUTABLE = 8"
definition S_DEAD :: u32 where [mode_consts]: "S_DEAD = 16"
definition S_SWAPFILE :: u32 where [mode_consts]: "S_SWAPFILE = 256"

definition IS_RDONLY :: "'a inode_scheme \<Rightarrow> bool" where "IS_RDONLY ino \<longleftrightarrow> s_flags ino AND MS_RDONLY \<noteq> 0"
definition IS_POSIXACL :: "'a inode_scheme \<Rightarrow> bool" where "IS_POSIXACL ino \<longleftrightarrow> s_flags ino AND MS_POSIXACL \<noteq> 0"
definition IS_APPEND :: "'a inode_scheme \<Rightarrow> bool" where "IS_APPEND ino \<longleftrightarrow> i_flags ino AND S_APPEND \<noteq> 0"
definition IS_IMMUTABLE :: "'a inode_scheme \<Rightarrow> bool" where "IS_IMMUTABLE ino \<longleftrightarrow> i_flags ino AND S_IMMUTABLE \<noteq> 0"
definition IS_DEADDIR :: "'a inode_scheme \<Rightarrow> bool" where "IS_DEADDIR ino \<longleftrightarrow> i_flags ino AND S_DEAD \<noteq> 0"
definition IS_SWAPFILE :: "'a inode_scheme \<Rightarrow> bool" where "IS_SWAPFILE ino \<longleftrightarrow> i_flags ino AND S_SWAPFILE \<noteq> 0"

definition is_owner_or_cap :: "cred \<Rightarrow> 'a inode_scheme \<Rightarrow> bool" where
  "is_owner_or_cap c ino \<longleftrightarrow> fsuid c = i_uid ino \<or> capable c CAP_FOWNER"

definition execute_ok :: "'a inode_scheme \<Rightarrow> bool" where
  "execute_ok ino \<longleftrightarrow> i_mode ino AND S_IXUGO \<noteq> 0 \<or> S_ISDIR (i_mode ino)"

section \<open>The device controller\<close>

record dev_whitelist_item =
  wh_major :: u32
  wh_minor :: u32
  wh_type :: u16
  wh_access :: u16

definition ACC_READ :: u16 where "ACC_READ = 2"
definition ACC_WRITE :: u16 where "ACC_WRITE = 4"
definition DEV_BLOCK :: u16 where "DEV_BLOCK = 1"
definition DEV_CHAR :: u16 where "DEV_CHAR = 2"
definition DEV_ALL :: u16 where "DEV_ALL = 4"

definition imajor :: "'a inode_scheme \<Rightarrow> u32" where "imajor ino = drop_bit 20 (i_rdev ino)"
definition iminor :: "'a inode_scheme \<Rightarrow> u32" where "iminor ino = i_rdev ino AND 0xFFFFF"

text \<open>One turn of the loop over the whitelist: does the item allow the access?\<close>

definition wh_allows :: "'a inode_scheme \<Rightarrow> u32 \<Rightarrow> dev_whitelist_item \<Rightarrow> bool" where
  "wh_allows ino may wh =
     (if wh_type wh AND DEV_ALL \<noteq> 0 then True
      else if wh_type wh AND DEV_BLOCK \<noteq> 0 \<and> \<not> S_ISBLK (i_mode ino) then False
      else if wh_type wh AND DEV_CHAR \<noteq> 0 \<and> \<not> S_ISCHR (i_mode ino) then False
      else if wh_major wh \<noteq> - 1 \<and> wh_major wh \<noteq> imajor ino then False
      else if wh_minor wh \<noteq> - 1 \<and> wh_minor wh \<noteq> iminor ino then False
      else if may AND MAY_WRITE \<noteq> 0 \<and> wh_access wh AND ACC_WRITE = 0 then False
      else if may AND MAY_READ \<noteq> 0 \<and> wh_access wh AND ACC_READ = 0 then False
      else True)"

fun whitelist_loop :: "'a inode_scheme \<Rightarrow> u32 \<Rightarrow> dev_whitelist_item list \<Rightarrow> unit result" where
  "whitelist_loop ino may [] = Inl EPERM"
| "whitelist_loop ino may (wh # whs) = (if wh_allows ino may wh then Inr () else whitelist_loop ino may whs)"

definition devcgroup_inode_permission :: "dev_whitelist_item list \<Rightarrow> 'a inode_scheme \<Rightarrow> u32 \<Rightarrow> unit result" where
  "devcgroup_inode_permission whitelist ino may =
     (if i_rdev ino = 0 then Inr ()
      else if \<not> S_ISBLK (i_mode ino) \<and> \<not> S_ISCHR (i_mode ino) then Inr ()
      else whitelist_loop ino may whitelist)"

section \<open>Access checks\<close>

text \<open>
  What an inode of type \<open>'i\<close> comes with: the operations \<open>permission\<close> and \<open>check_acl\<close> of its
  file system (they may change cached state), the whitelist of the device controller of the caller, and the
  answers of the security modules.
\<close>

record 'i iops =
  op_permission :: "('i \<Rightarrow> u32 \<Rightarrow> unit result \<times> 'i) option"
  op_check_acl :: "('i \<Rightarrow> u32 \<Rightarrow> unit result \<times> 'i) option"
  dev_whitelist :: "dev_whitelist_item list"
  security_inode_permission :: "'i \<Rightarrow> u32 \<Rightarrow> unit result"

definition mode_grants :: "u32 \<Rightarrow> u16 \<Rightarrow> unit result" where
  "mode_grants want mode = (if want AND NOT (ucast mode) = 0 then Inr () else Inl EACCES)"

definition acl_permission_check ::
  "cred \<Rightarrow> ('a inode_scheme \<Rightarrow> u32 \<Rightarrow> unit result \<times> 'a inode_scheme) option \<Rightarrow> 'a inode_scheme \<Rightarrow> u32 \<Rightarrow>
   unit result \<times> 'a inode_scheme" where
  "acl_permission_check c check_acl ino may =
     (let mode = i_mode ino;
          want = may AND (MAY_READ OR MAY_WRITE OR MAY_EXEC);
          group = (\<lambda>ino. (mode_grants want (if cur_in_group c (i_gid ino) then drop_bit 3 mode else mode), ino))
      in if fsuid c = i_uid ino then (mode_grants want (drop_bit 6 mode), ino)
         else if IS_POSIXACL ino \<and> ucast mode AND S_IRWXG \<noteq> 0 then
           (case check_acl of
              None \<Rightarrow> group ino
            | Some check \<Rightarrow>
                (case check ino want of
                   (error, ino) \<Rightarrow> if error \<noteq> Inl EAGAIN then (error, ino) else group ino))
         else group ino)"

definition generic_permission ::
  "cred \<Rightarrow> ('a inode_scheme \<Rightarrow> u32 \<Rightarrow> unit result \<times> 'a inode_scheme) option \<Rightarrow> 'a inode_scheme \<Rightarrow> u32 \<Rightarrow>
   unit result \<times> 'a inode_scheme" where
  "generic_permission c check_acl ino0 may =
     (case acl_permission_check c check_acl ino0 may of
        (ret, ino) \<Rightarrow>
          (if ret \<noteq> Inl EACCES then (ret, ino)
           else if (may AND MAY_EXEC = 0 \<or> execute_ok ino) \<and> capable c CAP_DAC_OVERRIDE then (Inr (), ino)
           else
             let want = may AND (MAY_READ OR MAY_WRITE OR MAY_EXEC) in
             if (want = MAY_READ \<or> S_ISDIR (i_mode ino) \<and> want AND MAY_WRITE = 0) \<and> capable c CAP_DAC_READ_SEARCH
             then (Inr (), ino)
             else (Inl EACCES, ino)))"

definition inode_permission ::
  "'a inode_scheme iops \<Rightarrow> cred \<Rightarrow> 'a inode_scheme \<Rightarrow> u32 \<Rightarrow> unit result \<times> 'a inode_scheme" where
  "inode_permission ops c ino0 may =
     (if may AND MAY_WRITE \<noteq> 0 \<and> IS_RDONLY ino0 \<and>
         (S_ISREG (i_mode ino0) \<or> S_ISDIR (i_mode ino0) \<or> S_ISLNK (i_mode ino0)) then (Inl EROFS, ino0)
      else if may AND MAY_WRITE \<noteq> 0 \<and> IS_IMMUTABLE ino0 then (Inl EACCES, ino0)
      else
        case (case op_permission ops of
                Some permission \<Rightarrow> permission ino0 may
              | None \<Rightarrow> generic_permission c (op_check_acl ops) ino0 may) of
          (Inl e, ino) \<Rightarrow> (Inl e, ino)
        | (Inr _, ino) \<Rightarrow>
            (case devcgroup_inode_permission (dev_whitelist ops) ino may of
               Inl e \<Rightarrow> (Inl e, ino)
             | Inr _ \<Rightarrow>
                 (security_inode_permission ops ino
                    (may AND (MAY_READ OR MAY_WRITE OR MAY_EXEC OR MAY_APPEND)), ino)))"


section \<open>Changes of a directory\<close>

text \<open>
  A directory entry as \<open>may_delete\<close> and \<open>may_create\<close> see it: its inode, whether its parent is the
  directory in question, whether it is the root of its tree, and its flags.
\<close>

record 'i dentry =
  d_inode :: "'i option"
  d_parent_is_dir :: bool
  d_is_root :: bool
  d_flags :: u32

definition DCACHE_NFSFS_RENAMED :: u32 where "DCACHE_NFSFS_RENAMED = 2"

definition check_sticky :: "cred \<Rightarrow> 'a inode_scheme \<Rightarrow> 'b inode_scheme \<Rightarrow> bool" where
  "check_sticky c dir ino =
     (if i_mode dir AND S_ISVTX = 0 then False
      else if i_uid ino = fsuid c then False
      else if i_uid dir = fsuid c then False
      else \<not> capable c CAP_FOWNER)"

definition may_delete ::
  "'a inode_scheme iops \<Rightarrow> cred \<Rightarrow> 'a inode_scheme \<Rightarrow> 'a inode_scheme dentry \<Rightarrow> bool \<Rightarrow>
   (unit result \<times> 'a inode_scheme) option" where
  "may_delete ops c dir0 victim isdir =
     (case d_inode victim of
        None \<Rightarrow> Some (Inl ENOENT, dir0)
      | Some v \<Rightarrow>
          if \<not> d_parent_is_dir victim then None
          else Some (case inode_permission ops c dir0 (MAY_WRITE OR MAY_EXEC) of
              (Inl e, dir) \<Rightarrow> (Inl e, dir)
            | (Inr _, dir) \<Rightarrow>
                (if IS_APPEND dir then Inl EPERM
                 else if check_sticky c dir v \<or> IS_APPEND v \<or> IS_IMMUTABLE v \<or> IS_SWAPFILE v then Inl EPERM
                 else if isdir \<and> \<not> S_ISDIR (i_mode v) then Inl ENOTDIR
                 else if isdir \<and> d_is_root victim then Inl EBUSY
                 else if \<not> isdir \<and> S_ISDIR (i_mode v) then Inl EISDIR
                 else if IS_DEADDIR dir then Inl ENOENT
                 else if d_flags victim AND DCACHE_NFSFS_RENAMED \<noteq> 0 then Inl EBUSY
                 else Inr (), dir)))"

definition may_create ::
  "'a inode_scheme iops \<Rightarrow> cred \<Rightarrow> 'a inode_scheme \<Rightarrow> 'a inode_scheme dentry \<Rightarrow> unit result \<times> 'a inode_scheme" where
  "may_create ops c dir child =
     (if d_inode child \<noteq> None then (Inl EEXIST, dir)
      else if IS_DEADDIR dir then (Inl ENOENT, dir)
      else inode_permission ops c dir (MAY_WRITE OR MAY_EXEC))"

section \<open>Attribute changes\<close>

definition ATTR_MODE :: u32 where [mode_consts]: "ATTR_MODE = 0x1"
definition ATTR_UID :: u32 where [mode_consts]: "ATTR_UID = 0x2"
definition ATTR_GID :: u32 where [mode_consts]: "ATTR_GID = 0x4"
definition ATTR_SIZE :: u32 where [mode_consts]: "ATTR_SIZE = 0x8"
definition ATTR_ATIME :: u32 where [mode_consts]: "ATTR_ATIME = 0x10"
definition ATTR_MTIME :: u32 where [mode_consts]: "ATTR_MTIME = 0x20"
definition ATTR_CTIME :: u32 where [mode_consts]: "ATTR_CTIME = 0x40"
definition ATTR_ATIME_SET :: u32 where [mode_consts]: "ATTR_ATIME_SET = 0x80"
definition ATTR_MTIME_SET :: u32 where [mode_consts]: "ATTR_MTIME_SET = 0x100"
definition ATTR_FORCE :: u32 where [mode_consts]: "ATTR_FORCE = 0x200"
definition ATTR_KILL_SUID :: u32 where [mode_consts]: "ATTR_KILL_SUID = 0x800"
definition ATTR_KILL_SGID :: u32 where [mode_consts]: "ATTR_KILL_SGID = 0x1000"
definition ATTR_KILL_PRIV :: u32 where [mode_consts]: "ATTR_KILL_PRIV = 0x4000"
definition ATTR_TIMES_SET :: u32 where [mode_consts]: "ATTR_TIMES_SET = 0x10000"

record iattr =
  ia_valid :: u32
  ia_mode :: u16
  ia_uid :: u32
  ia_gid :: u32
  ia_size :: u64
  ia_atime :: timespec
  ia_mtime :: timespec
  ia_ctime :: timespec

text \<open>
  What the calls depend on besides the inode: the file size limit of the caller, the length of a clock
  tick in microseconds (\<open>jiffies_to_usecs(1)\<close>), the current time, the hooks for file
  capabilities (\<open>security_inode_need_killpriv\<close>, \<open>security_inode_killpriv\<close>) and attribute changes, and
  whether the quota transfer of \<open>vfs_dq_transfer\<close> fails.
\<close>

record attr_env =
  rlim_fsize :: u64
  tick_usecs :: u32
  kernel_time :: timespec
  need_killpriv :: "bool result"
  killpriv :: "unit result"
  security_inode_setattr :: "iattr \<Rightarrow> unit result"
  dq_transfer_fails :: bool

definition RLIM_INFINITY :: u64 where "RLIM_INFINITY = - 1"

definition timespec_trunc :: "attr_env \<Rightarrow> timespec \<Rightarrow> u32 \<Rightarrow> timespec" where
  "timespec_trunc env t gran =
     (if gran \<le> tick_usecs env * 1000 then t
      else if gran = 1000000000 then t\<lparr>tv_nsec := 0\<rparr>
      else t\<lparr>tv_nsec := tv_nsec t - (tv_nsec t) smod (uint gran)\<rparr>)"

definition current_fs_time :: "attr_env \<Rightarrow> 'a inode_scheme \<Rightarrow> timespec" where
  "current_fs_time env ino = timespec_trunc env (kernel_time env) (s_time_gran ino)"

definition inode_change_ok :: "cred \<Rightarrow> 'a inode_scheme \<Rightarrow> iattr \<Rightarrow> unit result \<times> iattr" where
  "inode_change_ok c ino attr =
     (let valid = ia_valid attr in
      if valid AND ATTR_FORCE \<noteq> 0 then (Inr (), attr)
      else if valid AND ATTR_UID \<noteq> 0 \<and> (fsuid c \<noteq> i_uid ino \<or> ia_uid attr \<noteq> i_uid ino) \<and> \<not> capable c CAP_CHOWN
      then (Inl EPERM, attr)
      else if valid AND ATTR_GID \<noteq> 0 \<and>
              (fsuid c \<noteq> i_uid ino \<or> \<not> cur_in_group c (ia_gid attr) \<and> ia_gid attr \<noteq> i_gid ino) \<and>
              \<not> capable c CAP_CHOWN
      then (Inl EPERM, attr)
      else if valid AND ATTR_MODE \<noteq> 0 \<and> \<not> is_owner_or_cap c ino then (Inl EPERM, attr)
      else
        let attr = (if valid AND ATTR_MODE \<noteq> 0 \<and>
                       \<not> cur_in_group c (if valid AND ATTR_GID \<noteq> 0 then ia_gid attr else i_gid ino) \<and>
                       \<not> capable c CAP_FSETID
                    then attr\<lparr>ia_mode := ia_mode attr AND NOT S_ISGID\<rparr> else attr)
        in if valid AND (ATTR_MTIME_SET OR ATTR_ATIME_SET OR ATTR_TIMES_SET) \<noteq> 0 \<and> \<not> is_owner_or_cap c ino
           then (Inl EPERM, attr)
           else (Inr (), attr))"

text \<open>
  File offsets are signed (\<open>loff_t\<close>); the comparison with the limit is one of unsigned numbers.
\<close>

definition inode_newsize_ok :: "attr_env \<Rightarrow> 'a inode_scheme \<Rightarrow> u64 \<Rightarrow> unit result \<times> 'a inode_scheme" where
  "inode_newsize_ok env ino offset =
     (if sint (i_size ino) < sint offset then
        (if rlim_fsize env \<noteq> RLIM_INFINITY \<and> offset > rlim_fsize env then (Inl EFBIG, ino\<lparr>i_xfsz := True\<rparr>)
         else if sint offset > sint (s_maxbytes ino) then (Inl EFBIG, ino)
         else (Inr (), ino))
      else if IS_SWAPFILE ino then (Inl ETXTBSY, ino)
      else (Inr (), ino))"

definition vmtruncate :: "attr_env \<Rightarrow> 'a inode_scheme \<Rightarrow> u64 \<Rightarrow> unit result \<times> 'a inode_scheme" where
  "vmtruncate env ino0 offset =
     (case inode_newsize_ok env ino0 offset of
        (Inl e, ino) \<Rightarrow> (Inl e, ino)
      | (Inr _, ino) \<Rightarrow> (Inr (), ino\<lparr>i_size := offset\<rparr>))"

definition set_times :: "attr_env \<Rightarrow> iattr \<Rightarrow> 'a inode_scheme \<Rightarrow> 'a inode_scheme" where
  "set_times env attr ino =
     (let valid = ia_valid attr;
          trunc = (\<lambda>t. timespec_trunc env t (s_time_gran ino));
          ino = (if valid AND ATTR_ATIME \<noteq> 0 then ino\<lparr>i_atime := trunc (ia_atime attr)\<rparr> else ino);
          ino = (if valid AND ATTR_MTIME \<noteq> 0 then ino\<lparr>i_mtime := trunc (ia_mtime attr)\<rparr> else ino)
      in if valid AND ATTR_CTIME \<noteq> 0 then ino\<lparr>i_ctime := trunc (ia_ctime attr)\<rparr> else ino)"

definition setattr_fields :: "attr_env \<Rightarrow> cred \<Rightarrow> iattr \<Rightarrow> 'a inode_scheme \<Rightarrow> 'a inode_scheme" where
  "setattr_fields env c attr ino0 =
     (let valid = ia_valid attr;
          ino = (if valid AND ATTR_UID \<noteq> 0 then ino0\<lparr>i_uid := ia_uid attr\<rparr> else ino0);
          ino = (if valid AND ATTR_GID \<noteq> 0 then ino\<lparr>i_gid := ia_gid attr\<rparr> else ino);
          ino = set_times env attr ino
      in if valid AND ATTR_MODE \<noteq> 0 then
           ino\<lparr>i_mode := (if \<not> cur_in_group c (i_gid ino) \<and> \<not> capable c CAP_FSETID
                          then ia_mode attr AND NOT S_ISGID else ia_mode attr)\<rparr>
         else ino)"

definition inode_setattr :: "attr_env \<Rightarrow> cred \<Rightarrow> iattr \<Rightarrow> 'a inode_scheme \<Rightarrow> unit result \<times> 'a inode_scheme" where
  "inode_setattr env c attr ino0 =
     (case (if ia_valid attr AND ATTR_SIZE \<noteq> 0 \<and> ia_size attr \<noteq> i_size ino0
            then vmtruncate env ino0 (ia_size attr) else (Inr (), ino0)) of
        (Inl e, ino) \<Rightarrow> (Inl e, ino)
      | (Inr _, ino) \<Rightarrow> (Inr (), setattr_fields env c attr ino))"

text \<open>
  The operation \<open>setattr\<close> of a file system, on the credentials of the caller.
\<close>

type_synonym 'i setattr_op = "attr_env \<Rightarrow> cred \<Rightarrow> iattr \<Rightarrow> 'i \<Rightarrow> unit result \<times> 'i"

definition ids_change :: "iattr \<Rightarrow> 'a inode_scheme \<Rightarrow> bool" where
  "ids_change attr ino \<longleftrightarrow> ia_valid attr AND ATTR_UID \<noteq> 0 \<and> ia_uid attr \<noteq> i_uid ino \<or>
     ia_valid attr AND ATTR_GID \<noteq> 0 \<and> ia_gid attr \<noteq> i_gid ino"

definition default_setattr :: "'a inode_scheme setattr_op" where
  "default_setattr env c attr ino =
     (case inode_change_ok c ino attr of
        (Inl e, attr) \<Rightarrow> (Inl e, ino)
      | (Inr _, attr) \<Rightarrow>
          if ids_change attr ino \<and> dq_transfer_fails env then (Inl EDQUOT, ino)
          else inode_setattr env c attr ino)"

text \<open>
  The operation of \<^verbatim>\<open>/proc\<close>, which keeps owner and mode also in the entry that the inode stands for
  (\<open>struct proc_dir_entry\<close>).
\<close>

record proc_inode = inode +
  de_uid :: u32
  de_gid :: u32
  de_mode :: mode_t


text \<open>The times, and the mode that results from the flags \<open>ATTR_KILL_SUID\<close> and \<open>ATTR_KILL_SGID\<close>.\<close>

definition attr_times :: "timespec \<Rightarrow> iattr \<Rightarrow> iattr" where
  "attr_times now attr =
     (let valid = ia_valid attr;
          attr = attr\<lparr>ia_ctime := now\<rparr>;
          attr = (if valid AND ATTR_ATIME_SET = 0 then attr\<lparr>ia_atime := now\<rparr> else attr)
      in if valid AND ATTR_MTIME_SET = 0 then attr\<lparr>ia_mtime := now\<rparr> else attr)"

definition attr_kill :: "u16 \<Rightarrow> iattr \<Rightarrow> iattr" where
  "attr_kill mode attr =
     (let attr = (if ia_valid attr AND ATTR_KILL_SUID \<noteq> 0 \<and> mode AND S_ISUID \<noteq> 0
                  then attr\<lparr>ia_valid := ia_valid attr OR ATTR_MODE, ia_mode := mode AND NOT S_ISUID\<rparr> else attr)
      in if ia_valid attr AND ATTR_KILL_SGID \<noteq> 0 \<and> mode AND (S_ISGID OR S_IXGRP) = S_ISGID OR S_IXGRP
         then (let attr = (if ia_valid attr AND ATTR_MODE = 0
                           then attr\<lparr>ia_valid := ia_valid attr OR ATTR_MODE, ia_mode := mode\<rparr> else attr)
               in attr\<lparr>ia_mode := ia_mode attr AND NOT S_ISGID\<rparr>)
         else attr)"

definition notify_change ::
  "'a inode_scheme setattr_op option \<Rightarrow> attr_env \<Rightarrow> cred \<Rightarrow> iattr \<Rightarrow> 'a inode_scheme \<Rightarrow>
   (unit result \<times> 'a inode_scheme) option" where
  "notify_change op_setattr env c attr0 ino =
     (if ia_valid attr0 AND (ATTR_MODE OR ATTR_UID OR ATTR_GID OR ATTR_TIMES_SET) \<noteq> 0 \<and>
         (IS_IMMUTABLE ino \<or> IS_APPEND ino) then Some (Inl EPERM, ino)
      else
        let attr = attr_times (current_fs_time env ino) attr0;
            killing = ia_valid attr AND ATTR_KILL_PRIV \<noteq> 0;
            attr = (if killing then attr\<lparr>ia_valid := ia_valid attr AND NOT ATTR_KILL_PRIV\<rparr> else attr);
            killed = (if killing then
                        (case need_killpriv env of
                           Inl e \<Rightarrow> Inl e
                         | Inr need \<Rightarrow> if need then killpriv env else Inr ())
                      else Inr ())
        in case killed of
             Inl e \<Rightarrow> Some (Inl e, ino)
           | Inr _ \<Rightarrow>
               if ia_valid attr AND (ATTR_KILL_SUID OR ATTR_KILL_SGID) \<noteq> 0 \<and> ia_valid attr AND ATTR_MODE \<noteq> 0
               then None
               else
                 let attr = attr_kill (i_mode ino) attr in
                 if ia_valid attr AND NOT (ATTR_KILL_SUID OR ATTR_KILL_SGID) = 0 then Some (Inr (), ino)
                 else case security_inode_setattr env attr of
                        Inl e \<Rightarrow> Some (Inl e, ino)
                      | Inr _ \<Rightarrow>
                          Some (case op_setattr of
                                  Some setattr \<Rightarrow> setattr env c attr ino
                                | None \<Rightarrow> default_setattr env c attr ino))"

section \<open>Calls that change attributes\<close>

text \<open>
  \<open>file\<close> is the inode of the open file, \<open>want_write\<close> the answer of \<open>mnt_want_write_file\<close>. The attributes
  that a call does not set are those of an uninitialised structure, \<open>junk\<close>.
\<close>

definition sys_fchmod ::
  "'a inode_scheme setattr_op option \<Rightarrow> attr_env \<Rightarrow> cred \<Rightarrow> iattr \<Rightarrow> unit result \<Rightarrow> 'a inode_scheme option \<Rightarrow>
   mode_t \<Rightarrow> (unit result \<times> 'a inode_scheme option) option" where
  "sys_fchmod op_setattr env c junk want_write file mode0 =
     (case file of
        None \<Rightarrow> Some (Inl EBADF, None)
      | Some ino \<Rightarrow>
          (case want_write of
             Inl e \<Rightarrow> Some (Inl e, Some ino)
           | Inr _ \<Rightarrow>
               let mode = (if mode0 = - 1 then ucast (i_mode ino) else mode0);
                   attr = junk\<lparr>ia_mode := ucast ((mode AND S_IALLUGO) OR (ucast (i_mode ino) AND NOT S_IALLUGO)),
                               ia_valid := ATTR_MODE OR ATTR_CTIME\<rparr>
               in map_option (apsnd Some) (notify_change op_setattr env c attr ino)))"

definition chown_common ::
  "'a inode_scheme setattr_op option \<Rightarrow> attr_env \<Rightarrow> cred \<Rightarrow> iattr \<Rightarrow> 'a inode_scheme \<Rightarrow> u32 \<Rightarrow> u32 \<Rightarrow>
   (unit result \<times> 'a inode_scheme) option" where
  "chown_common op_setattr env c junk ino user grp =
     (let attr = junk\<lparr>ia_valid := ATTR_CTIME\<rparr>;
          attr = (if user \<noteq> - 1 then attr\<lparr>ia_valid := ia_valid attr OR ATTR_UID, ia_uid := user\<rparr> else attr);
          attr = (if grp \<noteq> - 1 then attr\<lparr>ia_valid := ia_valid attr OR ATTR_GID, ia_gid := grp\<rparr> else attr);
          attr = (if \<not> S_ISDIR (i_mode ino)
                  then attr\<lparr>ia_valid := ia_valid attr OR (ATTR_KILL_SUID OR ATTR_KILL_SGID OR ATTR_KILL_PRIV)\<rparr>
                  else attr)
      in notify_change op_setattr env c attr ino)"




section \<open>Access by mode and by list\<close>

text \<open>
  The list that represents a mode, and what it means that a stored list agrees with the mode.
\<close>

definition mode_acl :: "u16 \<Rightarrow> posix_acl" where
  "mode_acl mode = (case posix_acl_from_mode True (ucast mode) of Inr acl \<Rightarrow> acl | Inl _ \<Rightarrow> [])"

definition acl_agrees :: "posix_acl \<Rightarrow> u16 \<Rightarrow> bool" where
  "acl_agrees acl mode \<longleftrightarrow> posix_acl_valid acl = Inr () \<and>
     (\<exists>ne. posix_acl_equiv_mode acl (ucast mode) = Inr (ucast mode, ne))"

text \<open>
  The list that decides about the access to an inode. \<open>stored\<close> is what the file system finds: an error, no
  list, or a list. A stored list decides about everyone, the owner included, if the file system has
  lists and the group class of the mode is not empty; otherwise the mode decides. If the list cannot be
  read, the mode still decides about the owner; all others get the error.
\<close>

definition deciding_acl :: "posix_acl option result \<Rightarrow> cred \<Rightarrow> 'a inode_scheme \<Rightarrow> posix_acl result" where
  "deciding_acl stored c ino =
     (if \<not> IS_POSIXACL ino \<or> ucast (i_mode ino) AND S_IRWXG = 0 then Inr (mode_acl (i_mode ino))
      else
        case stored of
          Inr (Some acl) \<Rightarrow> Inr acl
        | Inr None \<Rightarrow> Inr (mode_acl (i_mode ino))
        | Inl e \<Rightarrow> if fsuid c = i_uid ino then Inr (mode_acl (i_mode ino)) else Inl e)"

text \<open>What \<open>check_acl\<close> answers: the error, \<open>EAGAIN\<close> if there is no list, or the answer of the list.\<close>

definition check_answer :: "posix_acl option result \<Rightarrow> cred \<Rightarrow> 'a inode_scheme \<Rightarrow> u32 \<Rightarrow> unit result" where
  "check_answer stored c ino want =
     (case stored of
        Inl e \<Rightarrow> Inl e
      | Inr None \<Rightarrow> Inl EAGAIN
      | Inr (Some acl) \<Rightarrow> posix_acl_permission c (i_uid ino) (i_gid ino) acl want)"

lemma may_mask: "may AND (MAY_READ OR MAY_WRITE OR MAY_EXEC) = may AND Bit_Operations.mask 3"
  by (simp add: mode_consts mask_eq_exp_minus_1)

lemma class_mode_bits:
  assumes "n < 3"
  shows "bit (class_mode u k w) (6 + n) = bit (e_perm u) n" "bit (class_mode u k w) (3 + n) = bit (e_perm k) n"
    "bit (class_mode u k w) n = bit (e_perm w) n"
  using assms by (auto simp: class_mode_def mode_of_def mode_masks bit_simps)

lemma agrees_bits:
  fixes mode :: u16
  assumes "acl_form u us g gs ms w" and "acl_agrees (u # us @ g # gs @ ms @ [w]) mode" and "n < 3"
  shows "bit mode (6 + n) = bit (e_perm u) n" "bit mode (3 + n) = bit (e_perm (class_group g ms)) n"
    "bit mode n = bit (e_perm w) n"
proof -
  let ?m = "ucast mode :: u32"
  have "?m = (?m AND NOT S_IRWXUGO) OR class_mode u (class_group g ms) w"
    using assms(2) by (simp add: acl_agrees_def equiv_mode_form [OF assms(1)])
  then have "bit ?m k = bit (class_mode u (class_group g ms) w) k" if "k < 9" for k
    using that by (metis bit_or_iff bit_and_iff bit_not_iff mode_masks(4) bit_mask_iff)
  moreover have "bit ?m k = bit mode k" if "k < 9" for k using that by (simp add: bit_simps)
  ultimately have "bit mode k = bit (class_mode u (class_group g ms) w) k" if "k < 9" for k using that by blast
  from this [of "6 + n"] this [of "3 + n"] this [of n] show "bit mode (6 + n) = bit (e_perm u) n"
    "bit mode (3 + n) = bit (e_perm (class_group g ms)) n" "bit mode n = bit (e_perm w) n"
    using assms(3) class_mode_bits [OF assms(3)] by simp_all
qed

lemma mode_grants_entry:
  assumes "\<And>n. n < 3 \<Longrightarrow> bit mode n = bit (e_perm e) n"
  shows "mode_grants (may AND Bit_Operations.mask 3) mode =
    (if entry_allows (may AND Bit_Operations.mask 3) e then Inr () else Inl EACCES)"
proof -
  have "(may AND Bit_Operations.mask 3) AND NOT (ucast mode) = 0 \<longleftrightarrow>
      (\<forall>n < 3. bit may n \<longrightarrow> bit mode n)" for may :: u32
    by (auto simp: bit_eq_iff bit_simps)
  moreover have "entry_allows (may AND Bit_Operations.mask 3) e \<longleftrightarrow> (\<forall>n < 3. bit may n \<longrightarrow> bit (e_perm e) n)"
  proof (intro iffI allI impI)
    fix n :: nat
    assume "entry_allows (may AND Bit_Operations.mask 3) e" "n < 3" "bit may n"
    then have "bit (ucast (e_perm e) AND (may AND Bit_Operations.mask 3)) n" by (simp add: entry_allows_def bit_simps)
    then show "bit (e_perm e) n" by (simp add: bit_simps)
  next
    assume "\<forall>n < 3. bit may n \<longrightarrow> bit (e_perm e) n"
    then show "entry_allows (may AND Bit_Operations.mask 3) e"
      unfolding entry_allows_def by (intro bit_word_eqI) (auto simp: bit_simps)
  qed
  ultimately show ?thesis using assms by (simp add: mode_grants_def)
qed

lemma from_mode_agrees:
  obtains u g w where "posix_acl_from_mode True (ucast mode) = Inr [u, g, w]" and "acl_form u [] g [] [] w"
    and "acl_agrees [u, g, w] (mode :: u16)"
proof -
  obtain u g w where acl: "posix_acl_from_mode True (ucast mode) = Inr [u, g, w]"
    by (simp add: posix_acl_from_mode_def)
  note form = acl_form_from_mode [OF acl]
  have "acl_grammar [u, g, w]" by (rule from_mode_class(1) [OF acl])
  moreover have "class_mode u g w = ucast mode AND S_IRWXUGO" by (rule from_mode_class(2) [OF acl])
  then have "posix_acl_equiv_mode [u, g, w] (ucast mode) = Inr (ucast mode, False)"
    using equiv_mode_form [OF form, of "ucast mode"]
    by (simp add: class_group_def flip: bit.conj_disj_distrib)
  ultimately have "acl_agrees [u, g, w] mode" unfolding acl_agrees_def by (blast intro: grammar_valid)
  then show ?thesis using that acl form by blast
qed

lemma owner_check:
  assumes "acl_form u us g gs ms w" and "acl_agrees (u # us @ g # gs @ ms @ [w]) (i_mode ino)" and "fsuid c = i_uid ino"
  shows "fst (acl_permission_check c check ino may) =
    posix_acl_permission c (i_uid ino) (i_gid ino) (u # us @ g # gs @ ms @ [w]) (may AND Bit_Operations.mask 3)"
proof -
  have "bit (drop_bit 6 (i_mode ino)) n = bit (e_perm u) n" if "n < 3" for n
    using agrees_bits(1) [OF assms(1,2) that] by (simp add: bit_simps)
  from mode_grants_entry [of "drop_bit 6 (i_mode ino)" u, OF this] show ?thesis
    using assms(3) by (simp add: acl_permission_check_def may_mask Let_def permission_form [OF assms(1)] acl_grants_def)
qed

lemma group_other_check:
  assumes "acl_form u [] g [] [] w" and "acl_agrees [u, g, w] mode" and "iu \<noteq> fsuid c"
  shows "mode_grants (may AND Bit_Operations.mask 3) (if cur_in_group c ig then drop_bit 3 mode else mode) =
    posix_acl_permission c iu ig [u, g, w] (may AND Bit_Operations.mask 3)"
proof -
  note bits = agrees_bits [of u "[]" g "[]" "[]" w mode, simplified, OF assms(1,2)]
  have "bit (drop_bit 3 mode) n = bit (e_perm g) n" if "n < 3" for n
    using bits(2) [OF that] by (simp add: bit_simps class_group_def)
  note g = mode_grants_entry [of "drop_bit 3 mode" g, OF this] and w = mode_grants_entry [of mode w, OF bits(3)]
  show ?thesis
    using permission_form [OF assms(1), of c iu ig] assms(3) g w by (simp add: acl_grants_def)
qed

lemma permission_cases:
  assumes "posix_acl_valid acl = Inr ()"
  shows "posix_acl_permission c iu ig acl want = Inr () \<or> posix_acl_permission c iu ig acl want = Inl EACCES"
  using valid_grammar [OF assms] permission_form unfolding acl_grammar_def by metis

lemma check_fst:
  assumes "i_gid (snd (check ino (may AND Bit_Operations.mask 3))) = i_gid ino"
  shows "fst (acl_permission_check c (Some check) ino may) =
    (let want = may AND Bit_Operations.mask 3; error = fst (check ino want)
     in if fsuid c = i_uid ino then mode_grants want (drop_bit 6 (i_mode ino))
        else if IS_POSIXACL ino \<and> ucast (i_mode ino) AND S_IRWXG \<noteq> 0 \<and> error \<noteq> Inl EAGAIN then error
        else mode_grants want (if cur_in_group c (i_gid ino) then drop_bit 3 (i_mode ino) else i_mode ino))"
  using assms
  by (cases "check ino (may AND Bit_Operations.mask 3)") (simp add: acl_permission_check_def may_mask Let_def)

lemma mode_decides:
  assumes "\<And>want. i_gid (snd (check ino want)) = i_gid ino"
    and "fsuid c = i_uid ino \<or> \<not> IS_POSIXACL ino \<or> ucast (i_mode ino) AND S_IRWXG = 0 \<or>
      (\<forall>want. fst (check ino want) = Inl EAGAIN)"
  shows "fst (acl_permission_check c (Some check) ino may) =
    posix_acl_permission c (i_uid ino) (i_gid ino) (mode_acl (i_mode ino)) (may AND Bit_Operations.mask 3)"
proof -
  obtain u g w where fm: "posix_acl_from_mode True (ucast (i_mode ino)) = Inr [u, g, w]"
    and form: "acl_form u [] g [] [] w" and agrees: "acl_agrees [u, g, w] (i_mode ino)" by (rule from_mode_agrees)
  show ?thesis
  proof (cases "fsuid c = i_uid ino")
    case True
    with owner_check [of u "[]" g "[]" "[]" w ino c "Some check" may] form agrees fm show ?thesis
      by (simp add: mode_acl_def)
  next
    case False
    then show ?thesis
      using assms(2) group_other_check [OF form agrees, of "i_uid ino" c may "i_gid ino"] fm
      by (auto simp: check_fst [of check, OF assms(1)] Let_def mode_acl_def)
  qed
qed

lemma list_decides:
  assumes agrees: "acl_agrees acl (i_mode ino)" and "IS_POSIXACL ino" and "ucast (i_mode ino) AND S_IRWXG \<noteq> 0"
    and check: "\<And>want. fst (check ino want) = posix_acl_permission c (i_uid ino) (i_gid ino) acl want"
    and same: "\<And>want. i_gid (snd (check ino want)) = i_gid ino"
  shows "fst (acl_permission_check c (Some check) ino may) =
    posix_acl_permission c (i_uid ino) (i_gid ino) acl (may AND Bit_Operations.mask 3)"
proof -
  obtain u us g gs ms w where acl: "acl = u # us @ g # gs @ ms @ [w]" and form: "acl_form u us g gs ms w"
    using valid_grammar [of acl] agrees unfolding acl_agrees_def acl_grammar_def by blast
  show ?thesis
  proof (cases "fsuid c = i_uid ino")
    case True
    then show ?thesis using owner_check [OF form, of ino c "Some check" may] agrees by (simp add: acl)
  next
    case False
    have "fst (check ino want) \<noteq> Inl EAGAIN" for want
      using permission_cases [of acl c "i_uid ino" "i_gid ino" want] agrees check [of want]
      by (auto simp: acl_agrees_def)
    with False show ?thesis
      using check assms(2,3) by (simp add: check_fst [of check, OF same] Let_def)
  qed
qed

lemma check_follows_acl:
  assumes ok: "\<And>acl. stored = Inr (Some acl) \<Longrightarrow> acl_agrees acl (i_mode ino)" "stored \<noteq> Inl EAGAIN"
    and check: "\<And>want. fst (check ino want) = check_answer stored c ino want"
    and same: "\<And>want. i_gid (snd (check ino want)) = i_gid ino"
  shows "fst (acl_permission_check c (Some check) ino may) =
    (case deciding_acl stored c ino of
       Inl e \<Rightarrow> Inl e
     | Inr acl \<Rightarrow> posix_acl_permission c (i_uid ino) (i_gid ino) acl (may AND Bit_Operations.mask 3))"
proof (cases "IS_POSIXACL ino \<and> ucast (i_mode ino) AND S_IRWXG \<noteq> 0")
  case False
  then show ?thesis using mode_decides [of check ino c, OF same] by (simp add: deciding_acl_def)
next
  case True
  consider e where "stored = Inl e" | "stored = Inr None" | acl where "stored = Inr (Some acl)"
    by (metis sum.exhaust option.exhaust)
  then show ?thesis
  proof cases
    case 1
    then show ?thesis
      using True ok(2) mode_decides [of check ino c, OF same] check
      by (cases "fsuid c = i_uid ino")
         (simp_all add: deciding_acl_def check_answer_def check_fst [of check, OF same] Let_def)
  next
    case 2
    then show ?thesis
      using True mode_decides [of check ino c, OF same] check by (simp add: deciding_acl_def check_answer_def)
  next
    case (3 acl)
    then show ?thesis
      using True list_decides [of acl ino check c, OF ok(1) _ _ _ same] check by (simp add: deciding_acl_def check_answer_def)
  qed
qed

text \<open>The accesses that capabilities allow in spite of the mode and the list.\<close>

definition dac_override :: "cred \<Rightarrow> u16 \<Rightarrow> u32 \<Rightarrow> bool" where
  "dac_override c mode may \<longleftrightarrow>
     capable c CAP_DAC_OVERRIDE \<and> (may AND MAY_EXEC = 0 \<or> mode AND S_IXUGO \<noteq> 0 \<or> S_ISDIR mode) \<or>
     capable c CAP_DAC_READ_SEARCH \<and>
       (may AND Bit_Operations.mask 3 = MAY_READ \<or> S_ISDIR mode \<and> may AND MAY_WRITE = 0)"

lemma generic_permission_fst:
  assumes "fst (acl_permission_check c check ino may) = r"
    and "i_mode (snd (acl_permission_check c check ino may)) = i_mode ino"
  shows "fst (generic_permission c check ino may) =
    (if r = Inl EACCES \<and> dac_override c (i_mode ino) may then Inr () else r)"
proof -
  have "(may AND Bit_Operations.mask 3) AND MAY_WRITE = may AND MAY_WRITE"
    by (rule bit_word_eqI) (auto simp: mode_consts bit_simps)
  then show ?thesis using assms
    by (cases "acl_permission_check c check ino may")
       (auto simp: generic_permission_def dac_override_def execute_ok_def may_mask Let_def)
qed

lemma deciding_valid:
  assumes "\<And>acl. stored = Inr (Some acl) \<Longrightarrow> acl_agrees acl (i_mode ino)" and "deciding_acl stored c ino = Inr acl"
  shows "posix_acl_valid acl = Inr ()"
proof -
  have "posix_acl_valid (mode_acl (i_mode ino)) = Inr ()"
    by (rule from_mode_agrees [of "i_mode ino"]) (simp add: mode_acl_def acl_agrees_def)
  then show ?thesis
    using assms by (auto simp: deciding_acl_def acl_agrees_def split: if_splits sum.splits option.splits)
qed

lemma check_snd:
  assumes "\<And>want. i_mode (snd (check ino want)) = i_mode ino"
  shows "i_mode (snd (acl_permission_check c (Some check) ino may)) = i_mode ino"
  using assms [of "may AND Bit_Operations.mask 3"]
  by (cases "check ino (may AND Bit_Operations.mask 3)") (simp add: acl_permission_check_def may_mask Let_def)

text \<open>C34.
  With a file system whose \<open>check_acl\<close> consults the stored list (answers \<open>EAGAIN\<close> if there is
  none, and the error if the list cannot be read), and whose stored lists are valid and agree with the mode,
  \<open>generic_permission\<close> grants an access exactly if the list that decides about the inode
  does, or a capability overrides its refusal. The deciding list is the stored one, for the owner as well, although the code
  looks at the mode bits there; without a stored list, or if the group class of the mode is empty, it is the list of
  the mode. If the stored list cannot be read, all but the owner get the error.
\<close>

theorem generic_permission_follows_acl:
  assumes "\<And>acl. stored = Inr (Some acl) \<Longrightarrow> acl_agrees acl (i_mode ino)" and "stored \<noteq> Inl EAGAIN"
    and "\<And>want. fst (check ino want) = check_answer stored c ino want"
    and "\<And>want. i_gid (snd (check ino want)) = i_gid ino \<and> i_mode (snd (check ino want)) = i_mode ino"
  shows "fst (generic_permission c (Some check) ino may) =
    (case deciding_acl stored c ino of
       Inl e \<Rightarrow> if e = EACCES \<and> dac_override c (i_mode ino) may then Inr () else Inl e
     | Inr acl \<Rightarrow>
         if posix_acl_permission c (i_uid ino) (i_gid ino) acl (may AND (MAY_READ OR MAY_WRITE OR MAY_EXEC)) = Inr () \<or>
            dac_override c (i_mode ino) may
         then Inr () else Inl EACCES)"
proof -
  have gid: "i_gid (snd (check ino want)) = i_gid ino" and mode: "i_mode (snd (check ino want)) = i_mode ino" for want
    using assms(4) by auto
  note result = generic_permission_fst [OF check_follows_acl [of stored ino check c may, OF assms(1,2,3) gid] check_snd [of check ino, OF mode]]
  show ?thesis
  proof (cases "deciding_acl stored c ino")
    case (Inl e)
    then show ?thesis by (simp add: result)
  next
    case (Inr acl)
    have "posix_acl_valid acl = Inr ()" by (rule deciding_valid [OF assms(1) Inr])
    from permission_cases [OF this] show ?thesis unfolding may_mask by (auto simp: result Inr)
  qed
qed

definition example_inode :: "u16 \<Rightarrow> inode" where
  "example_inode mode =
     \<lparr>i_mode = mode, i_uid = 0, i_gid = 0, i_rdev = 0, i_flags = 0, i_size = 0, i_atime = \<lparr>tv_sec = 0, tv_nsec = 0\<rparr>,
      i_mtime = \<lparr>tv_sec = 0, tv_nsec = 0\<rparr>, i_ctime = \<lparr>tv_sec = 0, tv_nsec = 0\<rparr>, s_flags = MS_POSIXACL,
      s_maxbytes = 0x7FFFFFFF, s_time_gran = 1, i_xfsz = False\<rparr>"

definition example_check :: "posix_acl \<Rightarrow> cred \<Rightarrow> inode \<Rightarrow> u32 \<Rightarrow> unit result \<times> inode" where
  "example_check acl c ino want = (posix_acl_permission c (i_uid ino) (i_gid ino) acl want, ino)"

definition unreadable_check :: "inode \<Rightarrow> u32 \<Rightarrow> unit result \<times> inode" where
  "unreadable_check ino want = (Inl EIO, ino)"

theorem generic_permission_follows_acl_witness:
  "fst (generic_permission daemon_cred (Some (example_check example_acl daemon_cred)) (example_inode 0x81A0) MAY_READ) = Inr () \<and>
   fst (generic_permission daemon_cred (Some (example_check example_acl daemon_cred)) (example_inode 0x81A0) MAY_WRITE) =
     Inl EACCES \<and>
   fst (generic_permission daemon_cred (Some unreadable_check) (example_inode 0x81A0) MAY_READ) = Inl EIO"
proof -
  let ?ino = "example_inode 0x81A0" and ?check = "example_check example_acl daemon_cred"
  have "posix_acl_equiv_mode example_acl 0x81A0 = Inr (0x81A0, True)"
    by (simp add: posix_acl_equiv_mode_def example_acl_def) (simp add: acl_consts)
  then have ok: "acl_agrees acl (i_mode ?ino)" if "Inr (Some example_acl) = Inr (Some acl)" for acl
    using that by (auto simp: acl_agrees_def example_acl_valid example_inode_def acl_consts)
  have dec: "deciding_acl (Inr (Some example_acl)) daemon_cred ?ino = Inr example_acl"
    "deciding_acl (Inl EIO) daemon_cred ?ino = Inl EIO"
    by (simp_all add: deciding_acl_def IS_POSIXACL_def example_inode_def mode_consts S_IRWXG_def daemon_cred_def user_cred_def)
  have perm: "posix_acl_permission daemon_cred 0 0 example_acl 4 = Inr ()"
    "posix_acl_permission daemon_cred 0 0 example_acl 2 = Inl EACCES"
    by (simp_all add: posix_acl_permission_def example_acl_def acl_check_perm_def)
       (simp_all add: daemon_cred_def user_cred_def)
  have caps: "\<not> dac_override daemon_cred 0x81A0 MAY_WRITE"
    by (simp add: dac_override_def mode_consts S_ISDIR_def capable_def cap_capable_def daemon_cred_def user_cred_def
        CAP_EMPTY_SET_def cap_raised_bit)
  have check: "fst (?check ?ino want) = check_answer (Inr (Some example_acl)) daemon_cred ?ino want"
    "fst (unreadable_check ?ino want) = check_answer (Inl EIO) daemon_cred ?ino want" for want
    by (simp_all add: example_check_def unreadable_check_def check_answer_def)
  have same: "i_gid (snd (?check ?ino want)) = i_gid ?ino \<and> i_mode (snd (?check ?ino want)) = i_mode ?ino"
    "i_gid (snd (unreadable_check ?ino want)) = i_gid ?ino \<and> i_mode (snd (unreadable_check ?ino want)) = i_mode ?ino" for want
    by (simp_all add: example_check_def unreadable_check_def)
  have "fst (generic_permission daemon_cred (Some ?check) ?ino may) =
      (if posix_acl_permission daemon_cred 0 0 example_acl (may AND (MAY_READ OR MAY_WRITE OR MAY_EXEC)) = Inr () \<or>
         dac_override daemon_cred 0x81A0 may then Inr () else Inl EACCES)" for may
    using generic_permission_follows_acl [of "Inr (Some example_acl)" ?ino ?check daemon_cred may, OF ok _ check(1) same(1)] unfolding dec by (simp add: example_inode_def)
  from this [of MAY_READ] this [of MAY_WRITE] perm caps
    generic_permission_follows_acl [of "Inl EIO" ?ino unreadable_check daemon_cred MAY_READ, OF _ _ check(2) same(2), unfolded dec]
  show ?thesis by (simp add: mode_consts)
qed

text \<open>
  Without permissions in the group class the list is not consulted: a named user whom the list
  denies the access is treated like others, who may have more rights.
\<close>

definition masked_acl :: posix_acl where
  "masked_acl =
     [\<lparr>e_tag = ACL_USER_OBJ, e_perm = 6, e_id = ACL_UNDEFINED_ID\<rparr>, \<lparr>e_tag = ACL_USER, e_perm = 6, e_id = 5\<rparr>,
      \<lparr>e_tag = ACL_GROUP_OBJ, e_perm = 0, e_id = ACL_UNDEFINED_ID\<rparr>, \<lparr>e_tag = ACL_MASK, e_perm = 0, e_id = ACL_UNDEFINED_ID\<rparr>,
      \<lparr>e_tag = ACL_OTHER, e_perm = 4, e_id = ACL_UNDEFINED_ID\<rparr>]"

definition visitor_cred :: cred where
  "visitor_cred = daemon_cred\<lparr>fsgid := 5, cr_group_info := small_groups\<lparr>ngroups := 0\<rparr>\<rparr>"

lemma empty_mask_bypasses_acl:
  "acl_agrees masked_acl 0x8184"
  "posix_acl_permission visitor_cred 0 0 masked_acl MAY_READ = Inl EACCES"
  "fst (acl_permission_check visitor_cred (Some (example_check masked_acl visitor_cred)) (example_inode 0x8184) MAY_READ) = Inr ()"
proof -
  show "acl_agrees masked_acl 0x8184"
    by (simp add: acl_agrees_def posix_acl_valid_def posix_acl_equiv_mode_def masked_acl_def) (auto simp: acl_consts)
  show "posix_acl_permission visitor_cred 0 0 masked_acl MAY_READ = Inl EACCES"
    by (simp add: posix_acl_permission_def masked_acl_def acl_check_perm_def mode_consts)
       (simp add: visitor_cred_def daemon_cred_def user_cred_def)
  have "\<not> cur_in_group visitor_cred 0"
    by (simp add: cur_in_group_def in_group_p_def groups_search_def small_groups_def search_loop.simps visitor_cred_def daemon_cred_def user_cred_def)
  then show "fst (acl_permission_check visitor_cred (Some (example_check masked_acl visitor_cred)) (example_inode 0x8184) MAY_READ) = Inr ()"
    by (simp add: acl_permission_check_def example_inode_def Let_def mode_consts mode_grants_def S_IRWXG_def
        visitor_cred_def daemon_cred_def user_cred_def)
qed

section \<open>Directories\<close>

lemma exec_override_dir:
  "S_ISDIR mode \<Longrightarrow> dac_override c mode MAY_EXEC \<longleftrightarrow> capable c CAP_DAC_OVERRIDE \<or> capable c CAP_DAC_READ_SEARCH"
  by (auto simp: dac_override_def mode_consts)

lemma mode_grants_cases: "mode_grants want mode = Inr () \<or> mode_grants want mode = Inl EACCES"
  by (simp add: mode_grants_def)











text \<open>
  The rules that the comment in front of \<open>may_delete\<close> lists, for an inode without a
  \<open>permission\<close> operation.
\<close>

lemma may_delete_rules:
  assumes "may_delete ops c dir victim isdir = Some (Inr (), dir')" and "op_permission ops = None"
  shows "\<exists>v. d_inode victim = Some v \<and> \<not> IS_IMMUTABLE dir \<and> (S_ISDIR (i_mode dir) \<longrightarrow> \<not> IS_RDONLY dir) \<and>
    generic_permission c (op_check_acl ops) dir (MAY_WRITE OR MAY_EXEC) = (Inr (), dir') \<and> \<not> IS_APPEND dir' \<and>
    (i_mode dir' AND S_ISVTX \<noteq> 0 \<longrightarrow> fsuid c \<in> {i_uid v, i_uid dir'} \<or> capable c CAP_FOWNER) \<and>
    \<not> IS_APPEND v \<and> \<not> IS_IMMUTABLE v \<and> (isdir \<longleftrightarrow> S_ISDIR (i_mode v))"
proof -
  have "(MAY_WRITE OR MAY_EXEC) AND MAY_WRITE \<noteq> 0" by (simp add: mode_consts)
  with assms show ?thesis
    by (auto simp: may_delete_def inode_permission_def check_sticky_def split: option.splits prod.splits sum.splits if_splits)
qed

section \<open>Who may change what\<close>



definition drop_sgid :: "cred \<Rightarrow> u32 \<Rightarrow> u16 \<Rightarrow> u16" where
  "drop_sgid c grp mode = (if \<not> cur_in_group c grp \<and> \<not> capable c CAP_FSETID then mode AND NOT S_ISGID else mode)"

lemma set_times_attrs:
  "i_mode (set_times env attr ino) = i_mode ino" "i_uid (set_times env attr ino) = i_uid ino"
  "i_gid (set_times env attr ino) = i_gid ino"
  by (simp_all add: set_times_def Let_def)



lemma setattr_fields_attrs:
  "i_uid (setattr_fields env c attr ino) = (if ia_valid attr AND ATTR_UID \<noteq> 0 then ia_uid attr else i_uid ino)"
  "i_gid (setattr_fields env c attr ino) = (if ia_valid attr AND ATTR_GID \<noteq> 0 then ia_gid attr else i_gid ino)"
  "i_mode (setattr_fields env c attr ino) = (if ia_valid attr AND ATTR_MODE \<noteq> 0
     then drop_sgid c (i_gid (setattr_fields env c attr ino)) (ia_mode attr) else i_mode ino)"
  by (simp_all add: setattr_fields_def Let_def set_times_attrs drop_sgid_def)






























text \<open>
  A file system without \<open>setattr\<close> gets the default. The contract for whatever a file system provides, on one
  inode: it does not hold for file systems that send the change to a server, which
  may ignore the mode (\<open>nfs_setattr\<close>).
\<close>

definition setattr_of :: "'a inode_scheme setattr_op option \<Rightarrow> 'a inode_scheme setattr_op" where
  "setattr_of op = (case op of Some setattr \<Rightarrow> setattr | None \<Rightarrow> default_setattr)"









definition example_env :: attr_env where
  "example_env = \<lparr>rlim_fsize = RLIM_INFINITY, tick_usecs = 4000, kernel_time = \<lparr>tv_sec = 1, tv_nsec = 0\<rparr>,
     need_killpriv = Inr False, killpriv = Inr (), security_inode_setattr = \<lambda>_. Inr (), dq_transfer_fails = False\<rparr>"

definition setuid_file :: "u32 \<Rightarrow> inode" where
  "setuid_file flags = (example_inode 0x89E9)\<lparr>i_uid := 5, i_flags := flags\<rparr>"

definition setuid_proc_file :: proc_inode where
  "setuid_proc_file = inode.extend (setuid_file 0) \<lparr>de_uid = 5, de_gid = 0, de_mode = 0x89E9\<rparr>"

lemma setuid_file_attrs:
  "i_mode (setuid_file flags) = 0x89E9" "i_uid (setuid_file flags) = 5" "i_gid (setuid_file flags) = 0"
  "i_mode setuid_proc_file = 0x89E9" "i_uid setuid_proc_file = 5" "i_gid setuid_proc_file = 0"
  by (simp_all add: setuid_file_def setuid_proc_file_def example_inode_def inode.defs)

lemma chown_setuid:
  assumes ino: "i_mode ino = 0x89E9" "i_uid ino = 5" "i_gid ino = 0"
  obtains a where "chown_common op example_env daemon_cred junk ino (- 1) (- 1) = Some (setattr_of op example_env daemon_cred a ino)"
    and "inode_change_ok daemon_cred ino a = (Inr (), a)" and "ia_valid a = 0x1841" and "ia_mode a = 0x81E9"
proof -
  let ?t = "current_fs_time example_env ino"
  let ?a = "junk\<lparr>ia_atime := ?t, ia_mtime := ?t, ia_ctime := ?t, ia_valid := 0x1841, ia_mode := 0x81E9\<rparr>"
  have "attr_times ?t (junk\<lparr>ia_valid := 0x5840\<rparr>) = junk\<lparr>ia_valid := 0x5840, ia_atime := ?t, ia_mtime := ?t, ia_ctime := ?t\<rparr>"
    by (simp add: attr_times_def mode_consts)
  moreover have "ia_valid j = 0x1840 \<Longrightarrow> attr_kill 0x89E9 j = j\<lparr>ia_valid := 0x1841, ia_mode := 0x81E9\<rparr>" for j
    by (simp add: attr_kill_def mode_consts S_ISUID_def S_ISGID_def S_IXGRP_def)
  moreover have "chown_common op example_env daemon_cred junk ino (- 1) (- 1) =
      notify_change op example_env daemon_cred (junk\<lparr>ia_valid := 0x5840\<rparr>) ino"
    by (simp add: chown_common_def ino S_ISDIR_def mode_consts)
  moreover have "need_killpriv example_env = Inr False" "security_inode_setattr example_env = (\<lambda>_. Inr ())"
    by (simp_all add: example_env_def)
  ultimately have "chown_common op example_env daemon_cred junk ino (- 1) (- 1) =
      Some (setattr_of op example_env daemon_cred ?a ino)"
    by (simp add: notify_change_def ino mode_consts setattr_of_def split: option.split)
  moreover have "fsuid daemon_cred = 5" "cur_in_group daemon_cred 0"
    by (simp_all add: cur_in_group_def in_group_p_def daemon_cred_def user_cred_def root_cred_def)
  then have "inode_change_ok daemon_cred ino ?a = (Inr (), ?a)"
    by (simp add: inode_change_ok_def ino mode_consts is_owner_or_cap_def)
  ultimately show ?thesis by (rule that) simp_all
qed

lemma inode_setattr_mode:
  assumes "ia_valid a = 0x1841" and "ia_mode a = 0x81E9"
  shows "inode_setattr env c a ino = (Inr (), setattr_fields env c a ino)" "i_mode (setattr_fields env c a ino) = 0x81E9"
  using assms by (simp_all add: inode_setattr_def setattr_fields_attrs drop_sgid_def mode_consts S_ISGID_def)

lemma chown_setuid_file:
  "\<exists>ino'. chown_common None example_env daemon_cred junk (setuid_file flags) (- 1) (- 1) = Some (Inr (), ino') \<and>
     i_mode ino' = 0x81E9"
proof (rule chown_setuid [OF setuid_file_attrs(1-3)])
  fix a
  assume call: "chown_common None example_env daemon_cred junk (setuid_file flags) (- 1) (- 1) =
      Some (setattr_of None example_env daemon_cred a (setuid_file flags))"
    and ok: "inode_change_ok daemon_cred (setuid_file flags) a = (Inr (), a)" and a: "ia_valid a = 0x1841" "ia_mode a = 0x81E9"
  have "setattr_of None example_env daemon_cred a (setuid_file flags) =
      (Inr (), setattr_fields example_env daemon_cred a (setuid_file flags))"
    by (simp add: setattr_of_def default_setattr_def ok ids_change_def inode_setattr_mode [OF a]) (simp add: a mode_consts)
  with call show ?thesis by (simp add: inode_setattr_mode [OF a])
qed




text \<open>
  The check for immutable and append-only files comes before the flags that clear set-id bits
  turn into a change of the mode: a \<open>chown\<close> that changes neither owner nor group changes the mode of
  an immutable file.
\<close>

lemma chown_changes_immutable_file:
  "IS_IMMUTABLE (setuid_file S_IMMUTABLE)"
  "\<exists>ino'. chown_common None example_env daemon_cred junk (setuid_file S_IMMUTABLE) (- 1) (- 1) = Some (Inr (), ino') \<and>
     i_mode ino' \<noteq> i_mode (setuid_file S_IMMUTABLE)"
  using chown_setuid_file [of junk S_IMMUTABLE]
  by (auto simp: IS_IMMUTABLE_def setuid_file_def example_inode_def mode_consts)



end
