(* ===== verification/Acl_Encoding.thy ===== *)
theory Acl_Encoding
  imports Posix_Acl "HOL-Library.Monad_Syntax"
begin

text \<open>
  Access control lists as bytes: the format of the extended attributes seen by user space
  (\<^verbatim>\<open>fs/xattr_acl.c\<close>, \<^verbatim>\<open>include/linux/posix_acl_xattr.h\<close>) and the compact one ext2 stores on disk
  (\<^verbatim>\<open>fs/ext2/acl.c\<close>, \<^verbatim>\<open>fs/ext2/acl.h\<close>). Reads and writes of a byte area are bounded: \<open>None\<close> is an access
  outside of it. A pointer into the value is the list of the bytes from there to the end.
  The theorems: no accepted or rejected value is read beyond its end, decoding inverts encoding, and
  on disk encoding inverts decoding as well.
\<close>

section \<open>Little-endian numbers\<close>

definition get_le16 :: "u8 list \<Rightarrow> nat \<Rightarrow> u16 option" where
  "get_le16 bs off =
     map_option (\<lambda>b. ucast (b ! 0) OR push_bit 8 (ucast (b ! 1))) (mem_read off 2 bs)"

definition get_le32 :: "u8 list \<Rightarrow> nat \<Rightarrow> u32 option" where
  "get_le32 bs off =
     map_option (\<lambda>b. ucast (b ! 0) OR push_bit 8 (ucast (b ! 1)) OR push_bit 16 (ucast (b ! 2)) OR
       push_bit 24 (ucast (b ! 3))) (mem_read off 4 bs)"

definition put_le16 :: "u16 \<Rightarrow> u8 list" where
  "put_le16 v = [ucast v, ucast (drop_bit 8 v)]"

definition put_le32 :: "u32 \<Rightarrow> u8 list" where
  "put_le32 v = [ucast v, ucast (drop_bit 8 v), ucast (drop_bit 16 v), ucast (drop_bit 24 v)]"

section \<open>The format of extended attributes\<close>

definition POSIX_ACL_XATTR_VERSION :: u32 where "POSIX_ACL_XATTR_VERSION = 2"

definition posix_acl_xattr_size :: "int \<Rightarrow> int" where
  "posix_acl_xattr_size n = 4 + n * 8"

definition posix_acl_xattr_count :: "u64 \<Rightarrow> int" where
  "posix_acl_xattr_count sz =
     (if sz < 4 then - 1
      else let sz = sz - 4 in
        if sz mod 8 \<noteq> 0 then - 1 else sint (ucast (sz div 8) :: 32 word))"

definition short_tag :: "u16 \<Rightarrow> bool" where
  "short_tag t \<longleftrightarrow> t = ACL_USER_OBJ \<or> t = ACL_GROUP_OBJ \<or> t = ACL_MASK \<or> t = ACL_OTHER"

definition long_tag :: "u16 \<Rightarrow> bool" where
  "long_tag t \<longleftrightarrow> t = ACL_USER \<or> t = ACL_GROUP"

text \<open>The loop over \<open>n\<close> entries from \<open>entry\<close> on.\<close>

fun from_xattr_loop :: "nat \<Rightarrow> u8 list \<Rightarrow> posix_acl result option" where
  "from_xattr_loop 0 entry = Some (Inr [])"
| "from_xattr_loop (Suc n) entry =
     do {
       tag \<leftarrow> get_le16 entry 0;
       perm \<leftarrow> get_le16 entry 2;
       if short_tag tag then
         map_option (map_sum id (Cons \<lparr>e_tag = tag, e_perm = perm, e_id = ACL_UNDEFINED_ID\<rparr>))
           (from_xattr_loop n (drop 8 entry))
       else if long_tag tag then
         do {
           i \<leftarrow> get_le32 entry 4;
           map_option (map_sum id (Cons \<lparr>e_tag = tag, e_perm = perm, e_id = i\<rparr>))
             (from_xattr_loop n (drop 8 entry))
         }
       else Some (Inl EINVAL)
     }"

text \<open>
  \<open>value\<close> is \<open>None\<close> for a null pointer; its length is the size that is passed with it. \<open>mem\<close>: the
  allocation succeeds. The result \<open>Inr None\<close> is the null pointer.
\<close>

definition posix_acl_from_xattr :: "bool \<Rightarrow> u8 list option \<Rightarrow> posix_acl option result option" where
  "posix_acl_from_xattr mem value =
     (case value of
        None \<Rightarrow> Some (Inr None)
      | Some bs \<Rightarrow>
          if length bs < 4 then Some (Inl EINVAL)
          else do {
            version \<leftarrow> get_le32 bs 0;
            if version \<noteq> POSIX_ACL_XATTR_VERSION then Some (Inl EOPNOTSUPP)
            else
              let cnt = posix_acl_xattr_count (of_nat (length bs)) in
              if cnt < 0 then Some (Inl EINVAL)
              else if cnt = 0 then Some (Inr None)
              else if \<not> mem then Some (Inl ENOMEM)
              else map_option (map_sum id Some) (from_xattr_loop (nat cnt) (drop 4 bs))
          })"

fun to_xattr_loop :: "posix_acl \<Rightarrow> nat \<Rightarrow> u8 list \<Rightarrow> u8 list option" where
  "to_xattr_loop [] off buf = Some buf"
| "to_xattr_loop (e # acl) off buf =
     do {
       buf \<leftarrow> mem_write off (put_le16 (e_tag e)) buf;
       buf \<leftarrow> mem_write (off + 2) (put_le16 (e_perm e)) buf;
       buf \<leftarrow> mem_write (off + 4) (put_le32 (e_id e)) buf;
       to_xattr_loop acl (off + 8) buf
     }"

text \<open>The buffer of the caller, if there is one, has \<open>sz\<close> bytes; the result is the size of the attribute.\<close>

definition posix_acl_to_xattr ::
  "posix_acl \<Rightarrow> u8 list option \<Rightarrow> nat \<Rightarrow> (int result \<times> u8 list option) option" where
  "posix_acl_to_xattr acl buffer sz =
     (let real_size = posix_acl_xattr_size (int (length acl)) in
      case buffer of
        None \<Rightarrow> Some (Inr real_size, None)
      | Some buf \<Rightarrow>
          if real_size > int sz then Some (Inl ERANGE, Some buf)
          else do {
            buf \<leftarrow> mem_write 0 (put_le32 POSIX_ACL_XATTR_VERSION) buf;
            buf \<leftarrow> to_xattr_loop acl 4 buf;
            Some (Inr real_size, Some buf)
          })"

section \<open>The format on disk\<close>

definition EXT2_ACL_VERSION :: u32 where "EXT2_ACL_VERSION = 1"

definition ext2_acl_size :: "int \<Rightarrow> int" where
  "ext2_acl_size n = (if n \<le> 4 then 4 + n * 4 else 4 + 4 * 4 + (n - 4) * 8)"

definition ext2_acl_count :: "u64 \<Rightarrow> int" where
  "ext2_acl_count sz =
     (let sz = sz - 4; s = sz - 4 * 4 in
      if sint s < 0 then
        (if sz mod 4 \<noteq> 0 then - 1 else sint (ucast (sz div 4) :: 32 word))
      else if s mod 8 \<noteq> 0 then - 1 else sint (ucast (s div 8 + 4) :: 32 word))"

text \<open>The loop over \<open>n\<close> entries, with the comparison of \<open>value\<close> and \<open>end\<close> after it.\<close>

fun from_disk_loop :: "nat \<Rightarrow> u8 list \<Rightarrow> posix_acl result option" where
  "from_disk_loop 0 value = Some (if value \<noteq> [] then Inl EINVAL else Inr [])"
| "from_disk_loop (Suc n) value =
     (if length value < 4 then Some (Inl EINVAL)
      else do {
        tag \<leftarrow> get_le16 value 0;
        perm \<leftarrow> get_le16 value 2;
        if short_tag tag then
          map_option (map_sum id (Cons \<lparr>e_tag = tag, e_perm = perm, e_id = ACL_UNDEFINED_ID\<rparr>))
            (from_disk_loop n (drop 4 value))
        else if long_tag tag then
          (if length value < 8 then Some (Inl EINVAL)
           else do {
             i \<leftarrow> get_le32 value 4;
             map_option (map_sum id (Cons \<lparr>e_tag = tag, e_perm = perm, e_id = i\<rparr>))
               (from_disk_loop n (drop 8 value))
           })
        else Some (Inl EINVAL)
      })"

definition ext2_acl_from_disk :: "bool \<Rightarrow> u8 list option \<Rightarrow> posix_acl option result option" where
  "ext2_acl_from_disk mem value =
     (case value of
        None \<Rightarrow> Some (Inr None)
      | Some bs \<Rightarrow>
          if length bs < 4 then Some (Inl EINVAL)
          else do {
            version \<leftarrow> get_le32 bs 0;
            if version \<noteq> EXT2_ACL_VERSION then Some (Inl EINVAL)
            else
              let cnt = ext2_acl_count (of_nat (length bs)) in
              if cnt < 0 then Some (Inl EINVAL)
              else if cnt = 0 then Some (Inr None)
              else if \<not> mem then Some (Inl ENOMEM)
              else map_option (map_sum id Some) (from_disk_loop (nat cnt) (drop 4 bs))
          })"

fun to_disk_loop :: "posix_acl \<Rightarrow> nat \<Rightarrow> u8 list \<Rightarrow> u8 list result option" where
  "to_disk_loop [] off buf = Some (Inr buf)"
| "to_disk_loop (e # acl) off buf =
     do {
       buf \<leftarrow> mem_write off (put_le16 (e_tag e)) buf;
       buf \<leftarrow> mem_write (off + 2) (put_le16 (e_perm e)) buf;
       if long_tag (e_tag e) then
         do {
           buf \<leftarrow> mem_write (off + 4) (put_le32 (e_id e)) buf;
           to_disk_loop acl (off + 8) buf
         }
       else if short_tag (e_tag e) then to_disk_loop acl (off + 4) buf
       else Some (Inl EINVAL)
     }"

text \<open>
  \<open>area\<close> is the memory that \<open>kmalloc\<close> returns, with whatever it contains. The result is the area and
  the size of the value in it.
\<close>

definition ext2_acl_to_disk :: "u8 list option \<Rightarrow> posix_acl \<Rightarrow> (u8 list \<times> int) result option" where
  "ext2_acl_to_disk area acl =
     (let sz = ext2_acl_size (int (length acl)) in
      case area of
        None \<Rightarrow> Some (Inl ENOMEM)
      | Some buf \<Rightarrow>
          do {
            buf \<leftarrow> mem_write 0 (put_le32 EXT2_ACL_VERSION) buf;
            r \<leftarrow> to_disk_loop acl 4 buf;
            Some (map_sum id (\<lambda>buf. (buf, sz)) r)
          })"

section \<open>Numbers and bytes\<close>

lemma length_put_le [simp]: "length (put_le16 v) = 2" "length (put_le32 w) = 4"
  by (simp_all add: put_le16_def put_le32_def)

lemma split_u16: "ucast (ucast v :: u8) OR push_bit 8 (ucast (ucast (drop_bit 8 v) :: u8)) = (v :: u16)"
  by (rule bit_word_eqI) (auto simp: bit_simps)

lemma split_u32: "ucast (ucast v :: u8) OR push_bit 8 (ucast (ucast (drop_bit 8 v) :: u8)) OR
    push_bit 16 (ucast (ucast (drop_bit 16 v) :: u8)) OR push_bit 24 (ucast (ucast (drop_bit 24 v) :: u8)) = (v :: u32)" (is "?l = v")
proof (rule bit_word_eqI)
  fix n
  assume "n < LENGTH(32)"
  then show "bit ?l n = bit v n" by (cases "n < 16"; cases "n < 24") (auto simp: bit_simps)
qed

lemma get_put_le16: "get_le16 (pre @ put_le16 v @ post) (length pre) = Some v"
  by (simp add: get_le16_def mem_read_def put_le16_def split_u16)

lemma get_put_le32: "get_le32 (pre @ put_le32 v @ post) (length pre) = Some v"
  using split_u32 [of v] by (simp add: get_le32_def mem_read_def put_le32_def numeral_2_eq_2 numeral_3_eq_3)

lemma put_join16: "put_le16 (ucast a OR push_bit 8 (ucast b)) = [a, b]"
  unfolding put_le16_def by (intro list.inject [THEN iffD2] conjI; (intro bit_word_eqI)?; auto simp: bit_simps dest: bit_imp_le_length)

lemma put_join32: "put_le32 (ucast a OR push_bit 8 (ucast b) OR push_bit 16 (ucast c) OR push_bit 24 (ucast d)) = [a, b, c, d]"
  unfolding put_le32_def by (intro list.inject [THEN iffD2] conjI; (intro bit_word_eqI)?; auto simp: bit_simps dest: bit_imp_le_length)

lemma list_of_2: "length xs = 2 \<Longrightarrow> \<exists>a b. xs = [a, b]"
  by (auto simp: length_Suc_conv numeral_2_eq_2)

lemma list_of_4: "length xs = 4 \<Longrightarrow> \<exists>a b c d. xs = [a, b, c, d]"
  by (auto simp: length_Suc_conv eval_nat_numeral)

lemma get_le16_Some:
  "off + 2 \<le> length bs \<Longrightarrow> \<exists>v. get_le16 bs off = Some v \<and> put_le16 v = take 2 (drop off bs)"
proof -
  assume "off + 2 \<le> length bs"
  then obtain a b where "take 2 (drop off bs) = [a, b]" using list_of_2 [of "take 2 (drop off bs)"] by auto
  then show ?thesis using \<open>off + 2 \<le> length bs\<close> by (simp add: get_le16_def mem_read_def put_join16)
qed

lemma get_le32_Some:
  "off + 4 \<le> length bs \<Longrightarrow> \<exists>v. get_le32 bs off = Some v \<and> put_le32 v = take 4 (drop off bs)"
proof -
  assume "off + 4 \<le> length bs"
  then obtain a b c d where "take 4 (drop off bs) = [a, b, c, d]" using list_of_4 [of "take 4 (drop off bs)"] by auto
  then show ?thesis using \<open>off + 4 \<le> length bs\<close> put_join32 [of a b c d]
    by (simp add: get_le32_def mem_read_def numeral_2_eq_2 numeral_3_eq_3)
qed

section \<open>Entries\<close>

definition entry_ok :: "posix_acl_entry \<Rightarrow> bool" where
  "entry_ok e \<longleftrightarrow> short_tag (e_tag e) \<or> long_tag (e_tag e)"

text \<open>The id of an entry that has none is lost in both formats.\<close>

definition canonical :: "posix_acl_entry \<Rightarrow> posix_acl_entry" where
  "canonical e = (if long_tag (e_tag e) then e else e\<lparr>e_id := ACL_UNDEFINED_ID\<rparr>)"

definition xattr_entry :: "posix_acl_entry \<Rightarrow> u8 list" where
  "xattr_entry e = put_le16 (e_tag e) @ put_le16 (e_perm e) @ put_le32 (e_id e)"

definition disk_entry :: "posix_acl_entry \<Rightarrow> u8 list" where
  "disk_entry e = put_le16 (e_tag e) @ put_le16 (e_perm e) @ (if long_tag (e_tag e) then put_le32 (e_id e) else [])"

lemma tags_disjoint: "short_tag t \<Longrightarrow> \<not> long_tag t"
  by (auto simp: short_tag_def long_tag_def)

lemma length_entries:
  "length (xattr_entry e) = 8" "length (disk_entry e) = (if long_tag (e_tag e) then 8 else 4)"
  by (simp_all add: xattr_entry_def disk_entry_def)

lemma get_fields:
  "get_le16 (put_le16 t @ post) 0 = Some t" "get_le16 (put_le16 t @ put_le16 p @ post) 2 = Some p"
  "get_le32 (put_le16 t @ put_le16 p @ put_le32 i @ post) 4 = Some i"
  using get_put_le16 [of "[]" t post] get_put_le16 [of "put_le16 t" p post]
    get_put_le32 [of "put_le16 t @ put_le16 p" i post] by simp_all

lemma from_xattr_entries:
  "\<forall>e \<in> set acl. entry_ok e \<Longrightarrow>
   from_xattr_loop (length acl) (concat (map xattr_entry acl) @ rest) = Some (Inr (map canonical acl))"
proof (induction acl)
  case (Cons e acl)
  have "drop 8 (xattr_entry e @ xs) = xs" for xs by (simp add: length_entries)
  then show ?case
    using Cons tags_disjoint by (auto simp: get_fields xattr_entry_def canonical_def entry_ok_def)
qed simp

lemma from_disk_entries:
  "\<forall>e \<in> set acl. entry_ok e \<Longrightarrow>
   from_disk_loop (length acl) (concat (map disk_entry acl)) = Some (Inr (map canonical acl))"
proof (induction acl)
  case (Cons e acl)
  have "drop (length (disk_entry e)) (disk_entry e @ xs) = xs" for xs by simp
  then show ?case
    using Cons tags_disjoint length_entries(2) [of e]
    by (auto simp: get_fields disk_entry_def canonical_def entry_ok_def)
qed simp

lemma map_sum_Inr_iff [simp]: "map_sum f g z = Inr y \<longleftrightarrow> (\<exists>x. z = Inr x \<and> y = g x)"
  by (cases z) auto

lemma take_parts: "4 \<le> length bs \<Longrightarrow> take 2 bs @ take 2 (drop 2 bs) @ drop 4 bs = bs"
  by (metis append.assoc append_take_drop_id numeral_Bit0 one_add_one take_add)

lemma read_header:
  assumes "4 \<le> length bs"
  obtains t p where "get_le16 bs 0 = Some t" "get_le16 bs 2 = Some p" "bs = put_le16 t @ put_le16 p @ drop 4 bs"
  using get_le16_Some [of 0 bs] get_le16_Some [of 2 bs] take_parts [OF assms] assms that by force

lemma read_id:
  assumes "8 \<le> length bs"
  obtains i where "get_le32 bs 4 = Some i" "drop 4 bs = put_le32 i @ drop 8 bs"
proof -
  obtain i where "get_le32 bs 4 = Some i" "put_le32 i = take 4 (drop 4 bs)"
    using get_le32_Some [of 4 bs] assms by auto
  then show ?thesis using that append_take_drop_id [of 4 "drop 4 bs"] by simp
qed

lemma from_disk_no_fault: "from_disk_loop n bs \<noteq> None"
proof (induction n arbitrary: bs)
  case (Suc n)
  show ?case
  proof (cases "4 \<le> length bs")
    case True
    then obtain t p where "get_le16 bs 0 = Some t" "get_le16 bs 2 = Some p" by (rule read_header)
    moreover have "8 \<le> length bs \<Longrightarrow> \<exists>i. get_le32 bs 4 = Some i" by (blast elim: read_id)
    ultimately show ?thesis using Suc by auto
  qed simp
qed simp

lemma from_xattr_no_fault: "8 * n \<le> length bs \<Longrightarrow> from_xattr_loop n bs \<noteq> None"
proof (induction n arbitrary: bs)
  case (Suc n)
  then have "4 \<le> length bs" "8 \<le> length bs" by simp_all
  obtain t p where "get_le16 bs 0 = Some t" "get_le16 bs 2 = Some p" by (rule read_header [OF \<open>4 \<le> length bs\<close>])
  moreover obtain i where "get_le32 bs 4 = Some i" by (rule read_id [OF \<open>8 \<le> length bs\<close>])
  ultimately show ?case using Suc by auto
qed simp

lemma from_disk_inverse:
  "from_disk_loop n bs = Some (Inr acl) \<Longrightarrow>
   length acl = n \<and> concat (map disk_entry acl) = bs \<and> (\<forall>e \<in> set acl. entry_ok e) \<and> map canonical acl = acl"
proof (induction n arbitrary: bs acl)
  case (Suc n)
  then have "4 \<le> length bs" by (auto split: if_splits)
  then obtain t p where tp: "get_le16 bs 0 = Some t" "get_le16 bs 2 = Some p" and bs: "bs = put_le16 t @ put_le16 p @ drop 4 bs"
    by (rule read_header)
  show ?case
  proof (cases "short_tag t")
    case True
    then obtain acl' where "from_disk_loop n (drop 4 bs) = Some (Inr acl')"
      and acl: "acl = \<lparr>e_tag = t, e_perm = p, e_id = ACL_UNDEFINED_ID\<rparr> # acl'"
      using Suc.prems tp by (auto split: if_splits)
    from Suc.IH [OF this(1)] show ?thesis
      using True tags_disjoint [OF True] bs by (simp add: acl disk_entry_def entry_ok_def canonical_def)
  next
    case False
    then have long: "long_tag t" and "8 \<le> length bs" using Suc.prems tp by (auto split: if_splits)
    then obtain i where i: "get_le32 bs 4 = Some i" and bs': "drop 4 bs = put_le32 i @ drop 8 bs" by (auto elim: read_id)
    then obtain acl' where "from_disk_loop n (drop 8 bs) = Some (Inr acl')"
      and acl: "acl = \<lparr>e_tag = t, e_perm = p, e_id = i\<rparr> # acl'"
      using Suc.prems tp False long by (auto split: if_splits)
    from Suc.IH [OF this(1)] show ?thesis
      using long bs bs' by (simp add: acl disk_entry_def entry_ok_def canonical_def)
  qed
qed (auto split: if_splits)

section \<open>Writing\<close>

lemma mem_write_rest:
  assumes "off = length pre" and "length src \<le> length rest"
  shows "mem_write off src (pre @ rest) = Some ((pre @ src) @ drop (length src) rest)"
  using assms by (simp add: mem_write_def)

lemma to_xattr_writes:
  "8 * length acl \<le> length rest \<Longrightarrow> off = length pre \<Longrightarrow>
   to_xattr_loop acl off (pre @ rest) = Some (pre @ concat (map xattr_entry acl) @ drop (8 * length acl) rest)"
proof (induction acl arbitrary: off pre rest)
  case (Cons e acl)
  let ?pre1 = "pre @ put_le16 (e_tag e)"
  let ?pre2 = "?pre1 @ put_le16 (e_perm e)"
  have "mem_write off (put_le16 (e_tag e)) (pre @ rest) = Some (?pre1 @ drop 2 rest)"
    using Cons.prems mem_write_rest [of off pre "put_le16 (e_tag e)" rest] by simp
  moreover have "mem_write (off + 2) (put_le16 (e_perm e)) (?pre1 @ drop 2 rest) = Some (?pre2 @ drop 4 rest)"
    using Cons.prems mem_write_rest [of "off + 2" ?pre1 "put_le16 (e_perm e)" "drop 2 rest"] by simp
  moreover have "mem_write (off + 4) (put_le32 (e_id e)) (?pre2 @ drop 4 rest) = Some ((pre @ xattr_entry e) @ drop 8 rest)"
    using Cons.prems mem_write_rest [of "off + 4" ?pre2 "put_le32 (e_id e)" "drop 4 rest"] by (simp add: xattr_entry_def)
  moreover have "to_xattr_loop acl (off + 8) ((pre @ xattr_entry e) @ drop 8 rest) =
      Some ((pre @ xattr_entry e) @ concat (map xattr_entry acl) @ drop (8 * length acl) (drop 8 rest))"
    using Cons.prems by (intro Cons.IH) (simp_all add: length_entries)
  ultimately show ?case by (simp add: add.commute)
qed simp

lemma to_disk_writes:
  "8 * length acl \<le> length rest \<Longrightarrow> off = length pre \<Longrightarrow> \<forall>e \<in> set acl. entry_ok e \<Longrightarrow>
   \<exists>rest'. to_disk_loop acl off (pre @ rest) = Some (Inr (pre @ concat (map disk_entry acl) @ rest'))"
proof (induction acl arbitrary: off pre rest)
  case (Cons e acl)
  let ?pre1 = "pre @ put_le16 (e_tag e)"
  let ?pre2 = "?pre1 @ put_le16 (e_perm e)"
  have w1: "mem_write off (put_le16 (e_tag e)) (pre @ rest) = Some (?pre1 @ drop 2 rest)"
    using Cons.prems mem_write_rest [of off pre "put_le16 (e_tag e)" rest] by simp
  have w2: "mem_write (off + 2) (put_le16 (e_perm e)) (?pre1 @ drop 2 rest) = Some (?pre2 @ drop 4 rest)"
    using Cons.prems mem_write_rest [of "off + 2" ?pre1 "put_le16 (e_perm e)" "drop 2 rest"] by simp
  have room: "8 * length acl \<le> length (drop 8 rest)" "8 * length acl \<le> length (drop 4 rest)"
    using Cons.prems(1) by simp_all
  show ?case
  proof (cases "long_tag (e_tag e)")
    case True
    have "mem_write (off + 4) (put_le32 (e_id e)) (?pre2 @ drop 4 rest) = Some ((pre @ disk_entry e) @ drop 8 rest)"
      using Cons.prems True mem_write_rest [of "off + 4" ?pre2 "put_le32 (e_id e)" "drop 4 rest"]
      by (simp add: disk_entry_def)
    moreover obtain rest' where "to_disk_loop acl (off + 8) ((pre @ disk_entry e) @ drop 8 rest) =
        Some (Inr ((pre @ disk_entry e) @ concat (map disk_entry acl) @ rest'))"
      using Cons.prems(2,3) Cons.IH [OF room(1), of "off + 8" "pre @ disk_entry e"] True by (auto simp: length_entries)
    ultimately show ?thesis using w1 w2 True by simp
  next
    case False
    moreover obtain rest' where "to_disk_loop acl (off + 4) ((pre @ disk_entry e) @ drop 4 rest) =
        Some (Inr ((pre @ disk_entry e) @ concat (map disk_entry acl) @ rest'))"
      using Cons.prems(2,3) Cons.IH [OF room(2), of "off + 4" "pre @ disk_entry e"] False by (auto simp: length_entries)
    moreover have "?pre2 = pre @ disk_entry e" using False by (simp add: disk_entry_def)
    ultimately show ?thesis using w1 w2 Cons.prems(3) by (simp add: entry_ok_def)
  qed
qed simp

section \<open>Sizes\<close>

lemma word_div_int:
  assumes "0 \<le> k" "k < 2 ^ 64" "0 < m" "m < 2 ^ 64"
  shows "(word_of_int k :: u64) div word_of_int m = word_of_int (k div m)"
    "(word_of_int k :: u64) mod word_of_int m = word_of_int (k mod m)"
proof -
  have "k div m < 2 ^ 64" using assms by (metis div_by_1 int_one_le_iff_zero_less zdiv_mono2 order_le_less_trans zero_less_one)
  moreover have "k mod m < 2 ^ 64" using assms by (meson order_less_trans pos_mod_bound)
  ultimately show "(word_of_int k :: u64) div word_of_int m = word_of_int (k div m)"
    "(word_of_int k :: u64) mod word_of_int m = word_of_int (k mod m)"
    using assms
    by (auto intro!: word_uint_eqI simp: uint_div_distrib uint_mod_distrib uint_word_of_int_eq take_bit_int_eq_self
        pos_imp_zdiv_nonneg_iff)
qed

lemma word_zero_int: "0 \<le> k \<Longrightarrow> k < 2 ^ 64 \<Longrightarrow> (word_of_int k :: u64) = 0 \<longleftrightarrow> k = 0"
  using zdvd_not_zless [of k "2 ^ 64"] by (auto simp: word_of_int_eq_0_iff)

lemma int_of_size:
  assumes "0 \<le> k" "k < 2 ^ 31"
  shows "sint (ucast (word_of_int k :: u64) :: 32 word) = k"
  using assms by (simp add: unsigned_of_int take_bit_int_eq_self signed_of_int signed_take_bit_int_eq_self)

lemma posix_acl_xattr_count_int:
  assumes "4 \<le> n" and "n < 2 ^ 31"
  shows "posix_acl_xattr_count (word_of_int n) = (if (n - 4) mod 8 = 0 then (n - 4) div 8 else - 1)"
proof -
  have "\<not> (word_of_int n :: u64) < 4"
    using assms by (simp add: word_less_def uint_word_of_int_eq take_bit_int_eq_self)
  moreover have "(word_of_int n :: u64) - 4 = word_of_int (n - 4)" by simp
  ultimately show ?thesis
    using assms word_div_int [of "n - 4" 8] word_zero_int [of "(n - 4) mod 8"] int_of_size [of "(n - 4) div 8"]
    by (simp add: posix_acl_xattr_count_def Let_def)
qed

lemma ext2_acl_count_int:
  assumes "4 \<le> n" and "n < 2 ^ 31"
  shows "ext2_acl_count (word_of_int n) =
    (if n < 20 then if (n - 4) mod 4 = 0 then (n - 4) div 4 else - 1
     else if (n - 20) mod 8 = 0 then (n - 20) div 8 + 4 else - 1)"
proof -
  have w: "(word_of_int n :: u64) - 4 = word_of_int (n - 4)" "(word_of_int (n - 4) :: u64) - 16 = word_of_int (n - 20)"
    by simp_all
  have s: "sint (word_of_int (n - 20) :: u64) = n - 20"
    unfolding signed_of_int using assms by (simp add: signed_take_bit_int_eq_self)
  show ?thesis
  proof (cases "n < 20")
    case True
    then show ?thesis
      using assms s w word_div_int [of "n - 4" 4] word_zero_int [of "(n - 4) mod 4"] int_of_size [of "(n - 4) div 4"]
      by (simp add: ext2_acl_count_def Let_def)
  next
    case False
    then show ?thesis
      using assms s w word_div_int [of "n - 20" 8] word_zero_int [of "(n - 20) mod 8"] int_of_size [of "(n - 20) div 8 + 4"]
      by (simp add: ext2_acl_count_def Let_def)
  qed
qed

lemma length_xattr: "length (concat (map xattr_entry acl)) = 8 * length acl"
  by (induction acl) (simp_all add: length_entries)

lemma ext2_acl_size_count:
  assumes "0 \<le> n" and "n < 2 ^ 28 - 2"
  shows "ext2_acl_count (word_of_int (ext2_acl_size n)) = n"
proof -
  have "4 \<le> ext2_acl_size n" "ext2_acl_size n < 2 ^ 31" using assms by (auto simp: ext2_acl_size_def)
  moreover have "n < 4 \<or> n = 4 \<or> 4 < n" by linarith
  ultimately show ?thesis by (subst ext2_acl_count_int) (auto simp: ext2_acl_size_def)
qed

lemma ext2_acl_count_size:
  assumes "4 \<le> n" and "n < 2 ^ 31" and "0 \<le> ext2_acl_count (word_of_int n)"
  shows "ext2_acl_size (ext2_acl_count (word_of_int n)) = n"
proof -
  note count_int = ext2_acl_count_int [OF assms(1,2)]
  show ?thesis
  proof (cases "n < 20")
    case True
    then have "(n - 4) mod 4 = 0" using assms(3) count_int by (auto split: if_splits)
    then show ?thesis using True assms(1) unfolding count_int ext2_acl_size_def by (auto elim!: dvdE simp: mod_eq_0_iff_dvd)
  next
    case False
    then have "(n - 20) mod 8 = 0" using assms(3) count_int by (auto split: if_splits)
    then show ?thesis using False unfolding count_int ext2_acl_size_def by (auto elim!: dvdE simp: mod_eq_0_iff_dvd)
  qed
qed

section \<open>Decoding inverts encoding\<close>

lemma to_xattr_form:
  assumes "4 + 8 * length acl \<le> length buf"
  shows "posix_acl_to_xattr acl (Some buf) (length buf) =
    Some (Inr (4 + 8 * int (length acl)),
      Some (put_le32 POSIX_ACL_XATTR_VERSION @ concat (map xattr_entry acl) @ drop (4 + 8 * length acl) buf))"
proof -
  let ?v = "put_le32 POSIX_ACL_XATTR_VERSION"
  have w: "mem_write 0 ?v buf = Some (?v @ drop 4 buf)"
    using assms mem_write_rest [of 0 "[]" ?v buf] by simp
  have l: "to_xattr_loop acl 4 (?v @ drop 4 buf) =
      Some (?v @ concat (map xattr_entry acl) @ drop (8 * length acl) (drop 4 buf))"
    using assms by (intro to_xattr_writes) simp_all
  have "\<not> posix_acl_xattr_size (int (length acl)) > int (length buf)"
    "posix_acl_xattr_size (int (length acl)) = 4 + 8 * int (length acl)"
    using assms by (simp_all add: posix_acl_xattr_size_def)
  then show ?thesis by (simp add: posix_acl_to_xattr_def w l add.commute)
qed

lemma from_xattr_form:
  assumes "\<forall>e \<in> set acl. entry_ok e" and "acl \<noteq> []" and "length acl < 2 ^ 28 - 1"
  shows "posix_acl_from_xattr True (Some (put_le32 POSIX_ACL_XATTR_VERSION @ concat (map xattr_entry acl))) =
    Some (Inr (Some (map canonical acl)))"
proof -
  let ?bs = "put_le32 POSIX_ACL_XATTR_VERSION @ concat (map xattr_entry acl)"
  have len: "length ?bs = 4 + 8 * length acl" by (simp add: length_xattr)
  have cnt: "posix_acl_xattr_count (of_nat (length ?bs)) = int (length acl)"
    unfolding len using posix_acl_xattr_count_int [of "int (4 + 8 * length acl)"] assms(3) unfolding of_int_of_nat_eq by simp
  have "get_le32 ?bs 0 = Some POSIX_ACL_XATTR_VERSION"
    using get_put_le32 [of "[]"] by simp
  moreover have "from_xattr_loop (length acl) (drop 4 ?bs) = Some (Inr (map canonical acl))"
    using from_xattr_entries [OF assms(1), of "[]"] by simp
  moreover have "\<not> length ?bs < 4" by simp
  ultimately show ?thesis using assms(2) by (simp only: posix_acl_from_xattr_def option.case cnt Let_def) simp
qed

lemma to_disk_form:
  assumes "\<forall>e \<in> set acl. entry_ok e" and "length area = 4 + 8 * length acl"
  shows "\<exists>rest. ext2_acl_to_disk (Some area) acl =
    Some (Inr (put_le32 EXT2_ACL_VERSION @ concat (map disk_entry acl) @ rest, ext2_acl_size (int (length acl))))"
proof -
  let ?v = "put_le32 EXT2_ACL_VERSION"
  have w: "mem_write 0 ?v area = Some (?v @ drop 4 area)"
    using assms(2) mem_write_rest [of 0 "[]" ?v area] by simp
  have "8 * length acl \<le> length (drop 4 area)" "4 = length ?v" using assms(2) by simp_all
  from to_disk_writes [OF this assms(1)] obtain rest where
    "to_disk_loop acl 4 (?v @ drop 4 area) = Some (Inr (?v @ concat (map disk_entry acl) @ rest))" by blast
  then show ?thesis by (simp add: ext2_acl_to_disk_def w)
qed

lemma from_disk_form:
  assumes "\<forall>e \<in> set acl. entry_ok e" and "acl \<noteq> []" and "length acl < 2 ^ 28 - 2"
    and size: "int (length (concat (map disk_entry acl))) + 4 = ext2_acl_size (int (length acl))"
  shows "ext2_acl_from_disk True (Some (put_le32 EXT2_ACL_VERSION @ concat (map disk_entry acl))) =
    Some (Inr (Some (map canonical acl)))"
proof -
  let ?bs = "put_le32 EXT2_ACL_VERSION @ concat (map disk_entry acl)"
  have len: "int (length ?bs) = ext2_acl_size (int (length acl))" using size by simp
  have cnt: "ext2_acl_count (of_nat (length ?bs)) = int (length acl)"
    using ext2_acl_size_count [of "int (length acl)"] assms(3) unfolding len [symmetric] of_int_of_nat_eq by simp
  have "get_le32 ?bs 0 = Some EXT2_ACL_VERSION" using get_put_le32 [of "[]"] by simp
  moreover have "from_disk_loop (length acl) (drop 4 ?bs) = Some (Inr (map canonical acl))"
    using from_disk_entries [OF assms(1)] by simp
  moreover have "\<not> length ?bs < 4" by simp
  ultimately show ?thesis using assms(2) by (simp only: ext2_acl_from_disk_def option.case cnt Let_def) simp
qed

lemma valid_entries_ok:
  assumes "posix_acl_valid acl = Inr ()"
  shows "\<forall>e \<in> set acl. entry_ok e" "acl \<noteq> []"
    "int (length (concat (map disk_entry acl))) + 4 = ext2_acl_size (int (length acl))"
proof -
  obtain u us g gs ms w where acl: "acl = u # us @ g # gs @ ms @ [w]" and form: "acl_form u us g gs ms w"
    using valid_grammar [OF assms] unfolding acl_grammar_def by blast
  have us: "\<forall>e \<in> set (us @ gs). long_tag (e_tag e)"
    and tags: "e_tag u = ACL_USER_OBJ" "e_tag g = ACL_GROUP_OBJ" "e_tag w = ACL_OTHER"
    and ms: "ms = [] \<and> us = [] \<and> gs = [] \<or> (\<exists>m. ms = [m] \<and> e_tag m = ACL_MASK)"
    using form by (auto simp: acl_form_def named_entries_def long_tag_def)
  show "acl \<noteq> []" by (simp add: acl)
  show "\<forall>e \<in> set acl. entry_ok e" using us tags ms by (auto simp: acl entry_ok_def short_tag_def)
  have "length (concat (map disk_entry es)) = 8 * length es" if "\<forall>e \<in> set es. long_tag (e_tag e)" for es
    using that by (induction es) (simp_all add: length_entries)
  then have "length (concat (map disk_entry us)) = 8 * length us" "length (concat (map disk_entry gs)) = 8 * length gs"
    using us by auto
  moreover have "\<not> long_tag (e_tag u)" "\<not> long_tag (e_tag g)" "\<not> long_tag (e_tag w)" "\<not> long_tag ACL_MASK"
    using tags by (auto simp: long_tag_def)
  ultimately show "int (length (concat (map disk_entry acl))) + 4 = ext2_acl_size (int (length acl))"
    using ms by (auto simp: acl length_entries ext2_acl_size_def)
qed

lemma ext2_acl_from_disk_total: "\<exists>r. ext2_acl_from_disk mem (Some bs) = Some r"
proof (cases "4 \<le> length bs")
  case True
  then obtain v where "get_le32 bs 0 = Some v" using get_le32_Some [of 0 bs] by auto
  then show ?thesis using from_disk_no_fault by (auto simp: ext2_acl_from_disk_def Let_def)
qed (simp add: ext2_acl_from_disk_def)

lemma ext2_acl_from_disk_accepts:
  assumes "ext2_acl_from_disk mem (Some bs) = Some (Inr (Some acl))"
  shows "4 \<le> length bs" "get_le32 bs 0 = Some EXT2_ACL_VERSION" "0 \<le> ext2_acl_count (of_nat (length bs))"
    "from_disk_loop (nat (ext2_acl_count (of_nat (length bs)))) (drop 4 bs) = Some (Inr acl)"
proof -
  show len: "4 \<le> length bs" using assms by (auto simp: ext2_acl_from_disk_def split: if_splits)
  then obtain v where v: "get_le32 bs 0 = Some v" using get_le32_Some [of 0 bs] by auto
  let ?cnt = "ext2_acl_count (of_nat (length bs))"
  have "ext2_acl_from_disk mem (Some bs) = (if v \<noteq> EXT2_ACL_VERSION then Some (Inl EINVAL)
      else if ?cnt < 0 then Some (Inl EINVAL) else if ?cnt = 0 then Some (Inr None)
      else if \<not> mem then Some (Inl ENOMEM) else map_option (map_sum id Some) (from_disk_loop (nat ?cnt) (drop 4 bs)))"
    using len by (simp add: ext2_acl_from_disk_def v Let_def)
  with assms show "get_le32 bs 0 = Some EXT2_ACL_VERSION" "0 \<le> ?cnt"
    "from_disk_loop (nat ?cnt) (drop 4 bs) = Some (Inr acl)"
    by (auto simp: v split: if_split_asm)
qed

text \<open>C38.
  Whatever bytes are found on disk, \<open>ext2_acl_from_disk\<close> returns without reading beyond their end;
  and if it accepts them, then writing the list back with \<open>ext2_acl_to_disk\<close> gives exactly the same bytes and
  the same size: no two values stand for the same list.
\<close>

theorem ext2_acl_from_disk_safe:
  assumes "length bs < 2 ^ 31"
  shows "\<exists>r. ext2_acl_from_disk mem (Some bs) = Some r \<and>
    (\<forall>acl area. r = Inr (Some acl) \<and> length area = 4 + 8 * length acl \<longrightarrow>
      (\<exists>rest. ext2_acl_to_disk (Some area) acl = Some (Inr (bs @ rest, int (length bs)))))"
proof -
  have "\<exists>rest. ext2_acl_to_disk (Some area) acl = Some (Inr (bs @ rest, int (length bs)))"
    if acl: "ext2_acl_from_disk mem (Some bs) = Some (Inr (Some acl))" and area: "length area = 4 + 8 * length acl" for acl area
  proof -
    note read = ext2_acl_from_disk_accepts [OF acl]
    have inv: "length acl = nat (ext2_acl_count (of_nat (length bs)))" "concat (map disk_entry acl) = drop 4 bs"
      "\<forall>e \<in> set acl. entry_ok e" using from_disk_inverse [OF read(4)] by auto
    have "ext2_acl_size (int (length acl)) = int (length bs)"
      using ext2_acl_count_size [of "int (length bs)"] read(1,3) inv(1) assms unfolding of_int_of_nat_eq by simp
    moreover have "put_le32 EXT2_ACL_VERSION = take 4 bs" using get_le32_Some [of 0 bs] read(1,2) by auto
    then have "put_le32 EXT2_ACL_VERSION @ drop 4 bs @ rest = bs @ rest" for rest
      by (metis append.assoc append_take_drop_id)
    ultimately show ?thesis using to_disk_form [OF inv(3) area] unfolding inv(2) by metis
  qed
  moreover obtain r where "ext2_acl_from_disk mem (Some bs) = Some r" using ext2_acl_from_disk_total by blast
  ultimately show ?thesis by auto
qed

theorem ext2_acl_from_disk_safe_witness:
  "\<exists>acl rest. ext2_acl_from_disk True (Some [1, 0, 0, 0, 1, 0, 6, 0, 4, 0, 4, 0, 32, 0, 0, 0]) = Some (Inr (Some acl)) \<and>
    ext2_acl_to_disk (Some (replicate 28 0xFF)) acl = Some (Inr ([1, 0, 0, 0, 1, 0, 6, 0, 4, 0, 4, 0, 32, 0, 0, 0] @ rest, 16))"
proof -
  let ?acl = "[\<lparr>e_tag = ACL_USER_OBJ, e_perm = 6, e_id = ACL_UNDEFINED_ID\<rparr>,
    \<lparr>e_tag = ACL_GROUP_OBJ, e_perm = 4, e_id = ACL_UNDEFINED_ID\<rparr>, \<lparr>e_tag = ACL_OTHER, e_perm = 0, e_id = ACL_UNDEFINED_ID\<rparr>]"
  let ?bs = "[1, 0, 0, 0, 1, 0, 6, 0, 4, 0, 4, 0, 32, 0, 0, 0]"
  have "posix_acl_valid ?acl = Inr ()" by (simp add: posix_acl_valid_def) (simp add: acl_consts)
  note ok = valid_entries_ok [OF this]
  have "put_le32 EXT2_ACL_VERSION @ concat (map disk_entry ?acl) = ?bs"
    by (simp add: put_le32_def put_le16_def disk_entry_def EXT2_ACL_VERSION_def long_tag_def) (simp add: acl_consts)
  then have read: "ext2_acl_from_disk True (Some ?bs) = Some (Inr (Some (map canonical ?acl)))"
    using from_disk_form [OF ok(1,2) _ ok(3)] by simp
  with ext2_acl_from_disk_safe [of ?bs True] show ?thesis by auto
qed

end
