(* ===== verification/Spec2Isabelle.thy ===== *)
theory Spec2Isabelle
  imports Kernel_Prelude Kfifo Kfifo_Spsc Skbuff Nlattr Bpf_Filter Bpf_Socket Lmb File_Locks Posix_Locks Lock_Syscalls
    Group_Info Capability Credentials Exec_Credentials Posix_Acl Inode_Permission Acl_Encoding
begin

text \<open>
  \<^bold>\<open>A verification library for parts of Linux 2.6.32.21.\<close> The source tree is
  \<^verbatim>\<open>src/linux-2.6.32.21/\<close>; paths below are relative to it. The library covers self-contained algorithms
  and decision procedures of the kernel, in three groups that build on each other inside a group:
  data structures (a ring buffer, packet reads, netlink attributes, the boot-time memory tables),
  the socket filters that work on packets and attributes, and access control (credentials,
  capabilities, program execution, access control lists, inode permissions, file locks).

  \<^bold>\<open>Conventions\<close> (\<open>Kernel_Prelude\<close>). Machine integers are words of their width where wrap-around matters
  and \<open>int\<close> or \<open>nat\<close> where the code keeps them in range. A function that may return a negative errno
  has a \<open>result\<close>, \<open>Inl\<close> of the error; \<open>None\<close> is an event C leaves undefined or that stops the
  kernel: an access outside an array or to a freed object, a \<^verbatim>\<open>BUG_ON\<close>, a \<^verbatim>\<open>panic\<close>. So a theorem that a
  function returns \<open>Some\<close> also says that none of these happens. State is passed explicitly; calls on
  shared state that may interleave are step relations. Code outside the modelled parts (allocators, user
  copies, security hooks of other modules, methods of file systems, the clock) is an argument,
  quantified in the theorems; a leading \<^verbatim>\<open>__\<close> of a C name is written \<open>raw_\<close> or dropped.

  \<^bold>\<open>Ring buffer.\<close> \<open>Kfifo\<close> models \<^verbatim>\<open>struct kfifo\<close> and \<^verbatim>\<open>__kfifo_put\<close>, \<^verbatim>\<open>__kfifo_get\<close>, \<^verbatim>\<open>kfifo_put\<close>, \<^verbatim>\<open>kfifo_get\<close> of
  \<^verbatim>\<open>kernel/kfifo.c\<close> and \<^verbatim>\<open>include/linux/kfifo.h\<close> with their free-running 32-bit counters. The locale
  \<open>byte_fifo\<close> states what a bounded byte queue promises; the raw and the locked functions are its two
  interpretations, from which any sequence of calls is first-in first-out across the wrap-around.
  \<open>Kfifo_Spsc\<close> splits the two functions into the steps between which the other side can run and shows, as
  an invariant of the step relation, that one producer and one consumer need no lock.

  \<^bold>\<open>Packets.\<close> \<open>Skbuff\<close> models \<^verbatim>\<open>skb_copy_bits\<close> and \<^verbatim>\<open>skb_header_pointer\<close> on linear area, page fragments and
  chained buffers: exactly the requested range or \<^verbatim>\<open>EFAULT\<close>. \<open>Nlattr\<close> models \<^verbatim>\<open>lib/nlattr.c\<close>: parsing arbitrary
  bytes is memory safe and terminates, and what \<^verbatim>\<open>nla_put\<close> builds is parsed back.

  \<^bold>\<open>Socket filters.\<close> \<open>Bpf_Filter\<close> models \<^verbatim>\<open>sk_chk_filter\<close> and \<^verbatim>\<open>sk_run_filter\<close> of \<^verbatim>\<open>net/core/filter.c\<close> over
  a datatype of the case labels, with a fault for everything C leaves undefined. The loop of the
  interpreter, \<open>bpf_loop\<close>, is a partial function; that checked programs end, since jumps go forward
  only, is a theorem. The faults they can still reach are those of \<open>sk_chk_filter_gaps\<close>. It uses \<open>Skbuff\<close> for packet loads and \<open>Nlattr\<close> for the attribute loads.
  \<open>Bpf_Socket\<close> models attaching, sharing, detaching and freeing filters with reference counts, RCU callbacks
  and readers (\<^verbatim>\<open>sk_attach_filter\<close>, \<^verbatim>\<open>sk_detach_filter\<close>, \<^verbatim>\<open>sk_clone\<close>, \<^verbatim>\<open>__sk_free\<close>) as a step relation, with the invariant
  that a filter lives exactly as long as it is referenced.

  \<^bold>\<open>Boot memory.\<close> \<open>Lmb\<close> models \<^verbatim>\<open>lib/lmb.c\<close>: tables as arrays with 64-bit addresses. Under the
  well-formedness of a table, adding is union and removing is difference of address sets, allocation returns
  free memory, and the memory limit cuts exactly.

  \<^bold>\<open>File locks.\<close> \<open>File_Locks\<close>, \<open>Posix_Locks\<close> and \<open>Lock_Syscalls\<close> model \<^verbatim>\<open>fs/locks.c\<close>: the list of locks of an inode
  and the algorithms on it, their correctness against a table of locked bytes, and the \<^verbatim>\<open>fcntl\<close> and \<^verbatim>\<open>flock\<close> calls
  with their waiting loops, leases, mandatory locks and release on close. A loop that waits for other
  processes consumes a list of events, one for each time the process runs again; the deadlock search
  is bounded by \<^verbatim>\<open>MAX_DEADLK_ITERATIONS\<close> as in the source.

  \<^bold>\<open>Credentials.\<close> \<open>Group_Info\<close> models \<^verbatim>\<open>kernel/groups.c\<close>: the two-level array, the Shell sort, the binary search.
  \<open>Capability\<close> models \<^verbatim>\<open>security/commoncap.c\<close>, \<^verbatim>\<open>kernel/capability.c\<close> and \<^verbatim>\<open>prepare_binprm\<close> of \<^verbatim>\<open>fs/exec.c\<close>; the locale
  \<open>cap_sets\<close> has the laws of capability sets and is interpreted on the two-word sets of the
  source. \<open>Credentials\<close> models the set*id calls of \<^verbatim>\<open>kernel/sys.c\<close> and the group calls, and puts all calls into one
  transition system: an unprivileged task stays confined, and \<^verbatim>\<open>setuid\<close> drops privileges for good.
  \<open>Exec_Credentials\<close> bounds what executing a program adds and shows that credentials stay well formed.

  \<^bold>\<open>Access control lists and inodes.\<close> \<open>Posix_Acl\<close> models \<^verbatim>\<open>fs/posix_acl.c\<close>: validity is a grammar, the access check is
  the algorithm of POSIX 1003.1e, creation and chmod keep list and mode in agreement. \<open>Inode_Permission\<close> models the
  checks of \<^verbatim>\<open>fs/namei.c\<close> (\<^verbatim>\<open>generic_permission\<close>, \<^verbatim>\<open>inode_permission\<close>, \<^verbatim>\<open>exec_permission_lite\<close>, \<^verbatim>\<open>may_delete\<close>, \<^verbatim>\<open>may_create\<close>)
  and the attribute changes of \<^verbatim>\<open>fs/attr.c\<close>, \<^verbatim>\<open>fs/open.c\<close> and \<^verbatim>\<open>mm/filemap.c\<close> (\<^verbatim>\<open>notify_change\<close>, \<^verbatim>\<open>fchmod\<close>, \<^verbatim>\<open>chown\<close>, clearing of set-id
  bits). The record of an inode is extensible by a file system; the locale \<open>setattr_contract\<close> says what
  \<^verbatim>\<open>notify_change\<close> needs of a file system's \<^verbatim>\<open>setattr\<close> and is interpreted on the default one. \<open>Acl_Encoding\<close>
  models the byte formats of \<^verbatim>\<open>fs/xattr_acl.c\<close> and \<^verbatim>\<open>fs/ext2/acl.c\<close>.

  \<^bold>\<open>Findings\<close> are lemmas or theorems on concrete inputs next to the definitions concerned:
  \<open>nla_policy_len_first_only\<close>, \<open>sk_chk_filter_gaps\<close>, \<open>lmb_is_reserved_initial\<close>, \<open>lmb_alloc_base_bogus\<close>,
  \<open>lmb_add_after_last_removed\<close>, \<open>lmb_find_last_byte\<close>, \<open>flock_shared_file_duplicate\<close>, \<open>fcntl_setlease_not_removed\<close>,
  \<open>lock_may_write_off_by_one\<close>, \<open>groups_search_misses_member\<close>, \<open>empty_mask_bypasses_acl\<close>,
  \<open>chown_changes_immutable_file\<close>.

  \<^bold>\<open>Loops and bounds.\<close> Most loops are structural recursions or have a termination proof with a measure on
  the data; waiting loops recurse over their events. Loops of which the code alone does not show that they end
  (\<open>bpf_loop\<close>, \<open>sift\<close> of the Shell sort, \<open>search_down\<close> and \<open>alloc_nid_loop\<close> of the allocator) are partial functions into
  \<open>option\<close>, and the theorems show that they return. There is no fuel. Lengths that the
  code holds in an \<^verbatim>\<open>int\<close> are assumed to fit where a theorem needs it, and the assumption is in its statement.

  \<^bold>\<open>Not modelled.\<close> Hardware access and architecture code (\<^verbatim>\<open>arch/\<close>, \<^verbatim>\<open>drivers/\<close>, \<^verbatim>\<open>sound/\<close>), because its meaning is
  that of devices and instructions; the memory manager, the scheduler, interrupt handling and timers,
  whose correctness is a matter of concurrency on hardware; the protocol stacks and file systems beyond the
  parts above, the block layer, IPC, cryptography and the other security modules, which are
  independent of the modelled parts or enter them only as arguments. Locks of the kernel (spin
  locks, mutexes, RCU) appear as the atomicity of steps; reference counts only where they are
  the subject (\<open>Bpf_Socket\<close>). Audit records, tracing, notification and output for debugging are left out.
\<close>

end
